(* ===== verification/C9_Prelude.thy ===== *)
theory C9_Prelude
  imports Main "HOL-Library.Word" "HOL-Library.Monad_Syntax"
begin

text \<open>
  Shared vocabulary of the development: the machine integers of the source, the pieces of
  the Rust standard library that the components call (\<open>Vec::get\<close>, integer ranges,
  \<open>saturating_sub\<close>, \<open>checked_add\<close>, \<open>Iterator::find_map\<close>, folds that may panic), and
  the lemmas on words, lists and finite sets that the component theories share.

  A \<open>u64\<close> is a \<open>64 word\<close>; its \<open>+\<close> and \<open>-\<close> wrap around, which is what a release
  build of the source does. A panic (a remainder by zero, a slice out of range, a failed
  \<open>assert!\<close>) is the value \<open>None\<close> of an option type. \<open>usize\<close> is that of a 64-bit target,
  and a value of it read off a \<open>Vec\<close> is the \<open>nat\<close> length of a list.
\<close>

section \<open>Machine integers\<close>

type_synonym u64 = "64 word"
type_synonym u32 = "32 word"
type_synonym u16 = "16 word"
type_synonym u8 = "8 word"

abbreviation u64_max :: u64 where
  "u64_max \<equiv> - 1"

named_theorems wordarith \<open>moving statements about machine integers to the natural numbers\<close>
named_theorems ressimps \<open>unfolding chains of fallible calls\<close>

definition saturating_sub :: "u64 \<Rightarrow> u64 \<Rightarrow> u64" where
  "saturating_sub a b = (if a < b then 0 else a - b)"

definition checked_add :: "u64 \<Rightarrow> u64 \<Rightarrow> u64 option" where
  "checked_add a b = (if uint a + uint b < 2 ^ 64 then Some (a + b) else None)"

definition u64_try_from :: "nat \<Rightarrow> u64 option" where
  "u64_try_from n = (if int n < 2 ^ 64 then Some (of_nat n) else None)"

lemma unat_lt_2p64: "unat (x :: u64) < 18446744073709551616"
proof -
  have "unat x < 2 ^ LENGTH(64)" by (rule unsigned_less)
  then show ?thesis by simp
qed

lemma unat_le_2p64: "unat (x :: u64) \<le> 18446744073709551615"
  using unat_lt_2p64 [of x] by linarith

lemma unat_u64_max [simp]: "unat u64_max = 18446744073709551615"
  by (simp add: unsigned_minus_1_eq_mask mask_eq_exp_minus_1)

lemma unat_inc [wordarith]: "x \<noteq> u64_max \<Longrightarrow> unat (x + 1) = Suc (unat x)"
  using unatSuc [of x] by (metis add.commute add_eq_0_iff)

lemma u64_neq_max_iff: "x \<noteq> u64_max \<longleftrightarrow> unat (x :: u64) < 18446744073709551615"
proof -
  have "unat x < 18446744073709551616" by (rule unat_lt_2p64)
  moreover have "x = u64_max \<longleftrightarrow> unat x = unat u64_max" by (simp only: word_unat_eq_iff)
  ultimately show ?thesis unfolding unat_u64_max by linarith
qed

lemma u64_less_inc: "x \<noteq> u64_max \<Longrightarrow> (x :: u64) < x + 1"
  by (simp add: word_less_nat_alt unat_inc)

lemma u64_inc_le_iff: "x \<noteq> u64_max \<Longrightarrow> x + 1 \<le> y \<longleftrightarrow> (x :: u64) < y"
  by (simp add: word_less_nat_alt word_le_nat_alt unat_inc Suc_le_eq)

lemma u64_less_inc_iff: "x \<noteq> u64_max \<Longrightarrow> y < x + 1 \<longleftrightarrow> y \<le> (x :: u64)"
  by (simp add: word_less_nat_alt word_le_nat_alt unat_inc less_Suc_eq_le)

lemma u64_less_not_max: "(x :: u64) < y \<Longrightarrow> x \<noteq> u64_max"
  using leD word_order.extremum by blast

lemma unat_diff_u64 [wordarith]: "y \<le> x \<Longrightarrow> unat (x - y) = unat x - unat (y :: u64)"
  by (simp add: unat_sub)

lemma unat_add_u64 [wordarith]:
  "unat x + unat y < 18446744073709551616 \<Longrightarrow> unat (x + y) = unat x + unat (y :: u64)"
  by (simp add: unat_word_ariths)

lemma unat_of_nat_u64 [wordarith]: "n < 18446744073709551616 \<Longrightarrow> unat (of_nat n :: u64) = n"
  by (simp add: unat_of_nat)

lemma saturating_sub_le: "saturating_sub a b \<le> a"
  by (auto simp: saturating_sub_def word_le_nat_alt unat_diff_u64 not_less)

lemma unat_saturating_sub: "unat (saturating_sub a b) = unat a - unat b"
  by (auto simp: saturating_sub_def word_less_nat_alt unat_diff_u64 word_le_nat_alt)

lemma checked_add_alt:
  "checked_add a b = (if unat a + unat b < 18446744073709551616 then Some (a + b) else None)"
proof -
  have "uint a + uint b < 18446744073709551616 \<longleftrightarrow> unat a + unat b < 18446744073709551616"
    unfolding uint_nat by linarith
  then show ?thesis by (simp add: checked_add_def)
qed

lemma checked_add_SomeD: "checked_add a b = Some c \<Longrightarrow> unat c = unat a + unat b"
  by (auto simp: checked_add_alt unat_add_u64 split: if_splits)

lemma u64_try_from_alt:
  "u64_try_from n = (if n < 18446744073709551616 then Some (of_nat n) else None)"
  by (simp add: u64_try_from_def)

section \<open>Integer ranges\<close>

text \<open>The lists that \<open>for i in a..=b\<close> and \<open>for i in a..b\<close> run through.\<close>

definition range_incl :: "u64 \<Rightarrow> u64 \<Rightarrow> u64 list" where
  "range_incl a b = map of_nat [unat a ..< Suc (unat b)]"

definition range_excl :: "u64 \<Rightarrow> u64 \<Rightarrow> u64 list" where
  "range_excl a b = map of_nat [unat a ..< unat b]"

lemma set_range_excl [simp]: "set (range_excl a b) = {i. a \<le> i \<and> i < b}"
proof (intro equalityI subsetI)
  fix i assume "i \<in> set (range_excl a b)"
  then obtain n where n: "unat a \<le> n" "n < unat b" "i = of_nat n"
    by (auto simp: range_excl_def)
  from n have "n < 18446744073709551616" using unat_lt_2p64 [of b] by linarith
  with n have "unat i = n" by (simp add: unat_of_nat_u64)
  with n show "i \<in> {i. a \<le> i \<and> i < b}" by (simp add: word_less_nat_alt word_le_nat_alt)
next
  fix i assume "i \<in> {i. a \<le> i \<and> i < b}"
  then have "unat i \<in> set [unat a ..< unat b]" "i = of_nat (unat i)"
    by (auto simp: word_less_nat_alt word_le_nat_alt)
  then show "i \<in> set (range_excl a b)" unfolding range_excl_def by (simp only: set_map image_eqI)
qed

lemma set_range_incl [simp]: "set (range_incl a b) = {i. a \<le> i \<and> i \<le> b}"
proof (intro equalityI subsetI)
  fix i assume "i \<in> set (range_incl a b)"
  then obtain n where n: "unat a \<le> n" "n < Suc (unat b)" "i = of_nat n"
    unfolding range_incl_def by (auto simp del: upt_Suc)
  from n have "n < 18446744073709551616" using unat_lt_2p64 [of b] by linarith
  with n have "unat i = n" by (simp add: unat_of_nat_u64)
  with n show "i \<in> {i. a \<le> i \<and> i \<le> b}" by (simp add: word_le_nat_alt)
next
  fix i assume "i \<in> {i. a \<le> i \<and> i \<le> b}"
  then have "unat i \<in> set [unat a ..< Suc (unat b)]" "i = of_nat (unat i)"
    by (auto simp: word_le_nat_alt simp del: upt_Suc)
  then show "i \<in> set (range_incl a b)" unfolding range_incl_def by (simp only: set_map image_eqI)
qed

lemma map_of_nat_sorted:
  "b \<le> 18446744073709551616 \<Longrightarrow> sorted_wrt (<) (map (of_nat :: nat \<Rightarrow> u64) [a ..< b])"
  unfolding sorted_wrt_map
  by (rule sorted_wrt_mono_rel [of _ "(<)"]) (auto simp: word_less_nat_alt unat_of_nat_u64)

lemma sorted_range_excl: "sorted_wrt (<) (range_excl a b)"
  unfolding range_excl_def by (rule map_of_nat_sorted) (rule less_imp_le, rule unat_lt_2p64)

lemma sorted_range_incl: "sorted_wrt (<) (range_incl a b)"
  unfolding range_incl_def by (rule map_of_nat_sorted) (rule Suc_leI, rule unat_lt_2p64)

section \<open>Vectors, iterators and folds\<close>

text \<open>\<open>Vec::get\<close>: \<open>None\<close> out of range.\<close>

definition vec_get :: "'a list \<Rightarrow> nat \<Rightarrow> 'a option" where
  "vec_get xs i = (if i < length xs then Some (xs ! i) else None)"

text \<open>\<open>Iterator::find_map\<close>.\<close>

fun find_map :: "('a \<Rightarrow> 'b option) \<Rightarrow> 'a list \<Rightarrow> 'b option" where
  "find_map f [] = None"
| "find_map f (x # xs) = (case f x of Some y \<Rightarrow> Some y | None \<Rightarrow> find_map f xs)"

text \<open>A \<open>for\<close> loop whose body may panic.\<close>

fun fold_opt :: "('a \<Rightarrow> 's \<Rightarrow> 's option) \<Rightarrow> 'a list \<Rightarrow> 's \<Rightarrow> 's option" where
  "fold_opt f [] s = Some s"
| "fold_opt f (x # xs) s = Option.bind (f x s) (fold_opt f xs)"

text \<open>\<open>Option::or\<close> and \<open>unwrap_or\<close>.\<close>

definition option_or :: "'a option \<Rightarrow> 'a option \<Rightarrow> 'a option" where
  "option_or a b = (case a of Some x \<Rightarrow> Some x | None \<Rightarrow> b)"

definition unwrap_or :: "'a option \<Rightarrow> 'a \<Rightarrow> 'a" where
  "unwrap_or a d = (case a of Some x \<Rightarrow> x | None \<Rightarrow> d)"

lemma unwrap_or_simps [simp]: "unwrap_or (Some x) d = x" "unwrap_or None d = d"
  by (simp_all add: unwrap_or_def)

lemma option_or_simps [simp]: "option_or (Some x) b = Some x" "option_or None b = b"
  by (simp_all add: option_or_def)

lemma vec_get_Some_iff: "vec_get xs i = Some x \<longleftrightarrow> i < length xs \<and> xs ! i = x"
  by (auto simp: vec_get_def)

lemma vec_get_append:
  "vec_get (xs @ ys) i = (if i < length xs then vec_get xs i else vec_get ys (i - length xs))"
  by (auto simp: vec_get_def nth_append)

lemma map_eq_SomeI:
  assumes "\<And>i x. f i = Some x \<longleftrightarrow> g i = Some x"
  shows "f = g"
  using assms by (metis ext not_Some_eq)

lemma find_map_None_iff: "find_map f xs = None \<longleftrightarrow> (\<forall>x \<in> set xs. f x = None)"
  by (induction xs) (auto split: option.splits)

lemma find_map_SomeD: "find_map f xs = Some y \<Longrightarrow> \<exists>x \<in> set xs. f x = Some y"
  by (induction xs) (auto split: option.splits)

lemma find_map_append: "find_map f (xs @ ys) = option_or (find_map f xs) (find_map f ys)"
  by (induction xs) (auto split: option.splits)

text \<open>A search from the end of an ascending list finds the greatest hit.\<close>

lemma find_rev_greatest:
  fixes xs :: "('a :: linorder) list"
  assumes "sorted_wrt (<) xs" "find P (rev xs) = Some k"
  shows "k \<in> set xs \<and> P k \<and> (\<forall>j \<in> set xs. k < j \<longrightarrow> \<not> P j)"
  using assms
proof (induction xs rule: rev_induct)
  case (snoc x xs)
  then show ?case by (cases "P x") (auto simp: sorted_wrt_append)
qed simp

text \<open>An invariant of the body is an invariant of the loop.\<close>

lemma fold_opt_invariant:
  assumes "fold_opt f xs s = Some t" and "P s"
    and "\<And>x s t. x \<in> set xs \<Longrightarrow> P s \<Longrightarrow> f x s = Some t \<Longrightarrow> P t"
  shows "P t"
  using assms
proof (induction xs arbitrary: s)
  case Nil
  then show ?case by simp
next
  case (Cons x xs)
  from Cons.prems(1) obtain u where u: "f x s = Some u" "fold_opt f xs u = Some t"
    by (auto simp: Option.bind_eq_Some_conv)
  have "P u" by (rule Cons.prems(3) [of x s]) (simp_all add: Cons.prems(2) u(1))
  show ?case
    by (rule Cons.IH [OF u(2) \<open>P u\<close>]) (rule Cons.prems(3), auto)
qed

text \<open>A loop whose body never panics under an invariant does not panic.\<close>

lemma fold_opt_total:
  assumes "P s" and "\<And>x s. x \<in> set xs \<Longrightarrow> P s \<Longrightarrow> \<exists>t. f x s = Some t \<and> P t"
  shows "\<exists>t. fold_opt f xs s = Some t \<and> P t"
  using assms
proof (induction xs arbitrary: s)
  case Nil
  then show ?case by simp
next
  case (Cons x xs)
  from Cons.prems obtain u where u: "f x s = Some u" "P u" by force
  with Cons.IH [OF u(2)] Cons.prems(2) show ?case by simp
qed

section \<open>Majorities of finite sets\<close>

lemma majorities_overlap:
  assumes "finite E" "A \<subseteq> E" "B \<subseteq> E" "card E div 2 < card A" "card E div 2 < card B"
  shows "\<exists>x \<in> E. x \<in> A \<and> x \<in> B"
proof (rule ccontr)
  assume "\<not> ?thesis"
  with assms(2) have disj: "A \<inter> B = {}" by blast
  have "card A + card B = card (A \<union> B)"
    using assms(1-3) disj by (simp add: card_Un_disjoint finite_subset)
  also have "\<dots> \<le> card E" using assms(1-3) by (simp add: card_mono)
  finally show False using assms(4,5) by linarith
qed

section \<open>Ordered maps\<close>

text \<open>A \<open>BTreeMap\<close> that is iterated is the list of its pairs in ascending order of the keys.\<close>

fun btree_insert :: "'k :: linorder \<Rightarrow> 'v \<Rightarrow> ('k \<times> 'v) list \<Rightarrow> ('k \<times> 'v) list" where
  "btree_insert k v [] = [(k, v)]"
| "btree_insert k v ((k', v') # rest) =
     (if k < k' then (k, v) # (k', v') # rest
      else if k = k' then (k, v) # rest
      else (k', v') # btree_insert k v rest)"

definition btree_ok :: "('k :: linorder \<times> 'v) list \<Rightarrow> bool" where
  "btree_ok m \<longleftrightarrow> sorted_wrt (<) (map fst m)"

lemma set_btree_insert: "set (btree_insert k v m) \<subseteq> insert (k, v) (set m)"
  by (induction k v m rule: btree_insert.induct) auto

lemma btree_ok_insert: "btree_ok m \<Longrightarrow> btree_ok (btree_insert k v m)"
proof (induction k v m rule: btree_insert.induct)
  case (2 k v k' v' rest)
  then show ?case
    using set_btree_insert [of k v rest] by (fastforce simp: btree_ok_def)
qed (simp add: btree_ok_def)

lemma map_of_btree_insert: "btree_ok m \<Longrightarrow> map_of (btree_insert k v m) = (map_of m)(k \<mapsto> v)"
proof (induction k v m rule: btree_insert.induct)
  case (2 k v k' v' rest)
  have "map_of rest k = None" if "k < k'"
    using that "2.prems" by (fastforce simp: btree_ok_def map_of_eq_None_iff)
  then show ?case using 2 by (auto simp: btree_ok_def fun_eq_iff)
qed simp

lemma btree_ok_distinct: "btree_ok m \<Longrightarrow> distinct (map fst m)"
  by (simp add: btree_ok_def strict_sorted_iff)

lemma btree_insert_new:
  assumes "map_of m k = None"
  obtains xs ys where "m = xs @ ys" "btree_insert k v m = xs @ (k, v) # ys"
proof -
  have "\<exists>xs ys. m = xs @ ys \<and> btree_insert k v m = xs @ (k, v) # ys"
    using assms
  proof (induction k v m rule: btree_insert.induct)
    case (2 k v k' v' rest)
    show ?case
    proof (cases "k < k'")
      case False
      with 2 obtain xs ys where "rest = xs @ ys" "btree_insert k v rest = xs @ (k, v) # ys"
        by (auto split: if_splits)
      then have "(k', v') # rest = ((k', v') # xs) @ ys"
          "btree_insert k v ((k', v') # rest) = ((k', v') # xs) @ (k, v) # ys"
        using False "2.prems" by (auto split: if_splits)
      then show ?thesis by blast
    qed (auto intro: exI [of _ "[]"])
  qed simp
  then show thesis using that by blast
qed

section \<open>Results and decimal numerals\<close>

text \<open>
  A \<open>Result<T, E>\<close> of the source is the sum type \<open>'e + 'a\<close>, with \<open>Inl\<close> for \<open>Err\<close>
  and \<open>Inr\<close> for \<open>Ok\<close>. \<open>res_bind\<close> is the question mark operator, \<open>ok_or\<close> and
  \<open>map_err\<close> are the methods of that name. \<open>decimal\<close> is how \<open>format!\<close> prints an unsigned
  integer.
\<close>

definition res_bind :: "'e + 'a \<Rightarrow> ('a \<Rightarrow> 'e + 'b) \<Rightarrow> 'e + 'b" where
  "res_bind r f = (case r of Inl e \<Rightarrow> Inl e | Inr x \<Rightarrow> f x)"

definition ok_or :: "'e \<Rightarrow> 'a option \<Rightarrow> 'e + 'a" where
  "ok_or e x = (case x of None \<Rightarrow> Inl e | Some y \<Rightarrow> Inr y)"

definition map_err :: "('e \<Rightarrow> 'f) \<Rightarrow> 'e + 'a \<Rightarrow> 'f + 'a" where
  "map_err g r = (case r of Inl e \<Rightarrow> Inl (g e) | Inr x \<Rightarrow> Inr x)"

lemma res_bind_simps [simp]: "res_bind (Inl e) f = Inl e" "res_bind (Inr x) f = f x"
  by (simp_all add: res_bind_def)

lemma ok_or_simps [simp]: "ok_or e None = Inl e" "ok_or e (Some y) = Inr y"
  by (simp_all add: ok_or_def)

lemma map_err_simps [simp]: "map_err g (Inl e) = Inl (g e)" "map_err g (Inr x) = Inr x"
  by (simp_all add: map_err_def)

lemma res_bind_cong [fundef_cong]:
  assumes "r = r'" "\<And>x. r' = Inr x \<Longrightarrow> f x = f' x"
  shows "res_bind r f = res_bind r' f'"
  using assms by (cases r') auto

lemma res_bind_assoc: "res_bind (res_bind r f) g = res_bind r (\<lambda>x. res_bind (f x) g)"
  by (cases r) auto

lemma res_bind_Inr_iff [ressimps]: "res_bind r f = Inr y \<longleftrightarrow> (\<exists>x. r = Inr x \<and> f x = Inr y)"
  by (cases r) auto

lemma res_bind_Inl_iff [ressimps]:
  "res_bind r f = Inl e \<longleftrightarrow> r = Inl e \<or> (\<exists>x. r = Inr x \<and> f x = Inl e)"
  by (cases r) auto

lemma ok_or_iff [ressimps]:
  "ok_or e x = Inr y \<longleftrightarrow> x = Some y" "ok_or e x = Inl e' \<longleftrightarrow> x = None \<and> e' = e"
  by (cases x; auto)+

lemma map_err_iff [ressimps]:
  "map_err g r = Inr x \<longleftrightarrow> r = Inr x" "map_err g r = Inl f \<longleftrightarrow> (\<exists>e. r = Inl e \<and> f = g e)"
  by (cases r; auto)+

fun fold_res :: "('r \<Rightarrow> 's \<Rightarrow> 'e + 's) \<Rightarrow> 'r list \<Rightarrow> 's \<Rightarrow> 'e + 's" where
  "fold_res f [] s = Inr s"
| "fold_res f (r # rs) s = res_bind (f r s) (fold_res f rs)"

lemma fold_res_append: "fold_res f (xs @ ys) s = res_bind (fold_res f xs s) (fold_res f ys)"
  by (induction xs arbitrary: s) (auto simp: res_bind_assoc intro: res_bind_cong)

definition digit :: "nat \<Rightarrow> char" where
  "digit d = char_of (48 + d)"

fun decimal :: "nat \<Rightarrow> string" where
  "decimal n = (if n < 10 then [digit n] else decimal (n div 10) @ [digit (n mod 10)])"

declare decimal.simps [simp del]

definition digit_value :: "char \<Rightarrow> nat" where
  "digit_value c = of_char c - 48"

definition undecimal :: "string \<Rightarrow> nat" where
  "undecimal s = foldl (\<lambda>acc c. acc * 10 + digit_value c) 0 s"

lemma digit_value_digit [simp]: "d < 10 \<Longrightarrow> digit_value (digit d) = d"
  by (simp add: digit_value_def digit_def)

lemma undecimal_decimal [simp]: "undecimal (decimal n) = n"
proof (induction n rule: decimal.induct)
  case (1 n)
  show ?case
  proof (cases "n < 10")
    case True
    then show ?thesis by (simp add: decimal.simps [of n] undecimal_def)
  next
    case False
    have "undecimal (decimal n) = undecimal (decimal (n div 10)) * 10 + n mod 10"
      using False by (subst decimal.simps) (simp add: undecimal_def)
    then show ?thesis using 1 False by simp
  qed
qed

lemma decimal_inject [simp]: "decimal m = decimal n \<longleftrightarrow> m = n"
  by (metis undecimal_decimal)

lemma decimal_not_empty [simp]: "decimal n \<noteq> []"
  by (subst decimal.simps) simp

end
