(* ===== verification/Raft_Types.thy ===== *)
theory Raft_Types
  imports C9_Prelude
begin

text \<open>
  The types that \<open>consensus/cloud9-raft/src/lib.rs\<close> shares across the consensus crate:
  node identities, log indices, terms, commands, the replica configuration and the error
  enumerations of the public operations.

  A \<open>BTreeSet<NodeId>\<close> is a \<open>NodeId set\<close>: the type has finitely many elements, so every
  such set is finite, and iteration is in the ascending order of the derived \<open>Ord\<close>, which
  is \<open>btree_iter\<close> below. A \<open>BTreeMap<NodeId, V>\<close> is a map \<open>NodeId \<rightharpoonup> V\<close>.
\<close>

datatype NodeId = NodeId (node_raw: u64)

instantiation NodeId :: linorder
begin

definition less_eq_NodeId :: "NodeId \<Rightarrow> NodeId \<Rightarrow> bool" where
  "a \<le> b \<longleftrightarrow> node_raw a \<le> node_raw b"

definition less_NodeId :: "NodeId \<Rightarrow> NodeId \<Rightarrow> bool" where
  "a < b \<longleftrightarrow> node_raw a < node_raw b"

instance
  by standard (auto simp: less_eq_NodeId_def less_NodeId_def NodeId.expand)

end

instance NodeId :: finite
proof
  have "(UNIV :: NodeId set) = range NodeId"
    by (metis NodeId.exhaust surj_def)
  then show "finite (UNIV :: NodeId set)" by (metis finite finite_imageI)
qed

type_synonym LogIndex = u64
type_synonym Term = u64

datatype Command = Command (command_bytes: "u8 list")

record CommittedEntry =
  ce_index :: LogIndex
  ce_term :: Term
  ce_command :: Command

text \<open>Iteration over a \<open>BTreeSet\<close>: its elements in ascending order.\<close>

definition btree_iter :: "NodeId set \<Rightarrow> NodeId list" where
  "btree_iter S = sorted_list_of_set S"

lemma set_btree_iter [simp]: "set (btree_iter S) = S"
  by (simp add: btree_iter_def)

lemma distinct_btree_iter [simp]: "distinct (btree_iter S)"
  by (simp add: btree_iter_def)

lemma sorted_btree_iter: "sorted_wrt (<) (btree_iter S)"
  by (simp add: btree_iter_def)

lemma length_btree_iter [simp]: "length (btree_iter S) = card S"
  by (simp add: btree_iter_def)

lemma length_filter_btree_iter: "length (filter P (btree_iter S)) = card {x \<in> S. P x}"
  by (metis distinct_btree_iter distinct_card distinct_filter set_btree_iter set_filter)

section \<open>Replica groups\<close>

record ReplicaConfig =
  rc_voters :: "NodeId list"
  rc_learners :: "NodeId list"

definition replica_config_new :: "NodeId list \<Rightarrow> ReplicaConfig" where
  "replica_config_new voters = \<lparr>rc_voters = voters, rc_learners = []\<rparr>"

definition rc_quorum_size :: "ReplicaConfig \<Rightarrow> nat" where
  "rc_quorum_size c = length (rc_voters c) div 2 + 1"

definition rc_is_voter :: "ReplicaConfig \<Rightarrow> NodeId \<Rightarrow> bool" where
  "rc_is_voter c i \<longleftrightarrow> i \<in> set (rc_voters c)"

definition rc_is_learner :: "ReplicaConfig \<Rightarrow> NodeId \<Rightarrow> bool" where
  "rc_is_learner c i \<longleftrightarrow> i \<in> set (rc_learners c)"

definition rc_all_nodes :: "ReplicaConfig \<Rightarrow> NodeId list" where
  "rc_all_nodes c = rc_voters c @ rc_learners c"

section \<open>Errors of the public operations\<close>

datatype ProposeError =
    ProposeNotLeader "NodeId option"
  | Throttled

datatype ReadIndexError =
    ReadNotLeader "NodeId option"
  | CurrentTermNotCommitted
  | ReadInProgress LogIndex

datatype TransferError =
    TransferNotLeader
  | TargetNotVoter
  | TargetLagging LogIndex LogIndex
  | TargetIsSelf

end
