(* ===== verification/Membership.thy ===== *)
theory Membership
  imports Raft_Types
begin

text \<open>
  Cluster configurations and configuration changes
  (\<open>consensus/cloud9-raft/src/raft/membership.rs\<close>): the simple and the joint
  configuration, the iterators over their members, the quorum test, and the validation and
  application of a proposed change.

  The lemmas show that two quorums of one configuration meet, that the quorum test of a
  joint configuration is the conjunction of the two majority tests, and that a change that
  passes validation keeps the configuration well formed (voters present, voters and
  learners apart) and keeps old and new quorums overlapping.
\<close>

section \<open>Data\<close>

datatype MembershipMode = SingleServer | JointConsensus

datatype Configuration =
    Simple "NodeId set" "NodeId set"
  | Joint "NodeId set" "NodeId set" "NodeId set"

record Members =
  members_voters :: "NodeId list"
  members_learners :: "NodeId list"

datatype ConfigChange =
    AddVoter NodeId
  | RemoveVoter NodeId
  | AddLearner NodeId
  | RemoveLearner NodeId
  | SetMembers Members

datatype ConfigChangeError =
    ChangeInProgress
  | AlreadyVoter NodeId
  | AlreadyLearner NodeId
  | Overlap NodeId
  | PromoteRequiresLearner NodeId
  | LearnerNotCaughtUp NodeId u64 u64
  | NotVoter NodeId
  | NotLearner NodeId
  | WouldBeEmpty
  | NoChange
  | NotSingleChange nat nat
  | ConfigNotLeader

section \<open>Configurations\<close>

definition config_simple :: "NodeId list \<Rightarrow> Configuration" where
  "config_simple voters = Simple (set voters) {}"

definition simple_with_learners :: "NodeId list \<Rightarrow> NodeId list \<Rightarrow> Configuration" where
  "simple_with_learners voters learners = Simple (set voters) (set learners)"

definition config_joint :: "NodeId list \<Rightarrow> NodeId list \<Rightarrow> Configuration" where
  "config_joint old new = Joint (set old) (set new) {}"

definition joint_with_learners ::
  "NodeId list \<Rightarrow> NodeId list \<Rightarrow> NodeId list \<Rightarrow> Configuration" where
  "joint_with_learners old new learners = Joint (set old) (set new) (set learners)"

definition config_default :: Configuration where
  "config_default = Simple {} {}"

fun voters :: "Configuration \<Rightarrow> NodeId list" where
  "voters (Simple vs ls) = btree_iter vs"
| "voters (Joint old new ls) =
     btree_iter old @ filter (\<lambda>i. i \<notin> old) (btree_iter new)"

fun is_voter :: "Configuration \<Rightarrow> NodeId \<Rightarrow> bool" where
  "is_voter (Simple vs ls) i = (i \<in> vs)"
| "is_voter (Joint old new ls) i = (i \<in> old \<or> i \<in> new)"

fun is_learner :: "Configuration \<Rightarrow> NodeId \<Rightarrow> bool" where
  "is_learner (Simple vs ls) i = (i \<in> ls)"
| "is_learner (Joint old new ls) i = (i \<in> ls)"

fun learners :: "Configuration \<Rightarrow> NodeId list" where
  "learners (Simple vs ls) = btree_iter ls"
| "learners (Joint old new ls) = btree_iter ls"

fun voter_count :: "Configuration \<Rightarrow> nat" where
  "voter_count (Simple vs ls) = card vs"
| "voter_count (Joint old new ls) =
     card old + length (filter (\<lambda>i. i \<notin> old) (btree_iter new))"

definition voter_peers :: "Configuration \<Rightarrow> NodeId \<Rightarrow> NodeId list" where
  "voter_peers c me = filter (\<lambda>i. i \<noteq> me) (voters c)"

definition all_nodes :: "Configuration \<Rightarrow> NodeId list" where
  "all_nodes c = voters c @ learners c"

definition replication_peers :: "Configuration \<Rightarrow> NodeId \<Rightarrow> NodeId list" where
  "replication_peers c me = filter (\<lambda>i. i \<noteq> me) (all_nodes c)"

definition is_member :: "Configuration \<Rightarrow> NodeId \<Rightarrow> bool" where
  "is_member c i \<longleftrightarrow> is_voter c i \<or> is_learner c i"

fun is_joint :: "Configuration \<Rightarrow> bool" where
  "is_joint (Simple vs ls) = False"
| "is_joint (Joint old new ls) = True"

fun quorum_sizes :: "Configuration \<Rightarrow> nat \<times> nat option" where
  "quorum_sizes (Simple vs ls) = (card vs div 2 + 1, None)"
| "quorum_sizes (Joint old new ls) = (card old div 2 + 1, Some (card new div 2 + 1))"

fun has_quorum :: "Configuration \<Rightarrow> (NodeId \<Rightarrow> bool) \<Rightarrow> bool" where
  "has_quorum (Simple vs ls) has_vote =
     (length (filter has_vote (btree_iter vs)) > card vs div 2)"
| "has_quorum (Joint old new ls) has_vote =
     (length (filter has_vote (btree_iter old)) > card old div 2 \<and>
      length (filter has_vote (btree_iter new)) > card new div 2)"

text \<open>The two loops of \<open>voter_membership\<close>; \<open>seen\<close> is its \<open>HashSet\<close>.\<close>

fun voter_membership_new ::
  "NodeId list \<Rightarrow> NodeId set \<Rightarrow> (NodeId \<times> bool \<times> bool) list" where
  "voter_membership_new [] seen = []"
| "voter_membership_new (i # is) seen =
     (if i \<notin> seen then (i, False, True) # voter_membership_new is (insert i seen)
      else voter_membership_new is seen)"

fun voter_membership :: "Configuration \<Rightarrow> (NodeId \<times> bool \<times> bool) list" where
  "voter_membership (Simple vs ls) = map (\<lambda>i. (i, True, True)) (btree_iter vs)"
| "voter_membership (Joint old new ls) =
     map (\<lambda>i. (i, True, i \<in> new)) (btree_iter old) @
     voter_membership_new (btree_iter new) (set (btree_iter old))"

fun transition_target :: "Configuration \<Rightarrow> Configuration option" where
  "transition_target (Simple vs ls) = None"
| "transition_target (Joint old new ls) = Some (Simple new ls)"

section \<open>Canonical member lists\<close>

text \<open>The loop over the learners in \<open>Members::new\<close>, with its early return.\<close>

fun members_learner_set ::
  "NodeId set \<Rightarrow> NodeId list \<Rightarrow> NodeId set \<Rightarrow> ConfigChangeError + NodeId set" where
  "members_learner_set voter_set [] acc = Inr acc"
| "members_learner_set voter_set (i # is) acc =
     (if i \<in> voter_set then Inl (Overlap i)
      else members_learner_set voter_set is (insert i acc))"

definition members_new ::
  "NodeId list \<Rightarrow> NodeId list \<Rightarrow> ConfigChangeError + Members" where
  "members_new vs ls =
     (let voter_set = fold insert vs {} in
      case members_learner_set voter_set ls {} of
        Inl e \<Rightarrow> Inl e
      | Inr learner_set \<Rightarrow>
          Inr \<lparr>members_voters = btree_iter voter_set,
               members_learners = btree_iter learner_set\<rparr>)"

section \<open>Configuration changes\<close>

fun validate_simple ::
  "ConfigChange \<Rightarrow> NodeId set \<Rightarrow> NodeId set \<Rightarrow> MembershipMode \<Rightarrow> ConfigChangeError + unit" where
  "validate_simple (AddVoter i) vs ls mode =
     (if i \<in> vs then Inl (AlreadyVoter i)
      else if i \<notin> ls then Inl (PromoteRequiresLearner i)
      else Inr ())"
| "validate_simple (RemoveVoter i) vs ls mode =
     (if i \<notin> vs then Inl (NotVoter i)
      else if card vs = 1 then Inl WouldBeEmpty
      else Inr ())"
| "validate_simple (AddLearner i) vs ls mode =
     (if i \<in> vs then Inl (AlreadyVoter i)
      else if i \<in> ls then Inl (AlreadyLearner i)
      else Inr ())"
| "validate_simple (RemoveLearner i) vs ls mode =
     (if i \<notin> ls then Inl (NotLearner i) else Inr ())"
| "validate_simple (SetMembers m) vs ls mode =
     (let new_voters = set (members_voters m);
          new_learners = set (members_learners m);
          added = filter (\<lambda>i. i \<notin> vs) (btree_iter new_voters);
          removed = filter (\<lambda>i. i \<notin> new_voters) (btree_iter vs)
      in if new_voters = vs \<and> new_learners = ls then Inl NoChange
         else if mode = SingleServer \<and> length added + length removed > 1
           then Inl (NotSingleChange (length added) (length removed))
         else if new_voters = {} then Inl WouldBeEmpty
         else (case find (\<lambda>i. i \<in> new_learners) (btree_iter new_voters) of
                 Some i \<Rightarrow> Inl (AlreadyVoter i)
               | None \<Rightarrow> Inr ()))"

fun validate ::
  "ConfigChange \<Rightarrow> Configuration \<Rightarrow> MembershipMode \<Rightarrow> ConfigChangeError + unit" where
  "validate change (Joint old new ls) mode = Inl ChangeInProgress"
| "validate change (Simple vs ls) mode = validate_simple change vs ls mode"

text \<open>The voters and learners that \<open>ConfigChange::apply\<close> starts from.\<close>

fun apply_base :: "Configuration \<Rightarrow> NodeId set \<times> NodeId set" where
  "apply_base (Simple vs ls) = (vs, ls)"
| "apply_base (Joint old new ls) = (new, ls)"

definition apply_change ::
  "ConfigChange \<Rightarrow> Configuration \<Rightarrow> MembershipMode \<Rightarrow> Configuration" where
  "apply_change change current mode =
     (case apply_base current of (vs, ls) \<Rightarrow>
       (case change of
          AddVoter i \<Rightarrow> Simple (insert i vs) (ls - {i})
        | RemoveVoter i \<Rightarrow> Simple (vs - {i}) ls
        | AddLearner i \<Rightarrow> Simple vs (insert i ls)
        | RemoveLearner i \<Rightarrow> Simple vs (ls - {i})
        | SetMembers m \<Rightarrow>
            (let new_voters = set (members_voters m);
                 new_learners = set (members_learners m)
             in if mode = JointConsensus \<and> vs \<noteq> new_voters
                then Joint vs new_voters new_learners
                else Simple new_voters new_learners)))"

section \<open>Members and counts\<close>

lemma set_voters [simp]: "set (voters c) = {i. is_voter c i}"
  by (cases c) auto

lemma set_learners [simp]: "set (learners c) = {i. is_learner c i}"
  by (cases c) auto

lemma distinct_voters: "distinct (voters c)"
  by (cases c) auto

lemma set_voter_peers [simp]: "set (voter_peers c me) = {i. is_voter c i \<and> i \<noteq> me}"
  by (auto simp: voter_peers_def)

lemma set_replication_peers [simp]:
  "set (replication_peers c me) = {i. is_member c i \<and> i \<noteq> me}"
  by (auto simp: replication_peers_def all_nodes_def is_member_def)

lemma voter_count_length: "voter_count c = length (voters c)"
  by (cases c) auto

lemma set_voter_membership_new:
  "set (voter_membership_new is seen) = {(i, False, True) | i. i \<in> set is \<and> i \<notin> seen}"
  by (induction "is" seen rule: voter_membership_new.induct) auto

lemma map_fst_voter_membership_new:
  "distinct is \<Longrightarrow> map fst (voter_membership_new is seen) = filter (\<lambda>i. i \<notin> seen) is"
proof (induction "is" seen rule: voter_membership_new.induct)
  case (2 i "is" seen)
  then show ?case by (auto intro: filter_cong)
qed simp

text \<open>\<open>voter_membership\<close> lists every voter once, in the order of \<open>voters\<close>.\<close>

lemma map_fst_voter_membership: "map fst (voter_membership c) = voters c"
  by (cases c) (simp_all add: map_fst_voter_membership_new comp_def)

section \<open>Quorums\<close>

lemma has_quorum_Simple:
  "has_quorum (Simple vs ls) p \<longleftrightarrow> card vs div 2 < card {v \<in> vs. p v}"
  by (simp add: length_filter_btree_iter)

lemma has_quorum_Joint:
  "has_quorum (Joint old new ls) p \<longleftrightarrow>
     has_quorum (Simple old ls) p \<and> has_quorum (Simple new ls) p"
  by simp

declare has_quorum.simps [simp del]

lemmas quorum_cases = has_quorum_Joint has_quorum_Simple

text \<open>
  What the rest of the protocol needs of a quorum test: it is monotone in the set of
  supporters, and two sets of supporters that pass it have a member in common.
\<close>

locale quorum_system =
  fixes quorum :: "(NodeId \<Rightarrow> bool) \<Rightarrow> bool"
  assumes quorum_mono: "quorum p \<Longrightarrow> (\<And>v. p v \<Longrightarrow> q v) \<Longrightarrow> quorum q"
    and quorum_overlap: "quorum p \<Longrightarrow> quorum q \<Longrightarrow> \<exists>v. p v \<and> q v"
begin

lemma no_empty_quorum: "\<not> quorum (\<lambda>v. False)"
  using quorum_overlap by blast

lemma quorum_not_split: "quorum p \<Longrightarrow> \<not> quorum (\<lambda>v. \<not> p v)"
  using quorum_overlap by blast

text \<open>If every node supports at most one contender, at most one contender has a quorum.\<close>

lemma single_winner:
  assumes "\<And>v a b. supports v a \<Longrightarrow> supports v b \<Longrightarrow> a = b"
    and "quorum (\<lambda>v. supports v x)" and "quorum (\<lambda>v. supports v y)"
  shows "x = y"
  using quorum_overlap [OF assms(2,3)] assms(1) by blast

end

lemma has_quorum_mono: "has_quorum c p \<Longrightarrow> (\<And>v. p v \<Longrightarrow> q v) \<Longrightarrow> has_quorum c q"
proof -
  have simple: "has_quorum (Simple vs ls) q"
    if "has_quorum (Simple vs ls) p" "\<And>v. p v \<Longrightarrow> q v" for vs ls
  proof -
    have "card {v \<in> vs. p v} \<le> card {v \<in> vs. q v}"
      using that(2) by (intro card_mono) auto
    with that(1) show ?thesis by (simp add: has_quorum_Simple)
  qed
  show "has_quorum c p \<Longrightarrow> (\<And>v. p v \<Longrightarrow> q v) \<Longrightarrow> has_quorum c q"
    by (cases c) (auto simp: has_quorum_Joint intro: simple)
qed

lemma has_quorum_Simple_overlap:
  assumes "has_quorum (Simple vs ls) p" "has_quorum (Simple vs ls') q"
  shows "\<exists>v \<in> vs. p v \<and> q v"
  using majorities_overlap [of vs "{v \<in> vs. p v}" "{v \<in> vs. q v}"] assms
  by (auto simp: has_quorum_Simple)

lemma has_quorum_overlap:
  "has_quorum c p \<Longrightarrow> has_quorum c q \<Longrightarrow> \<exists>v. is_voter c v \<and> p v \<and> q v"
  by (cases c) (auto simp: has_quorum_Joint dest: has_quorum_Simple_overlap)

interpretation config_quorum: quorum_system "has_quorum c" for c
proof unfold_locales
  show "has_quorum c q" if "has_quorum c p" "\<And>v. p v \<Longrightarrow> q v" for p q
    using that by (rule has_quorum_mono)
  show "\<exists>v. p v \<and> q v" if "has_quorum c p" "has_quorum c q" for p q
    using has_quorum_overlap [OF that] by blast
qed

lemma has_quorum_sizes_Simple:
  "has_quorum (Simple vs ls) p \<longleftrightarrow>
     fst (quorum_sizes (Simple vs ls)) \<le> card {v \<in> vs. p v}"
  by (simp add: has_quorum_Simple Suc_le_eq)

section \<open>Well-formed configurations\<close>

text \<open>Voters exist in every voter set, and no learner is a voter of the configuration that is aimed at;
  a voter that a joint configuration is about to remove may become a learner.\<close>

fun wf_config :: "Configuration \<Rightarrow> bool" where
  "wf_config (Simple vs ls) \<longleftrightarrow> vs \<noteq> {} \<and> vs \<inter> ls = {}"
| "wf_config (Joint old new ls) \<longleftrightarrow> old \<noteq> {} \<and> new \<noteq> {} \<and> new \<inter> ls = {}"

lemma find_None_btree_iter: "find P (btree_iter S) = None \<longleftrightarrow> (\<forall>i \<in> S. \<not> P i)"
  by (auto simp: find_None_iff)

lemma validate_Inr_simple:
  "validate change c mode = Inr u \<Longrightarrow> \<exists>vs ls. c = Simple vs ls \<and> validate_simple change vs ls mode = Inr ()"
  by (cases c) auto

lemma singleton_if_remove_empty: "i \<in> vs \<Longrightarrow> vs - {i} = {} \<Longrightarrow> card vs = 1"
proof -
  assume "i \<in> vs" "vs - {i} = {}"
  then have "vs = {i}" by blast
  then show "card vs = 1" by simp
qed

lemma apply_change_wf:
  assumes "validate change c mode = Inr ()" "wf_config c"
  shows "wf_config (apply_change change c mode)"
proof -
  obtain vs ls where c: "c = Simple vs ls" and v: "validate_simple change vs ls mode = Inr ()"
    using validate_Inr_simple [OF assms(1)] by blast
  from assms(2) c have wf: "vs \<noteq> {}" "vs \<inter> ls = {}" by auto
  show ?thesis
  proof (cases change)
    case (AddVoter i)
    then have "apply_change change c mode = Simple (insert i vs) (ls - {i})"
      by (simp add: apply_change_def c)
    with wf show ?thesis by auto
  next
    case (RemoveVoter i)
    with v have "i \<in> vs" "card vs \<noteq> 1" by (simp_all split: if_splits)
    then have "vs - {i} \<noteq> {}" using singleton_if_remove_empty by metis
    moreover from RemoveVoter have "apply_change change c mode = Simple (vs - {i}) ls"
      by (simp add: apply_change_def c)
    ultimately show ?thesis using wf(2) by auto
  next
    case (AddLearner i)
    with v have "i \<notin> vs" by (simp split: if_splits)
    moreover from AddLearner have "apply_change change c mode = Simple vs (insert i ls)"
      by (simp add: apply_change_def c)
    ultimately show ?thesis using wf by simp
  next
    case (RemoveLearner i)
    then have "apply_change change c mode = Simple vs (ls - {i})"
      by (simp add: apply_change_def c)
    with wf show ?thesis by auto
  next
    case (SetMembers m)
    with v have "set (members_voters m) \<noteq> {}"
      and "\<forall>i \<in> set (members_voters m). i \<notin> set (members_learners m)"
      by (simp_all add: Let_def find_None_btree_iter split: if_splits option.splits)
    then show ?thesis using wf(1) by (auto simp: SetMembers c apply_change_def Let_def)
  qed
qed

section \<open>Overlap across a configuration change\<close>

text \<open>Majorities of two voter sets that differ by one node meet.\<close>

lemma card_le_by_one:
  assumes "card (B - A) + card (A - B) \<le> 1"
  shows "2 * card (A \<union> B) \<le> card A + card (B :: NodeId set) + 1"
proof -
  have "card (A \<union> B) = card A + card (B - A)"
    using card_Un_disjoint [of A "B - A"] by simp
  moreover have "card (A \<union> B) = card B + card (A - B)"
    using card_Un_disjoint [of B "A - B"] by (simp add: Un_commute)
  ultimately show ?thesis using assms by linarith
qed

lemma neighbour_majorities_overlap:
  assumes diff: "card (B - A) + card (A - B) \<le> (1 :: nat)"
    and p: "card A div 2 < card {v \<in> A. p v}" and q: "card B div 2 < card {v \<in> B. q v}"
  shows "\<exists>v. p v \<and> q (v :: NodeId)"
proof (rule ccontr)
  assume "\<nexists>v. p v \<and> q v"
  then have "{v \<in> A. p v} \<inter> {v \<in> B. q v} = {}" by blast
  then have "card {v \<in> A. p v} + card {v \<in> B. q v} = card ({v \<in> A. p v} \<union> {v \<in> B. q v})"
    by (simp add: card_Un_disjoint)
  also have "\<dots> \<le> card (A \<union> B)" by (intro card_mono) auto
  finally show False using card_le_by_one [OF diff] p q by linarith
qed

text \<open>The voter set that an accepted change leads to differs in at most one node, unless the
  change enters joint consensus.\<close>

lemma set_members_voters:
  assumes "validate_simple (SetMembers m) vs ls mode = Inr ()" "new = set (members_voters m)"
  shows "apply_change (SetMembers m) (Simple vs ls) mode =
      (if mode = JointConsensus \<and> vs \<noteq> new then Joint vs new (set (members_learners m))
       else Simple new (set (members_learners m)))"
    and "mode \<noteq> JointConsensus \<or> vs = new \<Longrightarrow> card (new - vs) + card (vs - new) \<le> 1"
proof -
  have len: "length (filter (\<lambda>i. i \<notin> T) (btree_iter S)) = card (S - T)" for S T
    by (simp add: length_filter_btree_iter set_diff_eq)
  show "apply_change (SetMembers m) (Simple vs ls) mode =
      (if mode = JointConsensus \<and> vs \<noteq> new then Joint vs new (set (members_learners m))
       else Simple new (set (members_learners m)))"
    using assms(2) by (simp add: apply_change_def Let_def)
  assume "mode \<noteq> JointConsensus \<or> vs = new"
  then consider "mode = SingleServer" | "vs = new" by (cases mode) auto
  then show "card (new - vs) + card (vs - new) \<le> 1"
  proof cases
    case 1
    show ?thesis
    proof (rule ccontr)
      assume "\<not> ?thesis"
      then have "1 < card (new - vs) + card (vs - new)" by simp
      with assms(1) 1 show False
        unfolding assms(2) validate_simple.simps Let_def len by (simp split: if_splits)
    qed
  next
    case 2
    then show ?thesis by (metis Diff_cancel add_0 card.empty zero_le)
  qed
qed

lemma accepted_change_voters:
  assumes "validate_simple change vs ls mode = Inr ()"
  shows "(\<exists>new ls'. apply_change change (Simple vs ls) mode = Joint vs new ls') \<or>
         (\<exists>vs' ls'. apply_change change (Simple vs ls) mode = Simple vs' ls' \<and>
            card (vs' - vs) + card (vs - vs') \<le> 1)"
proof (cases change)
  case (AddVoter i)
  have "card (insert i vs - vs) \<le> card {i}" by (intro card_mono) auto
  moreover have "vs - insert i vs = {}" by auto
  ultimately have "card (insert i vs - vs) + card (vs - insert i vs) \<le> 1"
    by (simp only: card.empty card_1_singleton_iff) simp
  with AddVoter show ?thesis by (simp add: apply_change_def)
next
  case (RemoveVoter i)
  have "card (vs - (vs - {i})) \<le> card {i}" by (intro card_mono) auto
  moreover have "(vs - {i}) - vs = {}" by auto
  ultimately have "card ((vs - {i}) - vs) + card (vs - (vs - {i})) \<le> 1"
    by (simp only: card.empty card_1_singleton_iff) simp
  with RemoveVoter show ?thesis by (simp add: apply_change_def)
next
  case (SetMembers m)
  note set_members_voters [OF assms [unfolded SetMembers] refl]
  then show ?thesis
    unfolding SetMembers by (cases "mode = JointConsensus \<and> vs \<noteq> set (members_voters m)") auto
next
  case (AddLearner i)
  then have "apply_change change (Simple vs ls) mode = Simple vs (insert i ls)"
    by (simp add: apply_change_def)
  then show ?thesis by (metis Diff_cancel add_0 card.empty zero_le)
next
  case (RemoveLearner i)
  then have "apply_change change (Simple vs ls) mode = Simple vs (ls - {i})"
    by (simp add: apply_change_def)
  then show ?thesis by (metis Diff_cancel add_0 card.empty zero_le)
qed

lemma change_quorums_overlap:
  assumes "validate change c mode = Inr ()"
    and p: "has_quorum c p" and q: "has_quorum (apply_change change c mode) q"
  shows "\<exists>v. p v \<and> q v"
proof -
  obtain vs ls where c: "c = Simple vs ls" and v: "validate_simple change vs ls mode = Inr ()"
    using validate_Inr_simple [OF assms(1)] by blast
  from accepted_change_voters [OF v] show ?thesis
  proof (elim disjE exE conjE)
    fix new ls' assume "apply_change change (Simple vs ls) mode = Joint vs new ls'"
    with p q c have "has_quorum (Simple vs ls) p" "has_quorum (Simple vs ls') q"
      by (simp_all add: has_quorum_Joint)
    then show ?thesis using has_quorum_Simple_overlap by blast
  next
    fix vs' ls' assume "apply_change change (Simple vs ls) mode = Simple vs' ls'"
      and "card (vs' - vs) + card (vs - vs') \<le> 1"
    with p q c show ?thesis
      using neighbour_majorities_overlap [of vs' vs p q] by (simp add: has_quorum_Simple)
  qed
qed

lemma transition_target_overlap:
  assumes "transition_target c = Some c'" "has_quorum c p" "has_quorum c' q"
  shows "\<exists>v. p v \<and> q v"
  using assms by (cases c) (auto simp: has_quorum_Joint dest: has_quorum_Simple_overlap)

section \<open>Canonical member lists\<close>

lemma fold_insert_set: "fold insert xs S = set xs \<union> S"
  by (induction xs arbitrary: S) auto

lemma members_learner_set_Inr:
  "members_learner_set vs ls acc = Inr S \<longleftrightarrow> set ls \<inter> vs = {} \<and> S = set ls \<union> acc"
  by (induction vs ls acc rule: members_learner_set.induct) auto

lemma members_learner_set_Inl:
  "members_learner_set vs ls acc = Inl e \<Longrightarrow> \<exists>i. e = Overlap i \<and> i \<in> set ls \<and> i \<in> vs"
  by (induction vs ls acc rule: members_learner_set.induct) (auto split: if_splits)

lemma members_learner_set_eq:
  "members_learner_set vs ls acc =
     (case find (\<lambda>i. i \<in> vs) ls of Some i \<Rightarrow> Inl (Overlap i) | None \<Rightarrow> Inr (set ls \<union> acc))"
  by (induction vs ls acc rule: members_learner_set.induct) (auto split: option.splits)

section \<open>Properties\<close>

text \<open>C29: any two quorums of one configuration, simple or joint, share a voter of it, and a
  quorum stays a quorum when supporters are added.\<close>

theorem quorums_intersect:
  assumes "has_quorum c p" "has_quorum c q"
  shows "(\<exists>v. is_voter c v \<and> p v \<and> q v) \<and> has_quorum c (\<lambda>v. p v \<or> r v)"
proof
  show "\<exists>v. is_voter c v \<and> p v \<and> q v" by (rule has_quorum_overlap [OF assms])
  show "has_quorum c (\<lambda>v. p v \<or> r v)" by (rule has_quorum_mono [OF assms(1)]) simp
qed

theorem quorums_intersect_witness:
  "(\<exists>v. is_voter (Joint {NodeId 1, NodeId 2, NodeId 3} {NodeId 3, NodeId 4} {}) v \<and>
        v \<noteq> NodeId 2 \<and> v \<noteq> NodeId 1) \<and>
   has_quorum (Joint {NodeId 1, NodeId 2, NodeId 3} {NodeId 3, NodeId 4} {})
     (\<lambda>v. v \<noteq> NodeId 2 \<or> v = NodeId 2)"
proof -
  have "has_quorum (Joint {NodeId 1, NodeId 2, NodeId 3} {NodeId 3, NodeId 4} {})
      (\<lambda>v. v \<noteq> NodeId 2)"
    "has_quorum (Joint {NodeId 1, NodeId 2, NodeId 3} {NodeId 3, NodeId 4} {})
      (\<lambda>v. v \<noteq> NodeId 1)"
    by code_simp+
  from quorums_intersect [OF this, of "\<lambda>v. v = NodeId 2"] show ?thesis .
qed

text \<open>C30: a validated configuration change applied to a well-formed configuration gives a
  well-formed one, in which every quorum meets every quorum of the configuration before it;
  the same holds for the move out of a joint configuration.\<close>

theorem accepted_change_is_safe:
  assumes "wf_config c" "validate change c mode = Inr ()"
  shows "wf_config (apply_change change c mode) \<and>
    (\<forall>p q. has_quorum c p \<and> has_quorum (apply_change change c mode) q \<longrightarrow> (\<exists>v. p v \<and> q v)) \<and>
    (\<forall>c' p q. transition_target (apply_change change c mode) = Some c' \<and>
       has_quorum (apply_change change c mode) p \<and> has_quorum c' q \<longrightarrow> (\<exists>v. p v \<and> q v))"
proof (intro conjI allI impI; (elim conjE)?)
  show "wf_config (apply_change change c mode)" by (rule apply_change_wf [OF assms(2,1)])
  show "\<exists>v. p v \<and> q v" if "has_quorum c p" "has_quorum (apply_change change c mode) q" for p q
    using that by (rule change_quorums_overlap [OF assms(2)])
  show "\<exists>v. p v \<and> q v" if "transition_target (apply_change change c mode) = Some c'"
    "has_quorum (apply_change change c mode) p" "has_quorum c' q" for c' p q
    using that by (rule transition_target_overlap)
qed

theorem accepted_change_is_safe_witness:
  "wf_config (apply_change (SetMembers \<lparr>members_voters = [NodeId 3, NodeId 5],
       members_learners = [NodeId 1]\<rparr>) (Simple {NodeId 1, NodeId 2, NodeId 3} {}) JointConsensus) \<and>
   apply_change (SetMembers \<lparr>members_voters = [NodeId 3, NodeId 5],
       members_learners = [NodeId 1]\<rparr>) (Simple {NodeId 1, NodeId 2, NodeId 3} {}) JointConsensus =
     Joint {NodeId 1, NodeId 2, NodeId 3} {NodeId 3, NodeId 5} {NodeId 1}"
proof
  have "wf_config (Simple {NodeId 1, NodeId 2, NodeId 3} {})"
    "validate (SetMembers \<lparr>members_voters = [NodeId 3, NodeId 5], members_learners = [NodeId 1]\<rparr>)
       (Simple {NodeId 1, NodeId 2, NodeId 3} {}) JointConsensus = Inr ()"
    by code_simp+
  from accepted_change_is_safe [OF this]
  show "wf_config (apply_change (SetMembers \<lparr>members_voters = [NodeId 3, NodeId 5],
       members_learners = [NodeId 1]\<rparr>) (Simple {NodeId 1, NodeId 2, NodeId 3} {}) JointConsensus)"
    by (elim conjE)
qed code_simp

text \<open>C29: \<open>Members::new\<close> succeeds exactly when no learner is a voter, reports the first learner
  that is one otherwise, and returns both sets sorted and without duplicates.\<close>

theorem members_new_canonical:
  "members_new vs ls =
     (case find (\<lambda>i. i \<in> set vs) ls of
        Some i \<Rightarrow> Inl (Overlap i)
      | None \<Rightarrow> Inr \<lparr>members_voters = sorted_list_of_set (set vs),
                     members_learners = sorted_list_of_set (set ls)\<rparr>)"
  by (simp add: members_new_def members_learner_set_eq fold_insert_set btree_iter_def
      split: option.splits)

end
