(* ===== verification/Raft_Log.thy ===== *)
theory Raft_Log
  imports Membership
begin

text \<open>
  The replicated log (\<open>consensus/cloud9-raft/src/raft/log.rs\<close>): the entries kept in
  memory after the snapshot, the index arithmetic between log positions and positions of
  the \<open>Vec\<close>, truncation at both ends, slices and the search for configuration entries.
\<close>

section \<open>Data\<close>

datatype EntryPayload = CommandEntry Command | ConfigEntry Configuration

record Entry =
  entry_term :: Term
  entry_index :: LogIndex
  entry_payload :: EntryPayload

record Log =
  entries :: "Entry list"
  snapshot_index :: LogIndex
  snapshot_term :: Term
  snapshot_config :: "Configuration option"

fun is_config :: "EntryPayload \<Rightarrow> bool" where
  "is_config (ConfigEntry c) = True"
| "is_config (CommandEntry c) = False"

fun as_config :: "EntryPayload \<Rightarrow> Configuration option" where
  "as_config (ConfigEntry c) = Some c"
| "as_config (CommandEntry c) = None"

definition log_default :: Log where
  "log_default =
     \<lparr>entries = [], snapshot_index = 0, snapshot_term = 0, snapshot_config = None\<rparr>"

section \<open>Accessors\<close>

definition to_vec_index :: "Log \<Rightarrow> LogIndex \<Rightarrow> nat option" where
  "to_vec_index l index =
     (if index \<le> snapshot_index l then None
      else Some (unat (index - snapshot_index l - 1)))"

definition first_index :: "Log \<Rightarrow> LogIndex" where
  "first_index l = snapshot_index l + 1"

definition last_index :: "Log \<Rightarrow> LogIndex" where
  "last_index l = (if entries l = [] then snapshot_index l else entry_index (last (entries l)))"

definition last_term :: "Log \<Rightarrow> Term" where
  "last_term l = (if entries l = [] then snapshot_term l else entry_term (last (entries l)))"

definition term_at :: "Log \<Rightarrow> LogIndex \<Rightarrow> Term" where
  "term_at l index =
     (if index = 0 \<or> index < snapshot_index l then 0
      else if index = snapshot_index l then snapshot_term l
      else (case Option.bind (to_vec_index l index) (vec_get (entries l)) of
              None \<Rightarrow> 0
            | Some e \<Rightarrow> entry_term e))"

definition log_get :: "Log \<Rightarrow> LogIndex \<Rightarrow> Entry option" where
  "log_get l index =
     (if index = 0 \<or> index \<le> snapshot_index l then None
      else Option.bind (to_vec_index l index) (vec_get (entries l)))"

definition log_is_empty :: "Log \<Rightarrow> bool" where
  "log_is_empty l \<longleftrightarrow> entries l = []"

definition log_len :: "Log \<Rightarrow> nat" where
  "log_len l = length (entries l)"

section \<open>Configuration entries\<close>

definition log_config_at :: "Log \<Rightarrow> LogIndex \<Rightarrow> Configuration option" where
  "log_config_at l index =
     (if index \<le> snapshot_index l then snapshot_config l
      else let end_vec_idx = (case to_vec_index l index of
                                None \<Rightarrow> length (entries l)
                              | Some i \<Rightarrow> min (i + 1) (length (entries l)))
           in option_or
                (find_map (\<lambda>e. as_config (entry_payload e)) (rev (take end_vec_idx (entries l))))
                (snapshot_config l))"

definition log_pending_config_index :: "Log \<Rightarrow> LogIndex \<Rightarrow> LogIndex option" where
  "log_pending_config_index l commit =
     map_option entry_index
       (find (\<lambda>e. is_config (entry_payload e) \<and> entry_index e > commit) (rev (entries l)))"

section \<open>Mutations\<close>

text \<open>The \<open>debug_assert_eq!\<close> of \<open>Log::append\<close> is absent from release builds.\<close>

definition log_append :: "Entry \<Rightarrow> Log \<Rightarrow> Log" where
  "log_append e l = l\<lparr>entries := entries l @ [e]\<rparr>"

definition truncate_after :: "LogIndex \<Rightarrow> Log \<Rightarrow> Log" where
  "truncate_after index l =
     (if index \<le> snapshot_index l then l\<lparr>entries := []\<rparr>
      else case to_vec_index l index of
             None \<Rightarrow> l
           | Some vec_idx \<Rightarrow> l\<lparr>entries := take (vec_idx + 1) (entries l)\<rparr>)"

definition truncate_prefix :: "LogIndex \<Rightarrow> Term \<Rightarrow> Log \<Rightarrow> Log" where
  "truncate_prefix index t l =
     (if index \<le> snapshot_index l then l
      else let sc = log_config_at l index;
               entries_to_remove = unat (index - snapshot_index l);
               es = (if entries_to_remove \<ge> length (entries l) then []
                     else drop entries_to_remove (entries l))
           in \<lparr>entries = es, snapshot_index = index, snapshot_term = t, snapshot_config = sc\<rparr>)"

definition snapshot_matches_prefix :: "Log \<Rightarrow> LogIndex \<Rightarrow> Term \<Rightarrow> bool" where
  "snapshot_matches_prefix l index t \<longleftrightarrow> index > snapshot_index l \<and> term_at l index = t"

definition install_snapshot :: "LogIndex \<Rightarrow> Term \<Rightarrow> Configuration \<Rightarrow> Log \<Rightarrow> Log" where
  "install_snapshot index t config l =
     (let l' = (if index > snapshot_index l \<and> term_at l index = t then truncate_prefix index t l
                else l\<lparr>entries := [], snapshot_index := index, snapshot_term := t\<rparr>)
      in l'\<lparr>snapshot_config := Some config\<rparr>)"

section \<open>Slices\<close>

text \<open>\<open>None\<close> is the panic of \<open>&self.entries[s..e]\<close> when \<open>e\<close> is past the end.\<close>

definition log_slice :: "Log \<Rightarrow> LogIndex \<Rightarrow> LogIndex \<Rightarrow> Entry list option" where
  "log_slice l start end_index =
     (let actual_start = max start (snapshot_index l + 1) in
      if actual_start > end_index \<or> entries l = [] then Some []
      else case to_vec_index l actual_start of
             None \<Rightarrow> Some []
           | Some s \<Rightarrow>
               (let e = (case to_vec_index l (min end_index (last_index l)) of
                           None \<Rightarrow> length (entries l)
                         | Some i \<Rightarrow> i + 1)
                in if s \<ge> length (entries l) \<or> s \<ge> e then Some []
                   else if e \<le> length (entries l) then Some (drop s (take e (entries l)))
                   else None))"

section \<open>The shape of a log\<close>

text \<open>
  Entries are contiguous from \<open>snapshot_index + 1\<close>, each carries its own index, and the
  last index does not wrap around.
\<close>

fun entries_follow :: "LogIndex \<Rightarrow> Entry list \<Rightarrow> bool" where
  "entries_follow p [] = True"
| "entries_follow p (e # es) \<longleftrightarrow>
     p \<noteq> u64_max \<and> entry_index e = p + 1 \<and> entries_follow (p + 1) es"

definition wf_log :: "Log \<Rightarrow> bool" where
  "wf_log l \<longleftrightarrow> entries_follow (snapshot_index l) (entries l)"

lemma entries_follow_iff:
  "entries_follow p es \<longleftrightarrow>
     (\<forall>i < length es. entry_index (es ! i) = p + of_nat (Suc i)) \<and>
     unat p + length es < 18446744073709551616"
proof (induction es arbitrary: p)
  case Nil
  then show ?case by (simp add: unat_lt_2p64)
next
  case (Cons e es)
  show ?case
  proof (cases "p = u64_max")
    case True
    then show ?thesis by simp
  next
    case False
    have "(\<forall>i < length (e # es). entry_index ((e # es) ! i) = p + of_nat (Suc i)) \<longleftrightarrow>
        entry_index e = p + 1 \<and>
        (\<forall>i < length es. entry_index (es ! i) = (p + 1) + of_nat (Suc i))"
      by (simp add: All_less_Suc2 add.assoc)
    then show ?thesis
      using False Cons.IH [of "p + 1"] unat_inc [OF False] by auto
  qed
qed

lemma wf_log_iff:
  "wf_log l \<longleftrightarrow>
     (\<forall>i < length (entries l). entry_index (entries l ! i) = snapshot_index l + of_nat (Suc i)) \<and>
     unat (snapshot_index l) + length (entries l) < 18446744073709551616"
  unfolding wf_log_def by (rule entries_follow_iff)

lemma entries_follow_append:
  "entries_follow p (xs @ ys) \<longleftrightarrow>
     entries_follow p xs \<and> entries_follow (p + of_nat (length xs)) ys"
  by (induction xs arbitrary: p) (simp_all add: add.assoc)

lemma wf_log_default [simp]: "wf_log log_default"
  by (simp add: wf_log_def log_default_def)

lemma wf_log_room:
  "wf_log l \<Longrightarrow> unat (snapshot_index l) + length (entries l) < 18446744073709551616"
  by (simp add: wf_log_iff)

lemma wf_entry_index:
  assumes "wf_log l" "i < length (entries l)"
  shows "unat (entry_index (entries l ! i)) = unat (snapshot_index l) + Suc i"
proof -
  have room: "unat (snapshot_index l) + Suc i < 18446744073709551616"
    using wf_log_room [OF assms(1)] assms(2) by linarith
  then have "unat (of_nat (Suc i) :: u64) = Suc i"
    by (intro unat_of_nat_u64) linarith
  with room have "unat (snapshot_index l + of_nat (Suc i)) = unat (snapshot_index l) + Suc i"
    using unat_add_u64 [of "snapshot_index l" "of_nat (Suc i)"] by (simp only:)
  moreover have "entry_index (entries l ! i) = snapshot_index l + of_nat (Suc i)"
    using assms unfolding wf_log_iff by blast
  ultimately show ?thesis by (simp only:)
qed

lemma unat_last_index:
  assumes "wf_log l"
  shows "unat (last_index l) = unat (snapshot_index l) + length (entries l)"
proof (cases "entries l = []")
  case False
  then show ?thesis
    using wf_entry_index [OF assms, of "length (entries l) - 1"]
    by (simp add: last_index_def last_conv_nth)
qed (simp add: last_index_def)

lemma snapshot_le_last_index: "wf_log l \<Longrightarrow> snapshot_index l \<le> last_index l"
  by (simp add: word_le_nat_alt unat_last_index)

lemma to_vec_index_Some:
  "snapshot_index l < i \<Longrightarrow>
     to_vec_index l i = Some (unat i - unat (snapshot_index l) - 1)"
proof -
  assume lt: "snapshot_index l < i"
  then have "1 \<le> i - snapshot_index l"
    by (simp add: word_le_nat_alt word_less_nat_alt unat_diff_u64)
  then have "unat (i - snapshot_index l - 1) = unat (i - snapshot_index l) - 1"
    by (simp add: unat_diff_u64)
  with lt show ?thesis
    by (simp add: to_vec_index_def unat_diff_u64 not_le)
qed

lemma to_vec_index_None: "i \<le> snapshot_index l \<Longrightarrow> to_vec_index l i = None"
  by (simp add: to_vec_index_def)

lemma log_get_eq:
  assumes "wf_log l"
  shows "log_get l i =
    (if snapshot_index l < i \<and> i \<le> last_index l
     then Some (entries l ! (unat i - unat (snapshot_index l) - 1)) else None)"
proof (cases "snapshot_index l < i")
  case True
  then have nz: "i \<noteq> 0" by (metis word_not_simps(1))
  from True have "unat (snapshot_index l) < unat i" by (simp add: word_less_nat_alt)
  then have "unat i - unat (snapshot_index l) - 1 < length (entries l) \<longleftrightarrow> i \<le> last_index l"
    by (auto simp: word_le_nat_alt unat_last_index [OF assms])
  with True nz show ?thesis
    by (auto simp: log_get_def to_vec_index_Some vec_get_def)
qed (simp add: log_get_def not_less)

lemma log_get_SomeD:
  assumes "wf_log l" "log_get l i = Some e"
  shows "entry_index e = i" "snapshot_index l < i" "i \<le> last_index l"
    "e = entries l ! (unat i - unat (snapshot_index l) - 1)"
    "unat i - unat (snapshot_index l) - 1 < length (entries l)"
proof -
  from assms have range: "snapshot_index l < i" "i \<le> last_index l"
    and e: "e = entries l ! (unat i - unat (snapshot_index l) - 1)"
    by (auto simp: log_get_eq split: if_splits)
  then have lt: "unat i - unat (snapshot_index l) - 1 < length (entries l)"
    by (auto simp: word_less_nat_alt word_le_nat_alt unat_last_index [OF assms(1)])
  from wf_entry_index [OF assms(1) this] range(1) e have "unat (entry_index e) = unat i"
    by (simp add: word_less_nat_alt)
  then show "entry_index e = i" by (simp add: word_unat_eq_iff)
  show "snapshot_index l < i" "i \<le> last_index l"
    "e = entries l ! (unat i - unat (snapshot_index l) - 1)"
    "unat i - unat (snapshot_index l) - 1 < length (entries l)"
    using range e lt by blast+
qed

lemma log_get_nth:
  assumes "wf_log l" "k < length (entries l)"
  shows "log_get l (entry_index (entries l ! k)) = Some (entries l ! k)"
  using wf_entry_index [OF assms] assms(2)
  by (simp add: log_get_eq [OF assms(1)] word_less_nat_alt word_le_nat_alt
      unat_last_index [OF assms(1)])

lemma log_get_iff_mem:
  assumes "wf_log l"
  shows "log_get l i = Some e \<longleftrightarrow> e \<in> set (entries l) \<and> entry_index e = i"
proof
  assume get: "log_get l i = Some e"
  show "e \<in> set (entries l) \<and> entry_index e = i"
    using log_get_SomeD(1,4,5) [OF assms get] nth_mem by simp
next
  assume "e \<in> set (entries l) \<and> entry_index e = i"
  then obtain k where "k < length (entries l)" "entries l ! k = e" "entry_index e = i"
    unfolding in_set_conv_nth by blast
  then show "log_get l i = Some e" using log_get_nth [OF assms, of k] by simp
qed

lemma log_get_None_iff:
  "wf_log l \<Longrightarrow> log_get l i = None \<longleftrightarrow> i \<le> snapshot_index l \<or> last_index l < i"
  by (auto simp: log_get_eq not_le not_less)

lemma term_at_eq:
  assumes "wf_log l"
  shows "term_at l i =
    (if i = 0 then 0 else if i = snapshot_index l then snapshot_term l
     else case log_get l i of None \<Rightarrow> 0 | Some e \<Rightarrow> entry_term e)"
  by (auto simp: term_at_def log_get_def to_vec_index_None split: option.splits)

text \<open>Reading a log whose list of entries is split at a position.\<close>

lemma unat_position:
  assumes "wf_log l" "k \<le> length (entries l)"
  shows "unat (snapshot_index l + of_nat k) = unat (snapshot_index l) + k"
proof -
  have "unat (snapshot_index l) + k < 18446744073709551616"
    using wf_log_room [OF assms(1)] assms(2) by linarith
  then show ?thesis by (simp add: unat_add_u64 unat_of_nat_u64)
qed

lemma last_index_eq:
  assumes "wf_log l"
  shows "last_index l = snapshot_index l + of_nat (length (entries l))"
  using unat_last_index [OF assms] unat_position [OF assms, of "length (entries l)"]
  by (simp add: word_unat_eq_iff)

lemma log_get_split:
  assumes "wf_log l" "entries l = pre @ x # xs"
  shows "entry_index x = snapshot_index l + of_nat (Suc (length pre))"
    "log_get l (snapshot_index l + of_nat (Suc (length pre))) = Some x"
proof -
  show "entry_index x = snapshot_index l + of_nat (Suc (length pre))"
    using assms unfolding wf_log_iff by (auto dest!: spec [of _ "length pre"] simp: nth_append)
  then show "log_get l (snapshot_index l + of_nat (Suc (length pre))) = Some x"
    using assms(2) by (simp add: log_get_iff_mem [OF assms(1)])
qed

lemma term_at_split:
  assumes "wf_log l" "entries l = pre @ x # xs"
  shows "term_at l (snapshot_index l + of_nat (Suc (length pre))) = entry_term x"
proof -
  let ?i = "snapshot_index l + of_nat (Suc (length pre))"
  have "unat ?i = unat (snapshot_index l) + Suc (length pre)"
    using assms by (intro unat_position) auto
  then have "?i \<noteq> 0" "?i \<noteq> snapshot_index l" by (auto simp: word_unat_eq_iff)
  then show ?thesis by (simp only: term_at_eq [OF assms(1)] log_get_split(2) [OF assms]) simp
qed

lemma term_at_beyond:
  assumes "wf_log l" "last_index l < i"
  shows "term_at l i = 0"
proof -
  have "log_get l i = None" using assms by (simp add: log_get_None_iff)
  moreover have "i \<noteq> snapshot_index l" using snapshot_le_last_index [OF assms(1)] assms(2) by auto
  ultimately show ?thesis by (simp add: term_at_eq [OF assms(1)])
qed

section \<open>Cutting a log by index\<close>

lemma filter_le_index:
  assumes "wf_log l"
  shows "filter (\<lambda>e. entry_index e \<le> i) (entries l) =
    take (unat i - unat (snapshot_index l)) (entries l)"
proof -
  let ?k = "unat i - unat (snapshot_index l)"
  have iff: "entry_index (entries l ! j) \<le> i \<longleftrightarrow> j < ?k" if "j < length (entries l)" for j
    using wf_entry_index [OF assms that] by (auto simp: word_le_nat_alt)
  have "filter (\<lambda>e. entry_index e \<le> i) (take ?k (entries l) @ drop ?k (entries l)) =
        take ?k (entries l)"
    unfolding filter_append
  proof -
    have "filter (\<lambda>e. entry_index e \<le> i) (take ?k (entries l)) = take ?k (entries l)"
      using iff by (auto simp: filter_id_conv in_set_conv_nth)
    moreover have "filter (\<lambda>e. entry_index e \<le> i) (drop ?k (entries l)) = []"
      using iff by (auto simp: filter_empty_conv in_set_conv_nth less_diff_conv)
    ultimately show "filter (\<lambda>e. entry_index e \<le> i) (take ?k (entries l)) @
        filter (\<lambda>e. entry_index e \<le> i) (drop ?k (entries l)) = take ?k (entries l)"
      by simp
  qed
  then show ?thesis by simp
qed

lemma filter_gt_index:
  assumes "wf_log l"
  shows "filter (\<lambda>e. i < entry_index e) (entries l) =
    drop (unat i - unat (snapshot_index l)) (entries l)"
proof -
  let ?k = "unat i - unat (snapshot_index l)"
  have iff: "i < entry_index (entries l ! j) \<longleftrightarrow> ?k \<le> j" if "j < length (entries l)" for j
    using wf_entry_index [OF assms that] by (auto simp: word_less_nat_alt)
  have "filter (\<lambda>e. i < entry_index e) (take ?k (entries l)) = []"
    using iff by (auto simp: filter_empty_conv in_set_conv_nth)
  moreover have "filter (\<lambda>e. i < entry_index e) (drop ?k (entries l)) = drop ?k (entries l)"
    using iff by (auto simp: filter_id_conv in_set_conv_nth less_diff_conv)
  ultimately show ?thesis
    by (metis append_Nil append_take_drop_id filter_append)
qed

section \<open>The operations on well-formed logs\<close>

lemma wf_log_append:
  assumes "wf_log l" "last_index l \<noteq> u64_max" "entry_index e = last_index l + 1"
  shows "wf_log (log_append e l)"
proof -
  let ?n = "length (entries l)" and ?s = "snapshot_index l"
  have n: "unat (last_index l) = unat ?s + ?n" by (rule unat_last_index [OF assms(1)])
  have room: "unat ?s + ?n < 18446744073709551615"
    using assms(2) n by (simp add: u64_neq_max_iff)
  have "last_index l = ?s + of_nat ?n"
    using n room by (simp add: word_unat_eq_iff unat_add_u64 unat_of_nat_u64)
  then have "entry_index e = ?s + of_nat (Suc ?n)"
    using assms(3) by (simp add: add.assoc add.commute)
  then show ?thesis
    using assms(1) room unfolding wf_log_iff
    by (simp add: log_append_def nth_append less_Suc_eq)
qed

lemma log_append_simps [simp]:
  "entries (log_append e l) = entries l @ [e]"
  "snapshot_index (log_append e l) = snapshot_index l"
  "snapshot_term (log_append e l) = snapshot_term l"
  "snapshot_config (log_append e l) = snapshot_config l"
  "last_index (log_append e l) = entry_index e"
  "last_term (log_append e l) = entry_term e"
  by (simp_all add: log_append_def last_index_def last_term_def)

lemma truncate_after_eq:
  assumes "wf_log l"
  shows "truncate_after i l = l\<lparr>entries := filter (\<lambda>e. entry_index e \<le> i) (entries l)\<rparr>"
proof (cases "i \<le> snapshot_index l")
  case True
  then have "unat i - unat (snapshot_index l) = 0" by (simp add: word_le_nat_alt)
  with True show ?thesis by (simp add: truncate_after_def filter_le_index [OF assms])
next
  case False
  then have lt: "snapshot_index l < i" by simp
  then have "Suc (unat i - Suc (unat (snapshot_index l))) = unat i - unat (snapshot_index l)"
    by (simp add: word_less_nat_alt)
  with lt show ?thesis
    by (simp add: truncate_after_def filter_le_index [OF assms] to_vec_index_Some)
qed

lemma truncate_prefix_eq:
  assumes "wf_log l" "snapshot_index l < i"
  shows "truncate_prefix i t l =
    \<lparr>entries = filter (\<lambda>e. i < entry_index e) (entries l), snapshot_index = i,
     snapshot_term = t, snapshot_config = log_config_at l i\<rparr>"
  using assms
  by (simp add: truncate_prefix_def filter_gt_index [OF assms(1)] unat_diff_u64 Let_def not_le
      less_imp_le)

lemma wf_log_truncate_after:
  assumes "wf_log l"
  shows "wf_log (truncate_after i l)"
  using assms unfolding truncate_after_eq [OF assms] filter_le_index [OF assms] wf_log_iff
  by (auto simp: min_def)

lemma wf_log_truncate_prefix:
  assumes "wf_log l"
  shows "wf_log (truncate_prefix i t l)"
proof (cases "snapshot_index l < i")
  case True
  let ?k = "unat i - unat (snapshot_index l)"
  have k: "unat i = unat (snapshot_index l) + ?k" using True by (simp add: word_less_nat_alt)
  have "i = snapshot_index l + of_nat ?k"
    by (simp add: True less_imp_le flip: unat_diff_u64)
  then have "snapshot_index l + of_nat (Suc (?k + j)) = i + of_nat (Suc j)" for j
    by (simp add: add.assoc add.commute add.left_commute)
  moreover have "unat i + (length (entries l) - ?k) < 18446744073709551616"
    using wf_log_room [OF assms] k unat_lt_2p64 [of i] by linarith
  ultimately show ?thesis
    using assms
    unfolding truncate_prefix_eq [OF assms True] filter_gt_index [OF assms] wf_log_iff
    by (simp add: less_diff_conv add.commute)
qed (use assms in \<open>simp add: truncate_prefix_def not_less\<close>)

lemma wf_log_install_snapshot:
  assumes "wf_log l"
  shows "wf_log (install_snapshot i t cfg l)"
proof -
  have config: "wf_log (x\<lparr>snapshot_config := sc\<rparr>) = wf_log x" for x sc by (simp add: wf_log_def)
  have "wf_log (l\<lparr>entries := [], snapshot_index := i, snapshot_term := t\<rparr>)"
    using unat_lt_2p64 [of i] by (simp add: wf_log_iff)
  then show ?thesis
    by (simp add: install_snapshot_def config wf_log_truncate_prefix assms Let_def)
qed

lemma truncate_after_simps [simp]:
  "snapshot_index (truncate_after i l) = snapshot_index l"
  "snapshot_term (truncate_after i l) = snapshot_term l"
  "snapshot_config (truncate_after i l) = snapshot_config l"
  by (simp_all add: truncate_after_def split: option.splits)

lemma last_index_truncate_after:
  assumes "wf_log l"
  shows "last_index (truncate_after i l) = max (snapshot_index l) (min i (last_index l))"
proof -
  have "unat (last_index (truncate_after i l)) =
      unat (snapshot_index l) + min (length (entries l)) (unat i - unat (snapshot_index l))"
    using unat_last_index [OF wf_log_truncate_after [OF assms, of i]]
    by (simp add: truncate_after_eq [OF assms] filter_le_index [OF assms])
  also have "\<dots> = max (unat (snapshot_index l)) (min (unat i) (unat (last_index l)))"
    unfolding unat_last_index [OF assms] by linarith
  also have "\<dots> = unat (max (snapshot_index l) (min i (last_index l)))"
    by (simp add: max_def min_def word_le_nat_alt)
  finally show ?thesis by (simp only: word_unat_eq_iff)
qed

text \<open>A log is the finite map \<open>log_get\<close> from positions to entries: appending is a map update,
  the two truncations are restrictions of it.\<close>

lemma log_get_append:
  assumes "wf_log l" "last_index l \<noteq> u64_max" "entry_index e = last_index l + 1"
  shows "log_get (log_append e l) = (log_get l)(entry_index e \<mapsto> e)"
proof (rule map_eq_SomeI)
  fix i x
  have "log_get l (entry_index e) = None"
    using assms(2,3) by (simp add: log_get_None_iff [OF assms(1)] u64_less_inc)
  then have "x \<notin> set (entries l)" if "entry_index x = entry_index e"
    using that log_get_iff_mem [OF assms(1), of "entry_index e" x] by auto
  then show "log_get (log_append e l) i = Some x \<longleftrightarrow>
      ((log_get l)(entry_index e \<mapsto> e)) i = Some x"
    by (auto simp: log_get_iff_mem [OF wf_log_append [OF assms]] log_get_iff_mem [OF assms(1)])
qed

lemma entries_truncate_after:
  "wf_log l \<Longrightarrow> entries (truncate_after i l) = filter (\<lambda>e. entry_index e \<le> i) (entries l)"
  by (simp add: truncate_after_eq)

lemma log_get_truncate_after:
  assumes "wf_log l"
  shows "log_get (truncate_after i l) = log_get l |` {..i}"
proof (rule map_eq_SomeI)
  fix j x
  show "log_get (truncate_after i l) j = Some x \<longleftrightarrow> (log_get l |` {..i}) j = Some x"
    unfolding log_get_iff_mem [OF wf_log_truncate_after [OF assms]]
    by (auto simp: log_get_iff_mem [OF assms] entries_truncate_after [OF assms] restrict_map_def)
qed

lemma entries_truncate_prefix:
  "wf_log l \<Longrightarrow> snapshot_index l < i \<Longrightarrow>
     entries (truncate_prefix i t l) = filter (\<lambda>e. i < entry_index e) (entries l)"
  by (simp add: truncate_prefix_eq)

lemma log_get_truncate_prefix:
  assumes "wf_log l" "snapshot_index l < i"
  shows "log_get (truncate_prefix i t l) = log_get l |` {i<..}"
proof (rule map_eq_SomeI)
  fix j x
  show "log_get (truncate_prefix i t l) j = Some x \<longleftrightarrow> (log_get l |` {i<..}) j = Some x"
    unfolding log_get_iff_mem [OF wf_log_truncate_prefix [OF assms(1)]]
    by (auto simp: log_get_iff_mem [OF assms(1)] entries_truncate_prefix [OF assms]
        restrict_map_def)
qed

text \<open>Slices read the positions asked for, and never run past the end of the \<open>Vec\<close>.\<close>

lemma filter_index_range:
  assumes "wf_log l"
  shows "filter (\<lambda>e. a \<le> entry_index e \<and> entry_index e \<le> b) (entries l) =
    drop (unat a - Suc (unat (snapshot_index l))) (take (unat b - unat (snapshot_index l)) (entries l))"
proof (cases "a = 0")
  case True
  then show ?thesis by (simp add: filter_le_index [OF assms])
next
  case False
  then have pred: "unat (a - 1) = unat a - 1"
    by (simp add: unat_diff_u64 word_le_nat_alt Suc_leI unat_gt_0)
  have "0 < unat a" using False by (simp add: unat_gt_0)
  then have "a \<le> i \<longleftrightarrow> a - 1 < i" for i
    unfolding word_le_nat_alt word_less_nat_alt pred by linarith
  then have "filter (\<lambda>e. a \<le> entry_index e \<and> entry_index e \<le> b) (entries l) =
      filter (\<lambda>e. a - 1 < entry_index e) (entries (truncate_after b l))"
    by (simp add: entries_truncate_after [OF assms] conj_commute)
  also have "\<dots> = drop (unat a - Suc (unat (snapshot_index l)))
      (take (unat b - unat (snapshot_index l)) (entries l))"
    unfolding filter_gt_index [OF wf_log_truncate_after [OF assms]] pred
    by (simp add: entries_truncate_after [OF assms] filter_le_index [OF assms])
  finally show ?thesis .
qed

lemma entries_follow_range:
  assumes "wf_log l" "snapshot_index l < a"
  shows "entries_follow (a - 1)
    (filter (\<lambda>e. a \<le> entry_index e \<and> entry_index e \<le> b) (entries l))"
proof -
  let ?k = "unat a - Suc (unat (snapshot_index l))"
  let ?es = "take (unat b - unat (snapshot_index l)) (entries l)"
  have es: "entries_follow (snapshot_index l) ?es"
    using wf_log_truncate_after [OF assms(1), of b]
    by (simp add: wf_log_def truncate_after_eq [OF assms(1)] filter_le_index [OF assms(1)])
  show ?thesis
  proof (cases "?k < length ?es")
    case True
    have "entries_follow (snapshot_index l) (take ?k ?es @ drop ?k ?es)"
      using es by (simp only: append_take_drop_id)
    then have "entries_follow (snapshot_index l + of_nat ?k) (drop ?k ?es)"
      using True by (simp only: entries_follow_append length_take min_absorb2 less_imp_le)
    moreover have "a - 1 = snapshot_index l + of_nat ?k"
    proof -
      define k where "k = ?k"
      then have k: "k = ?k" "unat a = unat (snapshot_index l) + Suc k"
        using assms(2) by (auto simp: word_less_nat_alt)
      have "of_nat (unat a) = snapshot_index l + (of_nat (Suc k) :: u64)"
        unfolding k(2) of_nat_add by simp
      then have "a - 1 = snapshot_index l + of_nat k" by simp
      then show ?thesis unfolding k(1) .
    qed
    ultimately show ?thesis by (simp only: filter_index_range [OF assms(1)])
  next
    case False
    then have "drop ?k ?es = []" by (simp only: drop_eq_Nil not_less)
    then show ?thesis by (simp only: filter_index_range [OF assms(1)] entries_follow.simps)
  qed
qed

lemma log_slice_eq:
  assumes "wf_log l"
  shows "log_slice l a b =
    Some (filter (\<lambda>e. a \<le> entry_index e \<and> entry_index e \<le> b) (entries l))"
proof (cases "entries l = []")
  case True
  then show ?thesis by (simp add: log_slice_def)
next
  case False
  let ?s = "snapshot_index l" and ?n = "length (entries l)"
  have last: "unat (last_index l) = unat ?s + ?n" by (rule unat_last_index [OF assms])
  then have "unat ?s < unat (last_index l)" using False by simp
  then have nmax: "?s \<noteq> u64_max" and ls: "?s < last_index l"
    using u64_less_not_max word_less_nat_alt by blast+
  define a' where "a' = max a (?s + 1)"
  have a': "unat a' = max (unat a) (Suc (unat ?s))"
    unfolding a'_def using unat_inc [OF nmax] by (simp add: max_def word_le_nat_alt)
  then have s: "to_vec_index l a' = Some (unat a - Suc (unat ?s))"
    by (simp add: to_vec_index_Some word_less_nat_alt max_def)
  show ?thesis
  proof (cases "b < a'")
    case True
    then have "unat b - unat ?s \<le> unat a - Suc (unat ?s)"
      using a' by (simp add: word_less_nat_alt max_def split: if_splits)
    with True show ?thesis
      by (simp add: log_slice_def filter_index_range [OF assms] a'_def [symmetric])
  next
    case False
    then have b: "unat a' \<le> unat b" by (simp add: word_le_nat_alt not_less)
    then have "?s < b" using a' by (simp add: word_less_nat_alt)
    with ls have "?s < min b (last_index l)" by simp
    then have "to_vec_index l (min b (last_index l)) =
        Some (min (unat b) (unat ?s + ?n) - unat ?s - 1)"
      using last by (simp add: to_vec_index_Some min_def word_le_nat_alt)
    moreover have "Suc (min (unat b) (unat ?s + ?n) - unat ?s - 1) = min (unat b - unat ?s) ?n"
      using b a' \<open>entries l \<noteq> []\<close> by (auto simp: min_def max_def split: if_splits)
    ultimately show ?thesis
      using False \<open>entries l \<noteq> []\<close> s
      by (simp add: log_slice_def filter_index_range [OF assms] a'_def [symmetric] min_def
          Let_def)
  qed
qed

lemma log_get_snapshot_config [simp]: "log_get (l\<lparr>snapshot_config := c\<rparr>) = log_get l"
  by (rule ext) (simp add: log_get_def to_vec_index_def)

lemma term_at_snapshot_config [simp]: "term_at (l\<lparr>snapshot_config := c\<rparr>) = term_at l"
  by (rule ext) (simp add: term_at_def to_vec_index_def)

lemma last_index_snapshot_config [simp]: "last_index (l\<lparr>snapshot_config := c\<rparr>) = last_index l"
  by (simp add: last_index_def)

lemma last_index_truncate_prefix:
  assumes "wf_log l" "snapshot_index l < i"
  shows "last_index (truncate_prefix i t l) = max i (last_index l)"
proof -
  let ?l = "truncate_prefix i t l"
  have si: "snapshot_index ?l = i" using assms by (simp add: truncate_prefix_eq)
  have "unat (last_index ?l) = unat i + length (entries ?l)"
    using unat_last_index [OF wf_log_truncate_prefix [OF assms(1), of i t]] unfolding si .
  also have "length (entries ?l) = length (entries l) - (unat i - unat (snapshot_index l))"
    by (simp add: entries_truncate_prefix [OF assms] filter_gt_index [OF assms(1)])
  finally have "unat (last_index ?l) = max (unat i) (unat (last_index l))"
    using unat_last_index [OF assms(1)] assms(2) by (simp add: word_less_nat_alt max_def)
  then show ?thesis by (simp add: word_unat_eq_iff max_def word_le_nat_alt split: if_splits)
qed

lemma install_snapshot_eq:
  assumes "wf_log l" "i \<noteq> 0"
  shows "log_get (install_snapshot i t cfg l) =
      (if snapshot_matches_prefix l i t then log_get l |` {i<..} else Map.empty) \<and>
    snapshot_index (install_snapshot i t cfg l) = i \<and>
    term_at (install_snapshot i t cfg l) i = t \<and>
    log_config_at (install_snapshot i t cfg l) i = Some cfg \<and>
    (snapshot_matches_prefix l i t \<longrightarrow>
       last_index (install_snapshot i t cfg l) = max i (last_index l))"
proof (cases "snapshot_matches_prefix l i t")
  case True
  then have i: "snapshot_index l < i" and eq:
    "install_snapshot i t cfg l = (truncate_prefix i t l)\<lparr>snapshot_config := Some cfg\<rparr>"
    by (simp_all add: install_snapshot_def snapshot_matches_prefix_def)
  have p: "snapshot_index (truncate_prefix i t l) = i" "snapshot_term (truncate_prefix i t l) = t"
    using i by (simp_all add: truncate_prefix_eq assms(1))
  show ?thesis
    unfolding eq using True i p assms
    by (simp add: log_get_truncate_prefix last_index_truncate_prefix term_at_def log_config_at_def)
next
  case False
  then have eq: "install_snapshot i t cfg l =
      \<lparr>entries = [], snapshot_index = i, snapshot_term = t, snapshot_config = Some cfg\<rparr>"
    by (auto simp: install_snapshot_def snapshot_matches_prefix_def)
  show ?thesis
    unfolding eq using False assms(2)
    by (auto simp: log_get_def term_at_def log_config_at_def vec_get_def to_vec_index_def
        bind_eq_None_conv)
qed

section \<open>Properties\<close>

text \<open>A compacted log with three entries, on which the properties are exercised.\<close>

definition sample_log :: Log where
  "sample_log =
     \<lparr>entries = [\<lparr>entry_term = 1, entry_index = 6, entry_payload = CommandEntry (Command [1])\<rparr>,
                \<lparr>entry_term = 1, entry_index = 7, entry_payload = CommandEntry (Command [2])\<rparr>,
                \<lparr>entry_term = 2, entry_index = 8, entry_payload = CommandEntry (Command [3])\<rparr>],
      snapshot_index = 5, snapshot_term = 1, snapshot_config = None\<rparr>"

definition sample_next :: Entry where
  "sample_next = \<lparr>entry_term = 2, entry_index = 9, entry_payload = CommandEntry (Command [4])\<rparr>"

text \<open>Slices. On a contiguous log \<open>Log::slice\<close> never indexes out of range, whatever the
  bounds, and returns exactly the entries whose index lies between them, both included.\<close>

theorem slice_is_filter:
  assumes "wf_log l"
  shows "log_slice l a b =
    Some (filter (\<lambda>e. a \<le> entry_index e \<and> entry_index e \<le> b) (entries l))"
  using assms by (rule log_slice_eq)

theorem slice_is_filter_witness:
  "map_option (map entry_index) (log_slice sample_log 3 7) = Some [6, 7] \<and>
   map_option length (log_slice sample_log 0 u64_max) = Some 3"
proof -
  have "wf_log sample_log" by code_simp
  then show ?thesis unfolding slice_is_filter [OF \<open>wf_log sample_log\<close>] by code_simp
qed

text \<open>C27: the log as a map. Read through \<open>Log::get\<close>, appending the next entry updates one
  position, \<open>truncate_after\<close> restricts the map to the positions up to the index and
  \<open>truncate_prefix\<close> to those after it.\<close>

theorem log_refines_map:
  assumes "wf_log l" "last_index l \<noteq> u64_max" "entry_index e = last_index l + 1"
    "snapshot_index l < j"
  shows "log_get (log_append e l) = (log_get l)(entry_index e \<mapsto> e) \<and>
    log_get (truncate_after i l) = log_get l |` {..i} \<and>
    log_get (truncate_prefix j t l) = log_get l |` {j<..}"
  using assms by (simp add: log_get_append log_get_truncate_after log_get_truncate_prefix)

theorem log_refines_map_witness:
  "log_get (log_append sample_next sample_log) 9 = Some sample_next \<and>
   log_get (truncate_after 7 sample_log) 8 = None \<and>
   log_get (truncate_prefix 6 1 sample_log) 6 = None \<and>
   log_get (truncate_prefix 6 1 sample_log) 8 = log_get sample_log 8"
proof -
  have "wf_log sample_log" "last_index sample_log \<noteq> u64_max"
    "entry_index sample_next = last_index sample_log + 1" "snapshot_index sample_log < 6"
    by code_simp+
  note r = log_refines_map [OF this, of 7 1]
  have "entry_index sample_next = 9" by code_simp
  with r show ?thesis by (simp add: restrict_map_def)
qed

text \<open>C28: the shape of the log. The empty log is contiguous, and every operation that changes a
  log keeps it so: appending the next entry, truncating at either end, at any index, and
  installing any snapshot.\<close>

theorem log_stays_contiguous:
  assumes "wf_log l" "last_index l \<noteq> u64_max" "entry_index e = last_index l + 1"
  shows "wf_log log_default \<and> wf_log (log_append e l) \<and> wf_log (truncate_after i l) \<and>
    wf_log (truncate_prefix i t l) \<and> wf_log (install_snapshot i t cfg l)"
  using assms
  by (simp add: wf_log_append wf_log_truncate_after wf_log_truncate_prefix wf_log_install_snapshot)

theorem log_stays_contiguous_witness:
  "wf_log (log_append sample_next sample_log) \<and> wf_log (truncate_after 2 sample_log) \<and>
   wf_log (install_snapshot 7 1 config_default sample_log)"
proof -
  have "wf_log sample_log" "last_index sample_log \<noteq> u64_max"
    "entry_index sample_next = last_index sample_log + 1"
    by code_simp+
  note r = log_stays_contiguous [OF this]
  show ?thesis using r [of 2] r [of 7 1 config_default] by blast
qed

text \<open>Snapshots. Installing a snapshot at an index whose term the log already has keeps
  exactly the entries after it; otherwise the log becomes empty. Either way the log then
  answers for the index of the snapshot with the term and the configuration of the snapshot.\<close>

theorem install_snapshot_outcome:
  assumes "wf_log l" "i \<noteq> 0"
  shows "log_get (install_snapshot i t cfg l) =
      (if snapshot_matches_prefix l i t then log_get l |` {i<..} else Map.empty) \<and>
    snapshot_index (install_snapshot i t cfg l) = i \<and>
    term_at (install_snapshot i t cfg l) i = t \<and>
    log_config_at (install_snapshot i t cfg l) i = Some cfg \<and>
    (snapshot_matches_prefix l i t \<longrightarrow>
       last_index (install_snapshot i t cfg l) = max i (last_index l))"
  using assms by (rule install_snapshot_eq)

theorem install_snapshot_outcome_witness:
  "log_get (install_snapshot 7 1 config_default sample_log) 8 = log_get sample_log 8 \<and>
   last_index (install_snapshot 7 1 config_default sample_log) = 8 \<and>
   log_get (install_snapshot 7 2 config_default sample_log) 8 = None"
proof -
  have "wf_log sample_log" "(7 :: u64) \<noteq> 0" by code_simp+
  note r = install_snapshot_outcome [OF this]
  have "snapshot_matches_prefix sample_log 7 1" "\<not> snapshot_matches_prefix sample_log 7 2"
    "last_index sample_log = 8"
    by code_simp+
  then show ?thesis using r [of 1 config_default] r [of 2 config_default]
    by (simp add: restrict_map_def)
qed

end
