(* ===== verification/Raft_Event.thy ===== *)
theory Raft_Event
  imports Raft_Log
begin

text \<open>
  The alphabet of the automaton (\<open>consensus/cloud9-raft/src/raft/event.rs\<close>): messages,
  input events and output effects, together with the transition and step-result types of
  \<open>consensus/cloud9-raft/src/raft/mod.rs\<close> that every role returns.
\<close>

section \<open>Messages\<close>

record PreVoteRequest =
  pvreq_next_term :: Term
  pvreq_last_log_index :: LogIndex
  pvreq_last_log_term :: Term

record PreVoteResponse =
  pvresp_term :: Term
  pvresp_granted :: bool

record VoteRequest =
  vreq_last_log_index :: LogIndex
  vreq_last_log_term :: Term

record VoteResponse =
  vresp_granted :: bool

record AppendRequest =
  areq_prev_log_index :: LogIndex
  areq_prev_log_term :: Term
  areq_entries :: "Entry list"
  areq_leader_commit :: LogIndex

record AppendResponse =
  aresp_success :: bool
  aresp_last_log_index :: LogIndex

record ReadIndexRequest =
  rireq_id :: u64
  rireq_read_index :: LogIndex

record ReadIndexResponse =
  riresp_id :: u64
  riresp_read_index :: LogIndex

record InstallSnapshotRequest =
  isreq_last_included_index :: LogIndex
  isreq_last_included_term :: Term
  isreq_configuration :: Configuration

record InstallSnapshotResponse =
  isresp_success :: bool
  isresp_last_included_index :: LogIndex

datatype Payload =
    PreVoteRequest PreVoteRequest
  | PreVoteResponse PreVoteResponse
  | VoteRequest VoteRequest
  | VoteResponse VoteResponse
  | AppendRequest AppendRequest
  | AppendResponse AppendResponse
  | InstallSnapshotRequest InstallSnapshotRequest
  | InstallSnapshotResponse InstallSnapshotResponse
  | ReadIndexRequest ReadIndexRequest
  | ReadIndexResponse ReadIndexResponse
  | TimeoutNow

record Message =
  msg_from :: NodeId
  msg_to :: NodeId
  msg_term :: Term
  msg_payload :: Payload

datatype Event = Tick | MessageEvent Message | DiskWriteComplete LogIndex

section \<open>Effects\<close>

record SendSnapshot =
  ss_to :: NodeId
  ss_last_included_index :: LogIndex
  ss_last_included_term :: Term
  ss_configuration :: Configuration

record Effects =
  eff_persist :: bool
  eff_messages :: "Message list"
  eff_send_snapshots :: "SendSnapshot list"

definition eff_none :: Effects where
  "eff_none = \<lparr>eff_persist = False, eff_messages = [], eff_send_snapshots = []\<rparr>"

definition with_persist :: "Effects \<Rightarrow> Effects" where
  "with_persist e = e\<lparr>eff_persist := True\<rparr>"

definition with_message :: "Effects \<Rightarrow> Message \<Rightarrow> Effects" where
  "with_message e m = e\<lparr>eff_messages := eff_messages e @ [m]\<rparr>"

definition with_messages :: "Effects \<Rightarrow> Message list \<Rightarrow> Effects" where
  "with_messages e ms = e\<lparr>eff_messages := eff_messages e @ ms\<rparr>"

definition with_send_snapshot :: "Effects \<Rightarrow> SendSnapshot \<Rightarrow> Effects" where
  "with_send_snapshot e s = e\<lparr>eff_send_snapshots := eff_send_snapshots e @ [s]\<rparr>"

definition eff_merge :: "Effects \<Rightarrow> Effects \<Rightarrow> Effects" where
  "eff_merge a b =
     \<lparr>eff_persist = (eff_persist a \<or> eff_persist b),
      eff_messages = eff_messages a @ eff_messages b,
      eff_send_snapshots = eff_send_snapshots a @ eff_send_snapshots b\<rparr>"

lemma eff_simps [simp]:
  "\<not> eff_persist eff_none" "eff_messages eff_none = []" "eff_send_snapshots eff_none = []"
  "eff_persist (with_persist e)" "eff_messages (with_persist e) = eff_messages e"
  "eff_send_snapshots (with_persist e) = eff_send_snapshots e"
  "eff_persist (with_message e m) = eff_persist e"
  "eff_messages (with_message e m) = eff_messages e @ [m]"
  "eff_send_snapshots (with_message e m) = eff_send_snapshots e"
  "eff_persist (with_messages e ms) = eff_persist e"
  "eff_messages (with_messages e ms) = eff_messages e @ ms"
  "eff_send_snapshots (with_messages e ms) = eff_send_snapshots e"
  "eff_persist (with_send_snapshot e s) = eff_persist e"
  "eff_messages (with_send_snapshot e s) = eff_messages e"
  "eff_send_snapshots (with_send_snapshot e s) = eff_send_snapshots e @ [s]"
  "eff_persist (eff_merge a b) \<longleftrightarrow> eff_persist a \<or> eff_persist b"
  "eff_messages (eff_merge a b) = eff_messages a @ eff_messages b"
  "eff_send_snapshots (eff_merge a b) = eff_send_snapshots a @ eff_send_snapshots b"
  by (simp_all add: eff_none_def with_persist_def with_message_def with_messages_def
      with_send_snapshot_def eff_merge_def)

text \<open>Effects under \<open>merge\<close> form a monoid: the order in which partial results are merged
  does not matter, and merging with no effects changes nothing.\<close>

lemma eff_merge_assoc: "eff_merge (eff_merge a b) c = eff_merge a (eff_merge b c)"
  by (simp add: eff_merge_def)

lemma eff_merge_none [simp]: "eff_merge eff_none e = e" "eff_merge e eff_none = e"
  by (simp_all add: eff_merge_def eff_none_def)

section \<open>Step results\<close>

datatype Transition =
    Stay
  | ToFollower "NodeId option"
  | ToFollowerAfterContact "NodeId option"
  | ToPreCandidate
  | ToCandidate
  | ToLeader

record StepResult =
  sr_transition :: Transition
  sr_effects :: Effects

definition stay :: "Effects \<Rightarrow> StepResult" where
  "stay e = \<lparr>sr_transition = Stay, sr_effects = e\<rparr>"

definition sr_none :: StepResult where
  "sr_none = stay eff_none"

definition to_follower :: "NodeId option \<Rightarrow> Effects \<Rightarrow> StepResult" where
  "to_follower leader e = \<lparr>sr_transition = ToFollower leader, sr_effects = e\<rparr>"

definition to_follower_after_contact :: "NodeId option \<Rightarrow> Effects \<Rightarrow> StepResult" where
  "to_follower_after_contact leader e =
     \<lparr>sr_transition = ToFollowerAfterContact leader, sr_effects = e\<rparr>"

definition to_precandidate :: "Effects \<Rightarrow> StepResult" where
  "to_precandidate e = \<lparr>sr_transition = ToPreCandidate, sr_effects = e\<rparr>"

definition to_candidate :: "Effects \<Rightarrow> StepResult" where
  "to_candidate e = \<lparr>sr_transition = ToCandidate, sr_effects = e\<rparr>"

definition to_leader :: "Effects \<Rightarrow> StepResult" where
  "to_leader e = \<lparr>sr_transition = ToLeader, sr_effects = e\<rparr>"

lemma sr_simps [simp]:
  "sr_transition (stay e) = Stay" "sr_effects (stay e) = e"
  "sr_transition sr_none = Stay" "sr_effects sr_none = eff_none"
  "sr_transition (to_follower l e) = ToFollower l" "sr_effects (to_follower l e) = e"
  "sr_transition (to_follower_after_contact l e) = ToFollowerAfterContact l"
  "sr_effects (to_follower_after_contact l e) = e"
  "sr_transition (to_precandidate e) = ToPreCandidate" "sr_effects (to_precandidate e) = e"
  "sr_transition (to_candidate e) = ToCandidate" "sr_effects (to_candidate e) = e"
  "sr_transition (to_leader e) = ToLeader" "sr_effects (to_leader e) = e"
  by (simp_all add: stay_def sr_none_def to_follower_def to_follower_after_contact_def
      to_precandidate_def to_candidate_def to_leader_def)

end
