(* ===== verification/Raft_Core.thy ===== *)
theory Raft_Core
  imports Raft_Event
begin

unbundle bit_operations_syntax

text \<open>
  The state that all roles share (\<open>consensus/cloud9-raft/src/raft/core.rs\<close>): the static
  configuration, the persistent part (term, vote, log, bootstrap configuration), the commit
  and apply indices, logical time and the pseudo-random generator of election timeouts.
\<close>

section \<open>Data\<close>

record Config =
  cfg_id :: NodeId
  cfg_election_timeout :: "u64 \<times> u64"
  cfg_heartbeat_interval :: u64
  cfg_max_entries_per_msg :: u64
  cfg_max_uncommitted_entries :: u64
  cfg_max_uncommitted_bytes :: u64
  cfg_membership_mode :: MembershipMode
  cfg_prevote :: bool
  cfg_parallel_disk_write :: bool
  cfg_pipelining :: bool

record Persistent =
  p_term :: Term
  p_voted_for :: "NodeId option"
  p_log :: Log
  p_bootstrap_config :: Configuration

record Core =
  core_config :: Config
  persistent :: Persistent
  commit_index :: LogIndex
  last_applied :: LogIndex
  ticks :: u64
  rng :: u64

section \<open>Configuration\<close>

definition config_new :: "NodeId \<Rightarrow> Config" where
  "config_new i =
     \<lparr>cfg_id = i, cfg_election_timeout = (150, 300), cfg_heartbeat_interval = 75,
      cfg_max_entries_per_msg = 100, cfg_max_uncommitted_entries = 1024,
      cfg_max_uncommitted_bytes = 64 * 1024 * 1024, cfg_membership_mode = SingleServer,
      cfg_prevote = True, cfg_parallel_disk_write = True, cfg_pipelining = True\<rparr>"

definition with_membership_mode :: "Config \<Rightarrow> MembershipMode \<Rightarrow> Config" where
  "with_membership_mode c mode = c\<lparr>cfg_membership_mode := mode\<rparr>"

definition with_election_timeout :: "Config \<Rightarrow> u64 \<Rightarrow> u64 \<Rightarrow> Config" where
  "with_election_timeout c mn mx = c\<lparr>cfg_election_timeout := (mn, mx)\<rparr>"

definition with_heartbeat_interval :: "Config \<Rightarrow> u64 \<Rightarrow> Config" where
  "with_heartbeat_interval c interval = c\<lparr>cfg_heartbeat_interval := interval\<rparr>"

definition with_prevote :: "Config \<Rightarrow> bool \<Rightarrow> Config" where
  "with_prevote c enabled = c\<lparr>cfg_prevote := enabled\<rparr>"

definition with_parallel_disk_write :: "Config \<Rightarrow> bool \<Rightarrow> Config" where
  "with_parallel_disk_write c enabled = c\<lparr>cfg_parallel_disk_write := enabled\<rparr>"

definition with_pipelining :: "Config \<Rightarrow> bool \<Rightarrow> Config" where
  "with_pipelining c enabled = c\<lparr>cfg_pipelining := enabled\<rparr>"

definition persistent_default :: Persistent where
  "persistent_default =
     \<lparr>p_term = 0, p_voted_for = None, p_log = log_default,
      p_bootstrap_config = config_default\<rparr>"

section \<open>Construction and accessors\<close>

definition initial_rng :: "Config \<Rightarrow> u64" where
  "initial_rng cfg = node_raw (cfg_id cfg) * 0x0005DEECE66D + 0xB"

definition core_restore :: "Config \<Rightarrow> Persistent \<Rightarrow> Core" where
  "core_restore cfg p =
     \<lparr>core_config = cfg, persistent = p, commit_index = 0, last_applied = 0, ticks = 0,
      rng = initial_rng cfg\<rparr>"

definition core_new :: "Config \<Rightarrow> NodeId list \<Rightarrow> Core" where
  "core_new cfg vs =
     \<lparr>core_config = cfg,
      persistent = persistent_default\<lparr>p_bootstrap_config := config_simple vs\<rparr>,
      commit_index = 0, last_applied = 0, ticks = 0, rng = initial_rng cfg\<rparr>"

definition core_id :: "Core \<Rightarrow> NodeId" where
  "core_id c = cfg_id (core_config c)"

definition core_term :: "Core \<Rightarrow> Term" where
  "core_term c = p_term (persistent c)"

definition core_log :: "Core \<Rightarrow> Log" where
  "core_log c = p_log (persistent c)"

text \<open>\<open>core.log_mut()\<close>: run a mutation on the log.\<close>

definition log_mut :: "(Log \<Rightarrow> Log) \<Rightarrow> Core \<Rightarrow> Core" where
  "log_mut f c = c\<lparr>persistent := (persistent c)\<lparr>p_log := f (p_log (persistent c))\<rparr>\<rparr>"

abbreviation voted_for :: "Core \<Rightarrow> NodeId option" where
  "voted_for c \<equiv> p_voted_for (persistent c)"

section \<open>Admission control\<close>

fun command_len :: "EntryPayload \<Rightarrow> nat option" where
  "command_len (CommandEntry cmd) = Some (length (command_bytes cmd))"
| "command_len (ConfigEntry cfg) = None"

fun sum_lengths :: "u64 \<Rightarrow> nat list \<Rightarrow> u64 option" where
  "sum_lengths acc [] = Some acc"
| "sum_lengths acc (n # ns) =
     (case u64_try_from n of
        None \<Rightarrow> None
      | Some bytes \<Rightarrow> Option.bind (checked_add acc bytes) (\<lambda>acc'. sum_lengths acc' ns))"

definition proposal_limit_exceeded :: "Core \<Rightarrow> Command \<Rightarrow> bool option" where
  "proposal_limit_exceeded c cmd =
     (let last = last_index (core_log c) in
      if \<not> commit_index c \<le> last then None
      else do {
        es \<leftarrow> log_slice (core_log c) (commit_index c + 1) last;
        Some (case u64_try_from (length es) of
                None \<Rightarrow> True
              | Some uncommitted_entries \<Rightarrow>
                  if uncommitted_entries \<ge> cfg_max_uncommitted_entries (core_config c) then True
                  else (case sum_lengths 0
                               (List.map_filter (\<lambda>e. command_len (entry_payload e)) es
                                @ [length (command_bytes cmd)]) of
                          None \<Rightarrow> True
                        | Some bytes \<Rightarrow> bytes > cfg_max_uncommitted_bytes (core_config c)))
      })"

section \<open>Elections\<close>

definition core_config_at :: "Core \<Rightarrow> LogIndex \<Rightarrow> Configuration" where
  "core_config_at c index =
     unwrap_or (log_config_at (core_log c) index) (p_bootstrap_config (persistent c))"

definition effective_config :: "Core \<Rightarrow> Configuration" where
  "effective_config c = core_config_at c (last_index (core_log c))"

definition has_pending_config :: "Core \<Rightarrow> bool" where
  "has_pending_config c \<longleftrightarrow> log_pending_config_index (core_log c) (commit_index c) \<noteq> None"

definition core_pending_config_index :: "Core \<Rightarrow> LogIndex option" where
  "core_pending_config_index c = log_pending_config_index (core_log c) (commit_index c)"

definition core_is_voter :: "Core \<Rightarrow> bool" where
  "core_is_voter c \<longleftrightarrow> is_voter (effective_config c) (core_id c)"

text \<open>The flag that \<open>maybe_update_term\<close> returns comes first.\<close>

definition maybe_update_term :: "Core \<Rightarrow> Term \<Rightarrow> bool \<times> Core" where
  "maybe_update_term c t =
     (if t > p_term (persistent c)
      then (True, c\<lparr>persistent := (persistent c)\<lparr>p_term := t, p_voted_for := None\<rparr>\<rparr>)
      else (False, c))"

definition start_election :: "Core \<Rightarrow> Core" where
  "start_election c =
     (let can_vote_for_self = core_is_voter c in
      c\<lparr>persistent := (persistent c)
          \<lparr>p_term := p_term (persistent c) + 1,
           p_voted_for := (if can_vote_for_self then Some (core_id c) else None)\<rparr>\<rparr>)"

definition vote_for :: "Core \<Rightarrow> NodeId \<Rightarrow> Core" where
  "vote_for c candidate = c\<lparr>persistent := (persistent c)\<lparr>p_voted_for := Some candidate\<rparr>\<rparr>"

definition can_vote_for :: "Core \<Rightarrow> NodeId \<Rightarrow> bool" where
  "can_vote_for c candidate \<longleftrightarrow> voted_for c = None \<or> voted_for c = Some candidate"

text \<open>The lexicographic order on pairs of Rust.\<close>

definition log_is_up_to_date :: "Core \<Rightarrow> Term \<Rightarrow> LogIndex \<Rightarrow> bool" where
  "log_is_up_to_date c lt li \<longleftrightarrow>
     (let our_term = last_term (core_log c); our_index = last_index (core_log c)
      in lt > our_term \<or> (lt = our_term \<and> li \<ge> our_index))"

definition xorshift :: "u64 \<Rightarrow> u64" where
  "xorshift r0 =
     (let r1 = r0 XOR push_bit 13 r0;
          r2 = r1 XOR drop_bit 7 r1
      in r2 XOR push_bit 17 r2)"

definition rand :: "Core \<Rightarrow> u64 \<times> Core" where
  "rand c = (let r = xorshift (rng c) in (r, c\<lparr>rng := r\<rparr>))"

text \<open>\<open>None\<close>: the remainder by zero when the timeout range is empty.\<close>

definition random_election_timeout :: "Core \<Rightarrow> (u64 \<times> Core) option" where
  "random_election_timeout c =
     (case cfg_election_timeout (core_config c) of (mn, mx) \<Rightarrow>
        (case rand c of (r, c') \<Rightarrow>
           if mx - mn = 0 then None else Some (mn + r mod (mx - mn), c')))"

text \<open>The generator on integers, which the evaluator computes.\<close>

lemma xorshift_left:
  "uint (r XOR push_bit k r) = uint r XOR take_bit 64 (push_bit k (uint r))" for r :: u64
  by (simp add: unsigned_xor_eq unsigned_push_bit_eq)

lemma xorshift_right: "uint (r XOR drop_bit k r) = uint r XOR drop_bit k (uint r)" for r :: u64
proof -
  have "take_bit 64 (uint r) = uint r"
    using uint_lt2p [of r] by (simp add: take_bit_int_eq_self)
  then show ?thesis by (simp add: unsigned_xor_eq unsigned_drop_bit_eq)
qed

lemma xorshift_code [code]:
  "xorshift r =
     (let r0 = uint r; r1 = r0 XOR take_bit 64 (push_bit 13 r0); r2 = r1 XOR drop_bit 7 r1
      in word_of_int (r2 XOR take_bit 64 (push_bit 17 r2)))"
  unfolding xorshift_def Let_def
  by (simp only: xorshift_left [symmetric] xorshift_right [symmetric] word_of_int_uint)

section \<open>Accessors under update\<close>

lemma core_upd [simp]:
  "core_id (c\<lparr>ticks := t\<rparr>) = core_id c" "core_term (c\<lparr>ticks := t\<rparr>) = core_term c"
  "core_log (c\<lparr>ticks := t\<rparr>) = core_log c"
  "core_id (c\<lparr>rng := r\<rparr>) = core_id c" "core_term (c\<lparr>rng := r\<rparr>) = core_term c"
  "core_log (c\<lparr>rng := r\<rparr>) = core_log c"
  "core_id (c\<lparr>commit_index := i\<rparr>) = core_id c" "core_term (c\<lparr>commit_index := i\<rparr>) = core_term c"
  "core_log (c\<lparr>commit_index := i\<rparr>) = core_log c"
  "core_id (c\<lparr>last_applied := i\<rparr>) = core_id c" "core_term (c\<lparr>last_applied := i\<rparr>) = core_term c"
  "core_log (c\<lparr>last_applied := i\<rparr>) = core_log c"
  by (simp_all add: core_id_def core_term_def core_log_def)

lemma log_mut_simps [simp]:
  "core_config (log_mut f c) = core_config c"
  "core_id (log_mut f c) = core_id c" "core_term (log_mut f c) = core_term c"
  "core_log (log_mut f c) = f (core_log c)" "voted_for (log_mut f c) = voted_for c"
  "p_bootstrap_config (persistent (log_mut f c)) = p_bootstrap_config (persistent c)"
  "commit_index (log_mut f c) = commit_index c" "last_applied (log_mut f c) = last_applied c"
  "ticks (log_mut f c) = ticks c"
  by (simp_all add: log_mut_def core_id_def core_term_def core_log_def)

lemma vote_for_simps [simp]:
  "core_config (vote_for c i) = core_config c"
  "core_id (vote_for c i) = core_id c" "core_term (vote_for c i) = core_term c"
  "core_log (vote_for c i) = core_log c" "voted_for (vote_for c i) = Some i"
  "p_bootstrap_config (persistent (vote_for c i)) = p_bootstrap_config (persistent c)"
  by (simp_all add: vote_for_def core_id_def core_term_def core_log_def)

lemma maybe_update_term_simps [simp]:
  "core_config (snd (maybe_update_term c t)) = core_config c"
  "core_id (snd (maybe_update_term c t)) = core_id c"
  "core_term (snd (maybe_update_term c t)) = max (core_term c) t"
  "core_log (snd (maybe_update_term c t)) = core_log c"
  "p_bootstrap_config (persistent (snd (maybe_update_term c t))) = p_bootstrap_config (persistent c)"
  "commit_index (snd (maybe_update_term c t)) = commit_index c"
  "ticks (snd (maybe_update_term c t)) = ticks c"
  "fst (maybe_update_term c t) \<longleftrightarrow> core_term c < t"
  by (auto simp: maybe_update_term_def core_id_def core_term_def core_log_def max_def)

lemma voted_for_maybe_update_term:
  "voted_for (snd (maybe_update_term c t)) = (if core_term c < t then None else voted_for c)"
  by (simp add: maybe_update_term_def core_term_def)

lemma start_election_simps [simp]:
  "core_config (start_election c) = core_config c"
  "core_id (start_election c) = core_id c"
  "core_term (start_election c) = core_term c + 1"
  "core_log (start_election c) = core_log c"
  "p_bootstrap_config (persistent (start_election c)) = p_bootstrap_config (persistent c)"
  "voted_for (start_election c) = (if core_is_voter c then Some (core_id c) else None)"
  "commit_index (start_election c) = commit_index c"
  "ticks (start_election c) = ticks c"
  by (simp_all add: start_election_def core_id_def core_term_def core_log_def Let_def)

lemma effective_config_cong:
  "core_log c' = core_log c \<Longrightarrow>
   p_bootstrap_config (persistent c') = p_bootstrap_config (persistent c) \<Longrightarrow>
   effective_config c' = effective_config c"
  by (simp add: effective_config_def core_config_at_def)

lemma effective_config_upd [simp]:
  "effective_config (c\<lparr>ticks := t\<rparr>) = effective_config c"
  "effective_config (c\<lparr>rng := r\<rparr>) = effective_config c"
  "effective_config (c\<lparr>commit_index := i\<rparr>) = effective_config c"
  "effective_config (c\<lparr>last_applied := i\<rparr>) = effective_config c"
  "effective_config (vote_for c j) = effective_config c"
  "effective_config (start_election c) = effective_config c"
  "effective_config (snd (maybe_update_term c t)) = effective_config c"
  by (rule effective_config_cong; simp)+

lemma core_is_voter_upd [simp]:
  "core_is_voter (c\<lparr>rng := r\<rparr>) = core_is_voter c"
  "core_is_voter (start_election c) = core_is_voter c"
  by (simp_all add: core_is_voter_def)

section \<open>The pseudo-random generator\<close>

lemma random_election_timeout_SomeD:
  "random_election_timeout c = Some (t, c') \<Longrightarrow> c' = c\<lparr>rng := xorshift (rng c)\<rparr>"
  by (auto simp: random_election_timeout_def rand_def Let_def split: prod.splits if_splits)

lemma random_election_timeout_bounds:
  assumes "cfg_election_timeout (core_config c) = (mn, mx)" "mn < mx"
  shows "\<exists>t. random_election_timeout c = Some (t, c\<lparr>rng := xorshift (rng c)\<rparr>) \<and> mn \<le> t \<and> t < mx"
proof -
  let ?r = "xorshift (rng c) mod (mx - mn)"
  have d: "unat (mx - mn) = unat mx - unat mn" and lt: "unat mn < unat mx"
    using assms(2) by (simp_all add: unat_diff_u64 less_imp_le flip: word_less_nat_alt)
  have "unat ?r < unat (mx - mn)" using d lt by (simp add: unat_mod)
  moreover from this have "unat (mn + ?r) = unat mn + unat ?r"
    using d unat_lt_2p64 [of mx] by (intro unat_add_u64) linarith
  ultimately have "mn \<le> mn + ?r" "mn + ?r < mx"
    using d lt by (simp_all add: word_le_nat_alt word_less_nat_alt)
  moreover have "mx - mn \<noteq> 0" using assms(2) by auto
  ultimately show ?thesis
    using assms(1) by (simp add: random_election_timeout_def rand_def Let_def)
qed

section \<open>How a core may evolve\<close>

text \<open>
  The part of the contract of every operation that election safety rests on: identity and
  bootstrap configuration are fixed, the term never decreases, and within a term a vote once
  cast is never changed.
\<close>

definition core_evolves :: "Core \<Rightarrow> Core \<Rightarrow> bool" where
  "core_evolves c c' \<longleftrightarrow>
     core_config c' = core_config c \<and>
     p_bootstrap_config (persistent c') = p_bootstrap_config (persistent c) \<and>
     core_term c \<le> core_term c' \<and>
     (core_term c' = core_term c \<longrightarrow> voted_for c = None \<or> voted_for c' = voted_for c)"

fun grants_vote :: "Payload \<Rightarrow> bool" where
  "grants_vote (VoteResponse r) = vresp_granted r"
| "grants_vote _ = False"

text \<open>Every message carries the sender's identity, and a granted vote is sent in the term in
  which the sender's vote is recorded for the recipient.\<close>

definition honest :: "Core \<Rightarrow> Effects \<Rightarrow> bool" where
  "honest c e \<longleftrightarrow>
     (\<forall>m \<in> set (eff_messages e). msg_from m = core_id c \<and>
        (grants_vote (msg_payload m) \<longrightarrow>
           msg_term m = core_term c \<and> voted_for c = Some (msg_to m)))"

text \<open>Effects that cast no vote.\<close>

definition quiet :: "NodeId \<Rightarrow> Effects \<Rightarrow> bool" where
  "quiet i e \<longleftrightarrow>
     (\<forall>m \<in> set (eff_messages e). msg_from m = i \<and> \<not> grants_vote (msg_payload m))"

lemma core_evolves_refl [simp]: "core_evolves c c"
  by (simp add: core_evolves_def)

lemma core_evolves_trans: "core_evolves a b \<Longrightarrow> core_evolves b c \<Longrightarrow> core_evolves a c"
  unfolding core_evolves_def by (auto intro: order_trans)

lemma core_evolves_id: "core_evolves c c' \<Longrightarrow> core_id c' = core_id c"
  by (simp add: core_evolves_def core_id_def)

lemma core_evolves_upd [simp]:
  "core_evolves c (c'\<lparr>ticks := t\<rparr>) = core_evolves c c'"
  "core_evolves c (c'\<lparr>rng := r\<rparr>) = core_evolves c c'"
  "core_evolves c (c'\<lparr>commit_index := i\<rparr>) = core_evolves c c'"
  "core_evolves c (c'\<lparr>last_applied := i\<rparr>) = core_evolves c c'"
  "core_evolves c (log_mut f c') = core_evolves c c'"
  by (simp_all add: core_evolves_def)

lemma core_evolves_maybe_update_term [simp]: "core_evolves c (snd (maybe_update_term c t))"
  by (auto simp: core_evolves_def voted_for_maybe_update_term max_def)

lemma core_evolves_start_election:
  "core_term c \<noteq> u64_max \<Longrightarrow> core_evolves c (start_election c)"
  using u64_less_inc [of "core_term c"] by (auto simp: core_evolves_def)

lemma core_evolves_vote_for: "can_vote_for c i \<Longrightarrow> core_evolves c (vote_for c i)"
  by (auto simp: core_evolves_def can_vote_for_def)

lemma quiet_simps [simp]:
  "quiet i eff_none" "quiet i (with_persist e) = quiet i e"
  "quiet i (with_send_snapshot e s) = quiet i e"
  "quiet i (eff_merge e e') \<longleftrightarrow> quiet i e \<and> quiet i e'"
  "quiet i (with_message e m) \<longleftrightarrow>
     quiet i e \<and> msg_from m = i \<and> \<not> grants_vote (msg_payload m)"
  "quiet i (with_messages e ms) \<longleftrightarrow>
     quiet i e \<and> (\<forall>m \<in> set ms. msg_from m = i \<and> \<not> grants_vote (msg_payload m))"
  by (auto simp: quiet_def)

lemma honest_simps [simp]:
  "honest c eff_none" "honest c (with_persist e) = honest c e"
  "honest c (eff_merge e e') \<longleftrightarrow> honest c e \<and> honest c e'"
  by (auto simp: honest_def)

lemma quiet_honest: "quiet (core_id c) e \<Longrightarrow> honest c e"
  by (simp add: quiet_def honest_def)

section \<open>The contract of a role\<close>

text \<open>
  What the node relies on when it hands an event to a role, and what it needs to compose the
  role's answer with a transition: the core evolves, the messages are honest, a role that asks
  to be replaced has cast no vote, and every change of the persistent state is announced by
  the \<open>persist\<close> flag. For the log this has an exception, an \<open>AppendRequest\<close> that contradicts the
  snapshot; for the term, the vote and the bootstrap configuration it has none.
\<close>

definition step_ok :: "Core \<Rightarrow> Core \<Rightarrow> StepResult \<Rightarrow> bool" where
  "step_ok c c' r \<longleftrightarrow>
     core_evolves c c' \<and> honest c' (sr_effects r) \<and>
     (sr_transition r \<noteq> Stay \<longrightarrow> quiet (core_id c) (sr_effects r))"

definition persisted :: "Core \<Rightarrow> Core \<Rightarrow> Effects \<Rightarrow> bool" where
  "persisted c c' e \<longleftrightarrow> persistent c' = persistent c \<or> eff_persist e"

definition log_only :: "Core \<Rightarrow> Core \<Rightarrow> Effects \<Rightarrow> bool" where
  "log_only c c' e \<longleftrightarrow>
     persistent c' = (persistent c)\<lparr>p_log := p_log (persistent c')\<rparr> \<or> eff_persist e"

lemma persisted_log_only: "persisted c c' e \<Longrightarrow> log_only c c' e"
  by (auto simp: persisted_def log_only_def)

text \<open>The entries of an \<open>AppendRequest\<close> agree with the follower's snapshot. One that does not, an
  entry at the index of the snapshot with another term, makes \<open>handle_append_request\<close> clear the log
  without raising the flag.\<close>

definition agrees_with_snapshot :: "Log \<Rightarrow> Event \<Rightarrow> bool" where
  "agrees_with_snapshot lg ev =
     (case ev of
        MessageEvent m \<Rightarrow>
          (case msg_payload m of
             AppendRequest req \<Rightarrow>
               (\<forall>e \<in> set (areq_entries req). entry_index e = snapshot_index lg \<longrightarrow>
                  entry_index e = 0 \<or> snapshot_term lg = 0 \<or> snapshot_term lg = entry_term e)
           | _ \<Rightarrow> True)
      | _ \<Rightarrow> True)"

text \<open>The terms in which a role may ask for a campaign: its own, or that of the message.\<close>

definition event_terms :: "Core \<Rightarrow> Event \<Rightarrow> Term set" where
  "event_terms c ev =
     insert (core_term c) (case ev of MessageEvent m \<Rightarrow> {msg_term m} | _ \<Rightarrow> {})"

locale raft_role =
  fixes step :: "'s \<Rightarrow> Core \<Rightarrow> Event \<Rightarrow> ('s \<times> Core \<times> StepResult) option"
  assumes role_step_ok: "step s c ev = Some (s', c', r) \<Longrightarrow> step_ok c c' r"
    and role_persists:
      "step s c ev = Some (s', c', r) \<Longrightarrow> wf_log (core_log c) \<Longrightarrow>
         agrees_with_snapshot (core_log c) ev \<Longrightarrow> persisted c c' (sr_effects r)"
    and role_log_only: "step s c ev = Some (s', c', r) \<Longrightarrow> log_only c c' (sr_effects r)"
    and role_campaign_term:
      "step s c ev = Some (s', c', r) \<Longrightarrow> sr_transition r \<in> {ToPreCandidate, ToCandidate} \<Longrightarrow>
         core_term c' \<in> event_terms c ev"
begin

text \<open>An event that ends in \<open>Stay\<close>, and one that is followed by a transition.\<close>

lemma contract_stay:
  assumes "step s c ev = Some (s', c', r)"
  shows "core_evolves c c' \<and> honest c' (sr_effects r)"
  using role_step_ok [OF assms] by (simp add: step_ok_def)

lemma contract_then:
  assumes "step s c ev = Some (s', c', r)" "sr_transition r \<noteq> Stay"
    and "core_evolves c' c''" "honest c'' e"
  shows "core_evolves c c'' \<and> honest c'' (eff_merge (sr_effects r) e)"
proof -
  have c': "core_evolves c c'" "quiet (core_id c) (sr_effects r)"
    using role_step_ok [OF assms(1)] assms(2) by (simp_all add: step_ok_def)
  then have "core_evolves c c''" using assms(3) core_evolves_trans by blast
  moreover from this c' have "honest c'' (sr_effects r)"
    by (intro quiet_honest) (simp add: core_evolves_id)
  ultimately show ?thesis using assms(4) by simp
qed

lemma persisted_then:
  assumes "step s c ev = Some (s', c', r)" "wf_log (core_log c)"
    "agrees_with_snapshot (core_log c) ev" "persisted c' c'' e"
  shows "persisted c c'' (eff_merge (sr_effects r) e)"
  using role_persists [OF assms(1-3)] assms(4) by (auto simp: persisted_def)

lemma log_only_then:
  assumes "step s c ev = Some (s', c', r)" "persisted c' c'' e"
  shows "log_only c c'' (eff_merge (sr_effects r) e)"
  using role_log_only [OF assms(1)] assms(2) by (auto simp: persisted_def log_only_def)

end

lemma step_okI:
  "core_evolves c c' \<Longrightarrow> quiet (core_id c) (sr_effects r) \<Longrightarrow> step_ok c c' r"
  by (simp add: step_ok_def quiet_honest core_evolves_id)

lemma step_ok_after_update:
  assumes "step_ok (snd (maybe_update_term c t)) c' r"
  shows "step_ok c c' r"
  using assms core_evolves_trans [OF core_evolves_maybe_update_term, of c t c']
  by (simp add: step_ok_def)

lemma step_ok_with_persist [simp]:
  "step_ok c c' (r\<lparr>sr_effects := with_persist (sr_effects r)\<rparr>) = step_ok c c' r"
  by (simp add: step_ok_def)

lemma step_ok_core_upd [simp]:
  "step_ok (c\<lparr>rng := x\<rparr>) c' r = step_ok c c' r"
  "step_ok (c\<lparr>ticks := x\<rparr>) c' r = step_ok c c' r"
  by (simp_all add: step_ok_def core_evolves_def)

section \<open>Properties\<close>

text \<open>A voter of three with a compacted log, on which the properties of the roles are
  exercised.\<close>

definition sample_core :: Core where
  "sample_core = core_new (config_new (NodeId 1)) [NodeId 1, NodeId 2, NodeId 3]
     \<lparr>persistent := \<lparr>p_term = 2, p_voted_for = None, p_log = sample_log,
        p_bootstrap_config = config_simple [NodeId 1, NodeId 2, NodeId 3]\<rparr>, commit_index := 6\<rparr>"

text \<open>Election timeouts. For a timeout range \<open>(min, max)\<close> with \<open>min < max\<close> the drawn timeout
  always exists and lies in \<open>min ..< max\<close>, for every state of the generator and although the
  sum is computed in wrapping 64-bit arithmetic.\<close>

theorem election_timeout_in_range:
  assumes "cfg_election_timeout (core_config c) = (mn, mx)" "mn < mx"
  shows "\<exists>t c'. random_election_timeout c = Some (t, c') \<and> mn \<le> t \<and> t < mx \<and>
    persistent c' = persistent c"
  using random_election_timeout_bounds [OF assms] by auto

theorem election_timeout_in_range_witness:
  "\<exists>t c'. random_election_timeout (core_new (config_new (NodeId 7)) []) = Some (t, c') \<and>
     150 \<le> t \<and> t < 300"
proof -
  have "cfg_election_timeout (core_config (core_new (config_new (NodeId 7)) [])) = (150, 300)"
    "(150 :: u64) < 300"
    by code_simp+
  from election_timeout_in_range [OF this] show ?thesis by blast
qed

definition uncommitted :: "Core \<Rightarrow> Entry list" where
  "uncommitted c = filter (\<lambda>e. commit_index c < entry_index e) (entries (core_log c))"

definition uncommitted_bytes :: "Core \<Rightarrow> nat" where
  "uncommitted_bytes c =
     sum_list (List.map_filter (\<lambda>e. command_len (entry_payload e)) (uncommitted c))"

lemma sum_lengths_eq:
  "sum_lengths acc ns =
     (if unat acc + sum_list ns < 18446744073709551616 then Some (acc + of_nat (sum_list ns))
      else None)"
proof (induction ns arbitrary: acc)
  case Nil
  then show ?case by (simp add: unat_lt_2p64)
next
  case (Cons n ns)
  show ?case
  proof (cases "n < 18446744073709551616 \<and> unat acc + n < 18446744073709551616")
    case True
    then have "unat (acc + of_nat n) = unat acc + n"
      using unat_add_u64 [of acc "of_nat n"] by (simp add: unat_of_nat_u64)
    with True show ?thesis
      by (simp add: Cons.IH u64_try_from_alt checked_add_alt unat_of_nat_u64 add.assoc)
  next
    case False
    then show ?thesis by (auto simp: u64_try_from_alt checked_add_alt unat_of_nat_u64)
  qed
qed

lemma index_bounds_last:
  assumes "wf_log l" "e \<in> set (entries l)"
  shows "entry_index e \<le> last_index l"
  using assms log_get_iff_mem log_get_SomeD(3) by metis

lemma proposal_limit_exceeded_eq:
  assumes "wf_log (core_log c)" "commit_index c \<le> last_index (core_log c)"
    "commit_index c \<noteq> u64_max"
  shows "proposal_limit_exceeded c cmd =
    Some (unat (cfg_max_uncommitted_entries (core_config c)) \<le> length (uncommitted c) \<or>
      unat (cfg_max_uncommitted_bytes (core_config c)) <
        uncommitted_bytes c + length (command_bytes cmd))"
proof -
  let ?l = "core_log c"
  have es: "log_slice ?l (commit_index c + 1) (last_index ?l) = Some (uncommitted c)"
    unfolding log_slice_eq [OF assms(1)] uncommitted_def
    using index_bounds_last [OF assms(1)] u64_inc_le_iff [OF assms(3)]
    by (auto intro!: filter_cong)
  have "length (uncommitted c) \<le> length (entries ?l)" by (simp add: uncommitted_def)
  then have len: "length (uncommitted c) < 18446744073709551616"
    using wf_log_room [OF assms(1)] by linarith
  let ?total = "uncommitted_bytes c + length (command_bytes cmd)"
  have sum: "sum_lengths 0 (List.map_filter (\<lambda>e. command_len (entry_payload e)) (uncommitted c) @
      [length (command_bytes cmd)]) =
      (if ?total < 18446744073709551616 then Some (of_nat ?total) else None)"
    by (simp add: sum_lengths_eq uncommitted_bytes_def)
  show ?thesis
    using assms(2) len unat_le_2p64 [of "cfg_max_uncommitted_bytes (core_config c)"]
    by (auto simp: proposal_limit_exceeded_def Let_def es sum u64_try_from_alt word_le_nat_alt
        word_less_nat_alt unat_of_nat_u64 simp del: of_nat_add)
qed

text \<open>C26: admission control. The check does not panic, and it refuses a command exactly when the
  number of uncommitted entries has reached its limit or the uncommitted command bytes with
  those of the new command exceed theirs. Sums beyond 64 bits count as exceeding.\<close>

theorem admission_limit_exact:
  assumes "wf_log (core_log c)" "commit_index c \<le> last_index (core_log c)"
    "commit_index c \<noteq> u64_max"
  shows "proposal_limit_exceeded c cmd =
    Some (unat (cfg_max_uncommitted_entries (core_config c)) \<le> length (uncommitted c) \<or>
      unat (cfg_max_uncommitted_bytes (core_config c)) <
        uncommitted_bytes c + length (command_bytes cmd))"
  using assms by (rule proposal_limit_exceeded_eq)

theorem admission_limit_exact_witness:
  "let c = (core_new ((config_new (NodeId 1))\<lparr>cfg_max_uncommitted_bytes := 4\<rparr>) [])
             \<lparr>persistent := persistent_default\<lparr>p_log := sample_log\<rparr>, commit_index := 6\<rparr>
   in proposal_limit_exceeded c (Command [9, 9]) = Some False \<and>
      proposal_limit_exceeded c (Command [9, 9, 9]) = Some True"
proof -
  let ?c = "(core_new ((config_new (NodeId 1))\<lparr>cfg_max_uncommitted_bytes := 4\<rparr>) [])
    \<lparr>persistent := persistent_default\<lparr>p_log := sample_log\<rparr>, commit_index := 6\<rparr>"
  have "wf_log (core_log ?c)" "commit_index ?c \<le> last_index (core_log ?c)"
    "commit_index ?c \<noteq> u64_max"
    by code_simp+
  note r = admission_limit_exact [OF this]
  show ?thesis unfolding Let_def r by code_simp
qed

end
