(* ===== verification/Raft_Follower.thy ===== *)
theory Raft_Follower
  imports Raft_Core
begin

text \<open>
  The follower role (\<open>consensus/cloud9-raft/src/raft/follower.rs\<close>). An operation takes the
  role state and the core and returns both with its step result; \<open>None\<close> is a panic.
\<close>

record Follower =
  f_leader :: "NodeId option"
  f_election_deadline :: u64
  f_last_contact_tick :: "u64 option"

definition follower_new :: "Core \<Rightarrow> NodeId option \<Rightarrow> (Follower \<times> Core) option" where
  "follower_new c leader = do {
     (timeout, c') \<leftarrow> random_election_timeout c;
     Some (\<lparr>f_leader = leader, f_election_deadline = ticks c' + timeout,
            f_last_contact_tick = None\<rparr>, c')
   }"

definition after_leader_contact :: "Core \<Rightarrow> NodeId option \<Rightarrow> (Follower \<times> Core) option" where
  "after_leader_contact c leader = do {
     (f, c') \<leftarrow> follower_new c leader;
     Some (f\<lparr>f_last_contact_tick := Some (ticks c')\<rparr>, c')
   }"

definition follower_ticks_until_deadline :: "Follower \<Rightarrow> u64 \<Rightarrow> u64" where
  "follower_ticks_until_deadline f now = saturating_sub (f_election_deadline f) now"

definition follower_reset_deadline :: "Follower \<Rightarrow> Core \<Rightarrow> (Follower \<times> Core) option" where
  "follower_reset_deadline f c = do {
     (timeout, c') \<leftarrow> random_election_timeout c;
     Some (f\<lparr>f_election_deadline := ticks c' + timeout\<rparr>, c')
   }"

definition follower_record_contact :: "Follower \<Rightarrow> Core \<Rightarrow> Follower" where
  "follower_record_contact f c = f\<lparr>f_last_contact_tick := Some (ticks c)\<rparr>"

definition follower_recently_heard :: "Follower \<Rightarrow> Core \<Rightarrow> bool" where
  "follower_recently_heard f c =
     (if f_leader f = None then False
      else case f_last_contact_tick f of
             None \<Rightarrow> False
           | Some t \<Rightarrow> saturating_sub (ticks c) t < fst (cfg_election_timeout (core_config c)))"

text \<open>A reply of this node: \<open>Message \{ from: core.id(), to, term: core.term(), payload \}\<close>.\<close>

definition reply :: "Core \<Rightarrow> NodeId \<Rightarrow> Payload \<Rightarrow> Message" where
  "reply c to p = \<lparr>msg_from = core_id c, msg_to = to, msg_term = core_term c, msg_payload = p\<rparr>"

definition follower_handle_tick ::
  "Follower \<Rightarrow> Core \<Rightarrow> (Follower \<times> Core \<times> StepResult) option" where
  "follower_handle_tick f c =
     (let c = c\<lparr>ticks := ticks c + 1\<rparr> in
      Some (f, c,
        if ticks c \<ge> f_election_deadline f
        then (if cfg_prevote (core_config c) then to_precandidate eff_none
              else to_candidate eff_none)
        else sr_none))"

definition follower_handle_vote_request ::
  "Follower \<Rightarrow> Core \<Rightarrow> NodeId \<Rightarrow> VoteRequest \<Rightarrow> (Follower \<times> Core \<times> StepResult) option" where
  "follower_handle_vote_request f c from req =
     (let dominated = log_is_up_to_date c (vreq_last_log_term req) (vreq_last_log_index req);
          candidate_is_voter = is_voter (effective_config c) from;
          can_vote = can_vote_for c from;
          granted = (candidate_is_voter \<and> can_vote \<and> dominated)
      in do {
        (f, c, effects) \<leftarrow>
          (if granted then do {
             (f, c) \<leftarrow> follower_reset_deadline f (vote_for c from);
             Some (f, c, with_persist eff_none)
           } else Some (f, c, eff_none));
        Some (f, c, stay (with_message effects
          (reply c from (VoteResponse \<lparr>vresp_granted = granted\<rparr>))))
      })"

text \<open>The loop over the request's entries: truncate at a conflict, append what is new.\<close>

definition append_one :: "Entry \<Rightarrow> Core \<times> bool \<Rightarrow> Core \<times> bool" where
  "append_one e s =
     (case s of (c, persist) \<Rightarrow>
        let existing_term = term_at (core_log c) (entry_index e);
            c = (if existing_term \<noteq> 0 \<and> existing_term \<noteq> entry_term e
                 then log_mut (truncate_after (entry_index e - 1)) c else c)
        in if entry_index e > last_index (core_log c)
           then (log_mut (log_append \<lparr>entry_term = entry_term e, entry_index = entry_index e,
                                       entry_payload = entry_payload e\<rparr>) c, True)
           else (c, persist))"

definition follower_handle_append_request ::
  "Follower \<Rightarrow> Core \<Rightarrow> NodeId \<Rightarrow> AppendRequest \<Rightarrow> (Follower \<times> Core \<times> StepResult) option" where
  "follower_handle_append_request f c from req = do {
     (f, c) \<leftarrow> follower_reset_deadline
                 (follower_record_contact (f\<lparr>f_leader := Some from\<rparr>) c) c;
     if areq_prev_log_index req > 0 \<and>
        term_at (core_log c) (areq_prev_log_index req) \<noteq> areq_prev_log_term req
     then Some (f, c, stay (with_message eff_none (reply c from (AppendResponse
            \<lparr>aresp_success = False, aresp_last_log_index = last_index (core_log c)\<rparr>))))
     else
       (case fold append_one (areq_entries req) (c, False) of (c, persist) \<Rightarrow>
          let c = (if areq_leader_commit req > commit_index c
                   then c\<lparr>commit_index := min (areq_leader_commit req) (last_index (core_log c))\<rparr>
                   else c);
              effects = (if persist then with_persist eff_none else eff_none)
          in Some (f, c, stay (with_message effects (reply c from (AppendResponse
               \<lparr>aresp_success = True, aresp_last_log_index = last_index (core_log c)\<rparr>)))))
   }"

definition follower_handle_read_index_request ::
  "Follower \<Rightarrow> Core \<Rightarrow> NodeId \<Rightarrow> ReadIndexRequest \<Rightarrow> (Follower \<times> Core \<times> StepResult) option" where
  "follower_handle_read_index_request f c from req = do {
     (f, c) \<leftarrow> follower_reset_deadline
                 (follower_record_contact (f\<lparr>f_leader := Some from\<rparr>) c) c;
     Some (f, c, stay (with_message eff_none (reply c from (ReadIndexResponse
       \<lparr>riresp_id = rireq_id req, riresp_read_index = rireq_read_index req\<rparr>))))
   }"

definition follower_handle_install_snapshot ::
  "Follower \<Rightarrow> Core \<Rightarrow> NodeId \<Rightarrow> InstallSnapshotRequest \<Rightarrow>
     (Follower \<times> Core \<times> StepResult) option" where
  "follower_handle_install_snapshot f c from req = do {
     (f, c) \<leftarrow> follower_reset_deadline
                 (follower_record_contact (f\<lparr>f_leader := Some from\<rparr>) c) c;
     let index = isreq_last_included_index req;
     let respond = (\<lambda>c ok. reply c from (InstallSnapshotResponse
           \<lparr>isresp_success = ok, isresp_last_included_index = index\<rparr>));
     if index \<le> snapshot_index (core_log c)
     then Some (f, c, stay (with_message eff_none (respond c False)))
     else if index < commit_index c \<and>
             \<not> snapshot_matches_prefix (core_log c) index (isreq_last_included_term req)
     then Some (f, c, stay (with_message eff_none (respond c False)))
     else
       (let c = log_mut (install_snapshot index (isreq_last_included_term req)
                          (isreq_configuration req)) c;
            c = (if index > commit_index c then c\<lparr>commit_index := index\<rparr> else c);
            c = (if index > last_applied c then c\<lparr>last_applied := index\<rparr> else c)
        in Some (f, c, stay (with_message (with_persist eff_none) (respond c True))))
   }"

definition follower_reject_stale :: "Core \<Rightarrow> Message \<Rightarrow> Effects" where
  "follower_reject_stale c msg =
     (case msg_payload msg of
        VoteRequest r \<Rightarrow> with_message eff_none
          (reply c (msg_from msg) (VoteResponse \<lparr>vresp_granted = False\<rparr>))
      | AppendRequest r \<Rightarrow> with_message eff_none
          (reply c (msg_from msg) (AppendResponse
             \<lparr>aresp_success = False, aresp_last_log_index = last_index (core_log c)\<rparr>))
      | ReadIndexRequest r \<Rightarrow> with_message eff_none
          (reply c (msg_from msg) (ReadIndexResponse
             \<lparr>riresp_id = rireq_id r, riresp_read_index = rireq_read_index r\<rparr>))
      | _ \<Rightarrow> eff_none)"

definition reject_due_to_active_leader :: "Core \<Rightarrow> Message \<Rightarrow> Effects" where
  "reject_due_to_active_leader c msg =
     (case msg_payload msg of
        PreVoteRequest r \<Rightarrow> with_message eff_none
          (reply c (msg_from msg) (PreVoteResponse
             \<lparr>pvresp_term = core_term c, pvresp_granted = False\<rparr>))
      | VoteRequest r \<Rightarrow> with_message eff_none
          (reply c (msg_from msg) (VoteResponse \<lparr>vresp_granted = False\<rparr>))
      | _ \<Rightarrow> eff_none)"

definition follower_handle_prevote_request ::
  "Core \<Rightarrow> NodeId \<Rightarrow> Term \<Rightarrow> PreVoteRequest \<Rightarrow> Effects" where
  "follower_handle_prevote_request c from mt req =
     (let dominated = log_is_up_to_date c (pvreq_last_log_term req) (pvreq_last_log_index req);
          candidate_is_voter = is_voter (effective_config c) from;
          term_ok = (pvreq_next_term req > core_term c);
          granted = (candidate_is_voter \<and> term_ok \<and> dominated)
      in with_message eff_none
           \<lparr>msg_from = core_id c, msg_to = from, msg_term = mt,
            msg_payload = PreVoteResponse \<lparr>pvresp_term = core_term c, pvresp_granted = granted\<rparr>\<rparr>)"

fun is_vote_or_prevote :: "Payload \<Rightarrow> bool" where
  "is_vote_or_prevote (VoteRequest r) = True"
| "is_vote_or_prevote (PreVoteRequest r) = True"
| "is_vote_or_prevote _ = False"

fun is_append_or_read :: "Payload \<Rightarrow> bool" where
  "is_append_or_read (AppendRequest r) = True"
| "is_append_or_read (ReadIndexRequest r) = True"
| "is_append_or_read _ = False"

text \<open>The dispatch on the payload once the message's term is that of the node.\<close>

definition follower_dispatch ::
  "Follower \<Rightarrow> Core \<Rightarrow> Message \<Rightarrow> (Follower \<times> Core \<times> StepResult) option" where
  "follower_dispatch f c msg =
     (case msg_payload msg of
        VoteRequest req \<Rightarrow> follower_handle_vote_request f c (msg_from msg) req
      | AppendRequest req \<Rightarrow> follower_handle_append_request f c (msg_from msg) req
      | ReadIndexRequest req \<Rightarrow> follower_handle_read_index_request f c (msg_from msg) req
      | InstallSnapshotRequest req \<Rightarrow> follower_handle_install_snapshot f c (msg_from msg) req
      | TimeoutNow \<Rightarrow> Some (f, c, to_candidate eff_none)
      | _ \<Rightarrow> Some (f, c, sr_none))"

definition follower_on_message ::
  "Follower \<Rightarrow> Core \<Rightarrow> Message \<Rightarrow> (Follower \<times> Core \<times> StepResult) option" where
  "follower_on_message f c msg =
     (if is_vote_or_prevote (msg_payload msg) \<and> follower_recently_heard f c
      then Some (f, c, stay (reject_due_to_active_leader c msg))
      else case msg_payload msg of
        PreVoteRequest req \<Rightarrow>
          Some (f, c, stay (follower_handle_prevote_request c (msg_from msg) (msg_term msg) req))
      | _ \<Rightarrow> do {
          (f, c, term_updated) \<leftarrow>
            (if msg_term msg > core_term c then
               (case maybe_update_term c (msg_term msg) of (updated, c) \<Rightarrow> do {
                  (f, c) \<leftarrow> follower_reset_deadline f c;
                  Some (if is_append_or_read (msg_payload msg)
                        then f\<lparr>f_leader := Some (msg_from msg)\<rparr> else f, c, updated)
                })
             else Some (f, c, False));
          if msg_term msg < core_term c
          then Some (f, c, stay (follower_reject_stale c msg))
          else do {
            (f, c, r) \<leftarrow> follower_dispatch f c msg;
            Some (f, c, if term_updated
                        then r\<lparr>sr_effects := with_persist (sr_effects r)\<rparr> else r)
          }
        })"

definition follower_step ::
  "Follower \<Rightarrow> Core \<Rightarrow> Event \<Rightarrow> (Follower \<times> Core \<times> StepResult) option" where
  "follower_step f c ev =
     (case ev of
        Tick \<Rightarrow> follower_handle_tick f c
      | DiskWriteComplete i \<Rightarrow> Some (f, c, sr_none)
      | MessageEvent msg \<Rightarrow> follower_on_message f c msg)"

section \<open>The contract of the role\<close>

lemma reply_simps [simp]:
  "msg_from (reply c to p) = core_id c" "msg_to (reply c to p) = to"
  "msg_term (reply c to p) = core_term c" "msg_payload (reply c to p) = p"
  by (simp_all add: reply_def)

lemma follower_reset_deadline_SomeD:
  "follower_reset_deadline f c = Some (f', c') \<Longrightarrow> c' = c\<lparr>rng := xorshift (rng c)\<rparr>"
  by (auto simp: follower_reset_deadline_def Option.bind_eq_Some_conv
      dest: random_election_timeout_SomeD)

text \<open>The loop of \<open>handle_append_request\<close> as a function of the log alone, with the flag it
  raises.\<close>

definition drop_conflict :: "Entry \<Rightarrow> Log \<Rightarrow> Log" where
  "drop_conflict e l =
     (if term_at l (entry_index e) \<noteq> 0 \<and> term_at l (entry_index e) \<noteq> entry_term e
      then truncate_after (entry_index e - 1) l else l)"

definition append_entry :: "Entry \<Rightarrow> Log \<Rightarrow> Log" where
  "append_entry e l =
     (if entry_index e > last_index (drop_conflict e l) then log_append e (drop_conflict e l)
      else drop_conflict e l)"

fun appends_any :: "Entry list \<Rightarrow> Log \<Rightarrow> bool" where
  "appends_any [] l = False"
| "appends_any (e # es) l \<longleftrightarrow>
     entry_index e > last_index (drop_conflict e l) \<or> appends_any es (append_entry e l)"

lemma log_mut_id [simp]: "log_mut (\<lambda>l. l) c = c"
  by (simp add: log_mut_def)

lemma log_mut_comp [simp]: "log_mut f (log_mut g c) = log_mut (\<lambda>l. f (g l)) c"
  by (simp add: log_mut_def)

lemma log_mut_cong: "f (core_log c) = g (core_log c) \<Longrightarrow> log_mut f c = log_mut g c"
  by (simp add: log_mut_def core_log_def)

lemma append_one_eq:
  "append_one e (c, p) =
     (log_mut (append_entry e) c, p \<or> entry_index e > last_index (drop_conflict e (core_log c)))"
proof -
  let ?c = "log_mut (drop_conflict e) c"
  have e: "\<lparr>entry_term = entry_term e, entry_index = entry_index e,
      entry_payload = entry_payload e\<rparr> = e" by simp
  have "(if term_at (core_log c) (entry_index e) \<noteq> 0 \<and>
           term_at (core_log c) (entry_index e) \<noteq> entry_term e
         then log_mut (truncate_after (entry_index e - 1)) c else c) = ?c"
    by (auto simp: drop_conflict_def intro!: log_mut_cong
        intro: log_mut_cong [where f = "\<lambda>l. l", simplified])
  then have "append_one e (c, p) =
      (if entry_index e > last_index (core_log ?c) then (log_mut (log_append e) ?c, True)
       else (?c, p))"
    unfolding append_one_def Let_def prod.case e by (simp only:)
  then show ?thesis by (auto simp: append_entry_def intro!: log_mut_cong)
qed

lemma fold_append_one_eq:
  "fold append_one es (c, p) =
     (log_mut (fold append_entry es) c, p \<or> appends_any es (core_log c))"
  by (induction es arbitrary: c p) (simp_all add: append_one_eq id_def comp_def)

lemma follower_vote_request_ok:
  "follower_handle_vote_request f c i req = Some (f', c', r) \<Longrightarrow> step_ok c c' r"
  by (auto simp: follower_handle_vote_request_def step_ok_def honest_def quiet_def
      Option.bind_eq_Some_conv core_evolves_vote_for Let_def
      dest!: follower_reset_deadline_SomeD split: if_splits)

text \<open>The two outcomes of an \<open>AppendRequest\<close>: the consistency check fails, or the log is
  extended and the commit index follows the leader's.\<close>

definition prev_matches :: "Log \<Rightarrow> AppendRequest \<Rightarrow> bool" where
  "prev_matches l req \<longleftrightarrow>
     areq_prev_log_index req = 0 \<or>
     term_at l (areq_prev_log_index req) = areq_prev_log_term req"

definition follow_commit :: "LogIndex \<Rightarrow> Core \<Rightarrow> Core" where
  "follow_commit lc c =
     (if lc > commit_index c then c\<lparr>commit_index := min lc (last_index (core_log c))\<rparr> else c)"

lemma follower_append_request_cases:
  assumes "follower_handle_append_request f c i req = Some (f', c', r)"
  obtains (reject) "\<not> prev_matches (core_log c) req" "c' = c\<lparr>rng := xorshift (rng c)\<rparr>"
      "r = stay (with_message eff_none (reply c' i (AppendResponse
             \<lparr>aresp_success = False, aresp_last_log_index = last_index (core_log c')\<rparr>)))"
  | (accept) "prev_matches (core_log c) req"
      "c' = follow_commit (areq_leader_commit req)
              (log_mut (fold append_entry (areq_entries req)) (c\<lparr>rng := xorshift (rng c)\<rparr>))"
      "r = stay (with_message
             (if appends_any (areq_entries req) (core_log c) then with_persist eff_none
              else eff_none)
             (reply c' i (AppendResponse
                \<lparr>aresp_success = True, aresp_last_log_index = last_index (core_log c')\<rparr>)))"
proof -
  obtain f1 where reset: "follower_reset_deadline
        (follower_record_contact (f\<lparr>f_leader := Some i\<rparr>) c) c =
      Some (f1, c\<lparr>rng := xorshift (rng c)\<rparr>)"
    using assms unfolding follower_handle_append_request_def
    by (auto simp: Option.bind_eq_Some_conv dest: follower_reset_deadline_SomeD)
  show thesis
  proof (cases "prev_matches (core_log c) req")
    case False
    with assms reset show thesis
      by (intro reject) (auto simp: follower_handle_append_request_def prev_matches_def
          word_neq_0_conv)
  next
    case True
    then have "\<not> (areq_prev_log_index req > 0 \<and>
        term_at (core_log c) (areq_prev_log_index req) \<noteq> areq_prev_log_term req)"
      by (auto simp: prev_matches_def)
    with assms reset True show thesis
      by (intro accept) (auto simp: follower_handle_append_request_def fold_append_one_eq
          follow_commit_def Let_def)
  qed
qed

lemma follow_commit_simps [simp]:
  "core_config (follow_commit i c) = core_config c" "core_id (follow_commit i c) = core_id c"
  "persistent (follow_commit i c) = persistent c" "core_term (follow_commit i c) = core_term c"
  "core_log (follow_commit i c) = core_log c"
  "core_evolves c0 (follow_commit i c) = core_evolves c0 c"
  by (simp_all add: follow_commit_def)

lemma follower_append_request_ok:
  assumes "follower_handle_append_request f c i req = Some (f', c', r)"
  shows "step_ok c c' r"
  using assms by (rule follower_append_request_cases) (auto intro!: step_okI)

lemma follower_read_index_ok:
  "follower_handle_read_index_request f c i req = Some (f', c', r) \<Longrightarrow> step_ok c c' r"
  by (auto simp: follower_handle_read_index_request_def Option.bind_eq_Some_conv
      dest!: follower_reset_deadline_SomeD intro!: step_okI)

lemma follower_install_snapshot_ok:
  "follower_handle_install_snapshot f c i req = Some (f', c', r) \<Longrightarrow> step_ok c c' r"
  by (auto simp: follower_handle_install_snapshot_def Option.bind_eq_Some_conv Let_def
      dest!: follower_reset_deadline_SomeD intro!: step_okI split: if_splits)

lemma follower_dispatch_ok:
  "follower_dispatch f c m = Some (f', c', r) \<Longrightarrow> step_ok c c' r"
  by (auto simp: follower_dispatch_def follower_vote_request_ok follower_append_request_ok
      follower_read_index_ok follower_install_snapshot_ok intro: step_okI split: Payload.splits)

lemma follower_dispatch_term:
  assumes "follower_dispatch f c m = Some (f', c', r)"
  shows "core_term c' = core_term c"
proof (cases "msg_payload m")
  case (AppendRequest req)
  with assms have "follower_handle_append_request f c (msg_from m) req = Some (f', c', r)"
    by (simp add: follower_dispatch_def)
  then show ?thesis by (cases rule: follower_append_request_cases) simp_all
qed (use assms in \<open>auto simp: follower_dispatch_def follower_handle_vote_request_def
    follower_handle_read_index_request_def follower_handle_install_snapshot_def
    Option.bind_eq_Some_conv Let_def dest!: follower_reset_deadline_SomeD split: if_splits\<close>)

lemma quiet_rejections [simp]:
  "quiet (core_id c) (follower_reject_stale c m)"
  "quiet (core_id c) (reject_due_to_active_leader c m)"
  "quiet (core_id c) (follower_handle_prevote_request c i t req)"
  by (simp_all add: follower_reject_stale_def reject_due_to_active_leader_def
      follower_handle_prevote_request_def split: Payload.splits)

text \<open>A message is answered without touching the state, or it is dispatched in the message's
  term, after that term has been adopted if it is newer.\<close>

definition adopt_term :: "Core \<Rightarrow> Term \<Rightarrow> Core" where
  "adopt_term c t =
     (if core_term c < t
      then (snd (maybe_update_term c t))\<lparr>rng := xorshift (rng c)\<rparr> else c)"

lemma adopt_term_simps [simp]:
  "core_config (adopt_term c t) = core_config c" "core_id (adopt_term c t) = core_id c"
  "core_log (adopt_term c t) = core_log c" "core_term (adopt_term c t) = max (core_term c) t"
  "p_bootstrap_config (persistent (adopt_term c t)) = p_bootstrap_config (persistent c)"
  "commit_index (adopt_term c t) = commit_index c" "ticks (adopt_term c t) = ticks c"
  "voted_for (adopt_term c t) = (if core_term c < t then None else voted_for c)"
  "core_evolves c (adopt_term c t)"
  by (simp_all add: adopt_term_def voted_for_maybe_update_term max_def core_id_def)

definition follower_refusals :: "Core \<Rightarrow> Message \<Rightarrow> Effects set" where
  "follower_refusals c m =
     {reject_due_to_active_leader c m, follower_reject_stale c m} \<union>
     range (follower_handle_prevote_request c (msg_from m) (msg_term m))"

lemma follower_refusals_quiet: "e \<in> follower_refusals c m \<Longrightarrow> quiet (core_id c) e"
  by (auto simp: follower_refusals_def)

lemma follower_on_message_cases:
  assumes "follower_on_message f c m = Some (f', c', r)"
  obtains (refuse) e where "f' = f" "c' = c" "r = stay e" "e \<in> follower_refusals c m"
  | (dispatch) f1 r1 where "core_term c \<le> msg_term m"
      "follower_dispatch f1 (adopt_term c (msg_term m)) m = Some (f', c', r1)"
      "r = (if core_term c < msg_term m then r1\<lparr>sr_effects := with_persist (sr_effects r1)\<rparr>
            else r1)"
proof (cases "(\<exists>req. msg_payload m = PreVoteRequest req) \<or>
    is_vote_or_prevote (msg_payload m) \<and> follower_recently_heard f c")
  case True
  with assms show thesis
    by (intro refuse [of "sr_effects r"])
      (auto simp: follower_on_message_def follower_refusals_def split: if_splits)
next
  case False
  then have main: "follower_on_message f c m = do {
      (f, c, term_updated) \<leftarrow>
        (if msg_term m > core_term c then
           (case maybe_update_term c (msg_term m) of (updated, c) \<Rightarrow> do {
              (f, c) \<leftarrow> follower_reset_deadline f c;
              Some (if is_append_or_read (msg_payload m)
                    then f\<lparr>f_leader := Some (msg_from m)\<rparr> else f, c, updated)
            })
         else Some (f, c, False));
      if msg_term m < core_term c
      then Some (f, c, stay (follower_reject_stale c m))
      else do {
        (f, c, r) \<leftarrow> follower_dispatch f c m;
        Some (f, c, if term_updated
                    then r\<lparr>sr_effects := with_persist (sr_effects r)\<rparr> else r)
      }
    }"
    unfolding follower_on_message_def by (cases "msg_payload m") auto
  consider "core_term c < msg_term m" | "msg_term m < core_term c" | "msg_term m = core_term c"
    by fastforce
  then show thesis
  proof cases
    case 1
    with assms main show thesis
      by (auto simp: Option.bind_eq_Some_conv maybe_update_term_def core_term_def adopt_term_def
          dest!: follower_reset_deadline_SomeD intro: dispatch split: if_splits)
  next
    case 2
    then have "\<not> core_term c < msg_term m" by simp
    with 2 assms main show thesis
      by (intro refuse [of "follower_reject_stale c m"]) (auto simp: follower_refusals_def)
  next
    case 3
    with assms main show thesis
      by (intro dispatch) (auto simp: Option.bind_eq_Some_conv adopt_term_def)
  qed
qed

lemma follower_on_message_ok:
  assumes "follower_on_message f c m = Some (f', c', r)"
  shows "step_ok c c' r"
  using assms
proof (cases rule: follower_on_message_cases)
  case (dispatch f1 r1)
  have "step_ok (adopt_term c (msg_term m)) c' r1" by (rule follower_dispatch_ok [OF dispatch(2)])
  then have "step_ok c c' r1"
    unfolding step_ok_def
    using core_evolves_trans [of c "adopt_term c (msg_term m)" c'] by simp
  with dispatch(3) show ?thesis by simp
qed (auto intro!: step_okI dest: follower_refusals_quiet)

section \<open>The persist flag\<close>

lemma drop_conflict_appends:
  assumes "wf_log l"
    and "entry_index e = snapshot_index l \<Longrightarrow>
      entry_index e = 0 \<or> snapshot_term l = 0 \<or> snapshot_term l = entry_term e"
  shows "drop_conflict e l = l \<or> entry_index e > last_index (drop_conflict e l)"
proof (cases "term_at l (entry_index e) \<noteq> 0 \<and> term_at l (entry_index e) \<noteq> entry_term e")
  case True
  then have "entry_index e \<noteq> snapshot_index l" "entry_index e \<noteq> 0"
    "log_get l (entry_index e) \<noteq> None"
    using assms by (auto simp: term_at_eq split: if_splits option.splits)
  then have "snapshot_index l < entry_index e"
    using log_get_None_iff [OF assms(1), of "entry_index e"] by auto
  moreover from \<open>entry_index e \<noteq> 0\<close> have "entry_index e - 1 < entry_index e"
    by (simp add: word_less_sub1 measure_unat word_less_nat_alt)
  ultimately show ?thesis
    using True by (simp add: drop_conflict_def last_index_truncate_after [OF assms(1)]
        min_less_iff_disj)
qed (auto simp: drop_conflict_def)

lemma appends_any_if_changed:
  assumes "wf_log l" "fold append_entry es l \<noteq> l"
    and "\<And>e. e \<in> set es \<Longrightarrow> entry_index e = snapshot_index l \<Longrightarrow>
      entry_index e = 0 \<or> snapshot_term l = 0 \<or> snapshot_term l = entry_term e"
  shows "appends_any es l"
  using assms
proof (induction es)
  case (Cons e es)
  show ?case
  proof (cases "entry_index e > last_index (drop_conflict e l)")
    case False
    then have "append_entry e l = l"
      using drop_conflict_appends [OF Cons.prems(1), of e] Cons.prems(3)
      by (auto simp: append_entry_def)
    with Cons show ?thesis by simp
  qed simp
qed simp

lemma log_mut_unchanged:
  "f (core_log c) = core_log c \<Longrightarrow> persistent (log_mut f c) = persistent c"
  by (simp add: log_mut_def core_log_def)

lemma follower_append_request_persisted:
  assumes "follower_handle_append_request f c i req = Some (f', c', r)" "wf_log (core_log c)"
    and "\<And>e. e \<in> set (areq_entries req) \<Longrightarrow> entry_index e = snapshot_index (core_log c) \<Longrightarrow>
      entry_index e = 0 \<or> snapshot_term (core_log c) = 0 \<or>
      snapshot_term (core_log c) = entry_term e"
  shows "persisted c c' (sr_effects r)"
  using assms(1)
proof (cases rule: follower_append_request_cases)
  case accept
  show ?thesis
  proof (cases "fold append_entry (areq_entries req) (core_log c) = core_log c")
    case True
    then have "persistent c' = persistent c"
      unfolding accept(2) by (simp add: log_mut_unchanged)
    then show ?thesis by (simp add: persisted_def)
  next
    case False
    have "appends_any (areq_entries req) (core_log c)"
      by (rule appends_any_if_changed [OF assms(2) False]) (rule assms(3))
    then show ?thesis unfolding accept(3) by (simp add: persisted_def)
  qed
qed (simp add: persisted_def)

lemma follower_dispatch_persisted:
  assumes "follower_dispatch f c m = Some (f', c', r)" "wf_log (core_log c)"
    "agrees_with_snapshot (core_log c) (MessageEvent m)"
  shows "persisted c c' (sr_effects r)"
proof (cases "msg_payload m")
  case (AppendRequest req)
  with assms show ?thesis
    by (auto simp: follower_dispatch_def agrees_with_snapshot_def
        intro!: follower_append_request_persisted)
next
  case (VoteRequest req)
  with assms show ?thesis
    by (auto simp: follower_dispatch_def follower_handle_vote_request_def persisted_def
        Option.bind_eq_Some_conv Let_def split: if_splits)
next
  case (InstallSnapshotRequest req)
  with assms show ?thesis
    by (auto simp: follower_dispatch_def follower_handle_install_snapshot_def persisted_def
        Option.bind_eq_Some_conv Let_def dest!: follower_reset_deadline_SomeD split: if_splits)
next
  case (ReadIndexRequest req)
  with assms show ?thesis
    by (auto simp: follower_dispatch_def follower_handle_read_index_request_def persisted_def
        Option.bind_eq_Some_conv dest!: follower_reset_deadline_SomeD)
qed (use assms in \<open>auto simp: follower_dispatch_def persisted_def\<close>)

lemma follower_dispatch_log_only:
  assumes "follower_dispatch f c m = Some (f', c', r)"
  shows "log_only c c' (sr_effects r)"
proof (cases "msg_payload m")
  case (AppendRequest req)
  with assms have "follower_handle_append_request f c (msg_from m) req = Some (f', c', r)"
    by (simp add: follower_dispatch_def)
  then show ?thesis
    by (cases rule: follower_append_request_cases) (auto simp: log_only_def log_mut_def)
next
  case (VoteRequest req)
  with assms show ?thesis
    by (auto simp: follower_dispatch_def follower_handle_vote_request_def log_only_def
        Option.bind_eq_Some_conv Let_def split: if_splits)
next
  case (InstallSnapshotRequest req)
  with assms show ?thesis
    by (auto simp: follower_dispatch_def follower_handle_install_snapshot_def log_only_def
        Option.bind_eq_Some_conv Let_def dest!: follower_reset_deadline_SomeD split: if_splits)
next
  case (ReadIndexRequest req)
  with assms show ?thesis
    by (auto simp: follower_dispatch_def follower_handle_read_index_request_def log_only_def
        Option.bind_eq_Some_conv dest!: follower_reset_deadline_SomeD)
qed (use assms in \<open>auto simp: follower_dispatch_def log_only_def\<close>)

lemma follower_on_message_log_only:
  assumes "follower_on_message f c m = Some (f', c', r)"
  shows "log_only c c' (sr_effects r)"
  using assms
proof (cases rule: follower_on_message_cases)
  case (dispatch f1 r1)
  from follower_dispatch_log_only [OF dispatch(2)] show ?thesis
    using dispatch by (auto simp: log_only_def adopt_term_def)
qed (simp add: log_only_def)

lemma follower_on_message_persisted:
  assumes "follower_on_message f c m = Some (f', c', r)" "wf_log (core_log c)"
    "agrees_with_snapshot (core_log c) (MessageEvent m)"
  shows "persisted c c' (sr_effects r)"
  using assms(1)
proof (cases rule: follower_on_message_cases)
  case (dispatch f1 r1)
  have "persisted (adopt_term c (msg_term m)) c' (sr_effects r1)"
    by (rule follower_dispatch_persisted [OF dispatch(2)]) (use assms in simp_all)
  then show ?thesis using dispatch by (auto simp: persisted_def adopt_term_def)
qed (simp add: persisted_def)

interpretation follower_role: raft_role follower_step
proof
  fix f c ev f' c' r
  assume step: "follower_step f c ev = Some (f', c', r)"
  then show "step_ok c c' r"
    by (auto simp: follower_step_def follower_handle_tick_def follower_on_message_ok Let_def
        intro!: step_okI split: Event.splits if_splits)
  show "persisted c c' (sr_effects r)"
    if "wf_log (core_log c)" "agrees_with_snapshot (core_log c) ev"
    using step that
    by (auto simp: follower_step_def follower_handle_tick_def persisted_def Let_def
        split: Event.splits if_splits
        dest: follower_on_message_persisted [unfolded persisted_def])
  show "log_only c c' (sr_effects r)"
    using step
    by (auto simp: follower_step_def follower_handle_tick_def log_only_def Let_def
        split: Event.splits if_splits dest: follower_on_message_log_only [unfolded log_only_def])
  show "core_term c' \<in> event_terms c ev"
  proof (cases ev)
    case (MessageEvent m)
    with step have "follower_on_message f c m = Some (f', c', r)" by (simp add: follower_step_def)
    then show ?thesis
      by (cases rule: follower_on_message_cases)
        (auto simp: event_terms_def MessageEvent max_def dest: follower_dispatch_term)
  qed (use step in \<open>auto simp: follower_step_def follower_handle_tick_def event_terms_def Let_def\<close>)
qed

section \<open>What an accepted \<open>AppendRequest\<close> does to the log\<close>

text \<open>The rule of the Raft paper on lists: keep entries while the terms agree; at the first
  disagreement, or past the end, the request's entries take over.\<close>

fun merge_entries :: "Entry list \<Rightarrow> Entry list \<Rightarrow> Entry list" where
  "merge_entries xs [] = xs"
| "merge_entries [] (e # es) = e # es"
| "merge_entries (x # xs) (e # es) =
     (if entry_term x = entry_term e then x # merge_entries xs es else e # es)"

lemma merge_entries_Nil [simp]: "merge_entries [] es = es"
  by (cases es) simp_all

lemma append_entry_end:
  assumes "wf_log l" "last_index l \<noteq> u64_max" "entry_index e = last_index l + 1"
  shows "append_entry e l = log_append e l"
proof -
  have "last_index l < entry_index e" using assms(2,3) by (simp add: u64_less_inc)
  then show ?thesis by (simp add: append_entry_def drop_conflict_def term_at_beyond [OF assms(1)])
qed

lemma append_entry_inside:
  assumes "wf_log l" "entries l = pre @ x # xs" "entry_term x \<noteq> 0"
    and "entry_index e = snapshot_index l + of_nat (Suc (length pre))"
  shows "append_entry e l =
    (if entry_term x = entry_term e then l else l\<lparr>entries := pre @ [e]\<rparr>)"
proof -
  let ?s = "snapshot_index l"
  have t: "term_at l (entry_index e) = entry_term x"
    unfolding assms(4) by (rule term_at_split [OF assms(1,2)])
  have u: "unat (entry_index e) = unat ?s + Suc (length pre)"
    unfolding assms(4) using assms(1,2) by (intro unat_position) auto
  have "entry_index e - 1 = ?s + of_nat (length pre)" unfolding assms(4) by simp
  then have u1: "unat (entry_index e - 1) = unat ?s + length pre"
    using assms(1,2) by (simp add: unat_position)
  have "unat (last_index l) \<ge> unat (entry_index e)"
    using u assms(2) by (simp add: unat_last_index [OF assms(1)])
  then have same: "append_entry e l = l" if "entry_term x = entry_term e"
    using that t by (simp add: append_entry_def drop_conflict_def word_less_nat_alt)
  have "truncate_after (entry_index e - 1) l = l\<lparr>entries := pre\<rparr>"
    unfolding truncate_after_eq [OF assms(1)] filter_le_index [OF assms(1)] u1
    by (simp add: assms(2))
  moreover have "last_index (l\<lparr>entries := pre\<rparr>) < entry_index e"
    using unat_last_index [OF wf_log_truncate_after [OF assms(1), of "entry_index e - 1"]] u
      calculation by (simp add: word_less_nat_alt)
  ultimately have "append_entry e l = l\<lparr>entries := pre @ [e]\<rparr>" if "entry_term x \<noteq> entry_term e"
    using that t assms(3) by (simp add: append_entry_def drop_conflict_def log_append_def)
  with same show ?thesis by simp
qed

lemma fold_append_entry_eq:
  assumes "wf_log l" "entries l = pre @ xs"
    and "entries_follow (snapshot_index l + of_nat (length pre)) es"
    and "\<forall>x \<in> set xs. entry_term x \<noteq> 0"
  shows "fold append_entry es l = l\<lparr>entries := pre @ merge_entries xs es\<rparr> \<and>
    wf_log (fold append_entry es l)"
  using assms
proof (induction es arbitrary: l pre xs)
  case Nil
  then show ?case by simp
next
  case (Cons e es)
  let ?p = "snapshot_index l + of_nat (length pre)"
  have e: "?p \<noteq> u64_max" "entry_index e = ?p + 1" "entries_follow (?p + 1) es"
    using Cons.prems(3) by simp_all
  have p1: "?p + 1 = snapshot_index l + of_nat (length (pre @ [y]))" for y :: Entry
    by (simp add: add.assoc add.commute)
  have takeover: "fold append_entry (e # es) l = l\<lparr>entries := pre @ e # es\<rparr> \<and>
      wf_log (fold append_entry (e # es) l)"
    if step: "append_entry e l = l\<lparr>entries := pre @ [e]\<rparr>"
  proof -
    have "wf_log (l\<lparr>entries := pre @ [e]\<rparr>)"
      using Cons.prems(1) e unfolding wf_log_def Cons.prems(2)
      by (simp add: entries_follow_append)
    from Cons.IH [OF this, of "pre @ [e]" "[]"] e(3) show ?thesis
      unfolding p1 [of e] by (auto simp: step)
  qed
  show ?case
  proof (cases xs)
    case Nil
    then have "last_index l = ?p" using Cons.prems(1,2) by (simp add: last_index_eq)
    then have "append_entry e l = l\<lparr>entries := pre @ [e]\<rparr>"
      using append_entry_end [OF Cons.prems(1)] e Cons.prems(2) Nil by (simp add: log_append_def)
    from takeover [OF this] Nil show ?thesis by auto
  next
    case (Cons x ys)
    have inside: "append_entry e l =
        (if entry_term x = entry_term e then l else l\<lparr>entries := pre @ [e]\<rparr>)"
      using Cons Cons.prems e(2) by (intro append_entry_inside [where xs = ys])
        (auto simp: p1 [of x] simp del: of_nat_Suc)
    show ?thesis
    proof (cases "entry_term x = entry_term e")
      case True
      then show ?thesis
        using Cons.IH [OF Cons.prems(1), of "pre @ [x]" ys] Cons.prems e(3) inside Cons
        by (auto simp: p1 [of x])
    next
      case False
      with takeover inside Cons show ?thesis by auto
    qed
  qed
qed

lemma merge_entries_refl [simp]: "merge_entries es es = es"
  by (induction es) simp_all

lemma merge_entries_again: "merge_entries (merge_entries xs es) es = merge_entries xs es"
  by (induction xs es rule: merge_entries.induct) simp_all

lemma set_merge_entries: "set (merge_entries xs es) \<subseteq> set xs \<union> set es"
  by (induction xs es rule: merge_entries.induct) auto

text \<open>The log after an accepted request, and after a second copy of it.\<close>

lemma append_request_log:
  assumes "wf_log l" "snapshot_index l \<le> p" "p \<le> last_index l"
    and es: "entries_follow p es" and "\<forall>x \<in> set (entries l) \<union> set es. entry_term x \<noteq> 0"
  defines "k \<equiv> unat p - unat (snapshot_index l)"
  shows "entries (fold append_entry es l) =
      take k (entries l) @ merge_entries (drop k (entries l)) es \<and>
    fold append_entry es (fold append_entry es l) = fold append_entry es l"
proof -
  let ?pre = "take k (entries l)" and ?xs = "drop k (entries l)"
  let ?l = "l\<lparr>entries := ?pre @ merge_entries ?xs es\<rparr>"
  have "k \<le> length (entries l)"
    using assms(2,3) unat_last_index [OF assms(1)] by (simp add: k_def word_le_nat_alt)
  then have len: "length ?pre = k" by simp
  have "unat (snapshot_index l + of_nat k) = unat p"
    using unat_position [OF assms(1) \<open>k \<le> _\<close>] assms(2) by (simp add: k_def word_le_nat_alt)
  then have p: "snapshot_index l + of_nat (length ?pre) = p"
    unfolding len by (simp only: word_unat_eq_iff)
  have t: "\<forall>x \<in> set ?xs. entry_term x \<noteq> 0" "\<forall>x \<in> set (merge_entries ?xs es). entry_term x \<noteq> 0"
    using assms(5) set_merge_entries [of ?xs es] in_set_dropD [of _ k "entries l"] by blast+
  have once: "fold append_entry es l = ?l \<and> wf_log (fold append_entry es l)"
    by (rule fold_append_entry_eq) (use assms(1) es p t in simp_all)
  then have "wf_log ?l" by metis
  have "fold append_entry es ?l = ?l\<lparr>entries := ?pre @ merge_entries (merge_entries ?xs es) es\<rparr> \<and>
      wf_log (fold append_entry es ?l)"
    by (rule fold_append_entry_eq) (use \<open>wf_log ?l\<close> es p t in simp_all)
  with once show ?thesis by (simp add: merge_entries_again)
qed

section \<open>Properties\<close>

definition sample_follower :: Follower where
  "sample_follower = \<lparr>f_leader = None, f_election_deadline = 150, f_last_contact_tick = None\<rparr>"

text \<open>C17: AppendEntries. A request that passes the consistency check replaces the part of the log
  after its previous index by the merge of that part with its own entries: the common prefix
  stays, the first conflict and all that follows it give way, and entries beyond the request
  stay when nothing conflicts. A second copy of the request changes nothing. The commit index
  follows the leader's up to the end of the log.\<close>

theorem append_request_merges:
  assumes "follower_handle_append_request f c i req = Some (f', c', r)"
    and "wf_log (core_log c)" "prev_matches (core_log c) req"
    and "snapshot_index (core_log c) \<le> areq_prev_log_index req"
      "areq_prev_log_index req \<le> last_index (core_log c)"
    and "entries_follow (areq_prev_log_index req) (areq_entries req)"
    and "\<forall>x \<in> set (entries (core_log c)) \<union> set (areq_entries req). entry_term x \<noteq> 0"
  defines "k \<equiv> unat (areq_prev_log_index req) - unat (snapshot_index (core_log c))"
  shows "entries (core_log c') = take k (entries (core_log c)) @
      merge_entries (drop k (entries (core_log c))) (areq_entries req) \<and>
    fold append_entry (areq_entries req) (core_log c') = core_log c' \<and>
    commit_index c' = (if commit_index c < areq_leader_commit req
      then min (areq_leader_commit req) (last_index (core_log c')) else commit_index c) \<and>
    eff_messages (sr_effects r) = [reply c' i (AppendResponse
      \<lparr>aresp_success = True, aresp_last_log_index = last_index (core_log c')\<rparr>)]"
  using assms(1)
proof (cases rule: follower_append_request_cases)
  case reject
  with assms(3) show ?thesis by simp
next
  case accept
  show ?thesis
    using append_request_log [OF assms(2,4-7)] accept(2,3)
    by (simp add: follow_commit_def k_def)
qed

definition sample_append :: AppendRequest where
  "sample_append = \<lparr>areq_prev_log_index = 6, areq_prev_log_term = 1,
     areq_entries = [\<lparr>entry_term = 1, entry_index = 7, entry_payload = CommandEntry (Command [2])\<rparr>,
       \<lparr>entry_term = 3, entry_index = 8, entry_payload = CommandEntry (Command [5])\<rparr>],
     areq_leader_commit = 12\<rparr>"

theorem append_request_merges_witness:
  "\<exists>f' c' r. follower_handle_append_request sample_follower sample_core (NodeId 2) sample_append =
       Some (f', c', r) \<and>
     map entry_term (entries (core_log c')) = [1, 1, 3] \<and> commit_index c' = 8 \<and>
     fold append_entry (areq_entries sample_append) (core_log c') = core_log c'"
proof -
  have "map_option (\<lambda>(f', c', r). last_index (core_log c'))
      (follower_handle_append_request sample_follower sample_core (NodeId 2) sample_append) = Some 8"
    by code_simp
  then obtain f' c' r where step: "follower_handle_append_request sample_follower sample_core
      (NodeId 2) sample_append = Some (f', c', r)" "last_index (core_log c') = 8"
    by auto
  have hyps: "wf_log (core_log sample_core)" "prev_matches (core_log sample_core) sample_append"
    "snapshot_index (core_log sample_core) \<le> areq_prev_log_index sample_append"
    "areq_prev_log_index sample_append \<le> last_index (core_log sample_core)"
    "entries_follow (areq_prev_log_index sample_append) (areq_entries sample_append)"
    "\<forall>x \<in> set (entries (core_log sample_core)) \<union> set (areq_entries sample_append). entry_term x \<noteq> 0"
    by code_simp+
  note r = append_request_merges [OF step(1) hyps]
  have k: "map entry_term (take (6 - 5) (entries (core_log sample_core)) @
      merge_entries (drop (6 - 5) (entries (core_log sample_core))) (areq_entries sample_append)) =
      [1, 1, 3]"
    "unat (areq_prev_log_index sample_append) = 6" "unat (snapshot_index (core_log sample_core)) = 5"
    "commit_index sample_core = 6" "areq_leader_commit sample_append = 12"
    by code_simp+
  from step r k show ?thesis by simp
qed

lemma follower_recently_heard_iff:
  "follower_recently_heard f c \<longleftrightarrow> (\<exists>l t. f_leader f = Some l \<and> f_last_contact_tick f = Some t \<and>
     unat (ticks c) - unat t < unat (fst (cfg_election_timeout (core_config c))))"
  by (auto simp: follower_recently_heard_def word_less_nat_alt unat_saturating_sub split: option.splits)

lemma follower_vote_request_cases:
  assumes "follower_step f c (MessageEvent m) = Some (f', c', r)" "msg_payload m = VoteRequest req"
  obtains (refused) "follower_recently_heard f c \<or> msg_term m < core_term c" "c' = c"
      "sr_effects r = with_message eff_none (reply c (msg_from m) (VoteResponse \<lparr>vresp_granted = False\<rparr>))"
  | (handled) f1 r1 where "\<not> follower_recently_heard f c" "core_term c \<le> msg_term m"
      "follower_handle_vote_request f1 (adopt_term c (msg_term m)) (msg_from m) req = Some (f', c', r1)"
      "r = (if core_term c < msg_term m then r1\<lparr>sr_effects := with_persist (sr_effects r1)\<rparr> else r1)"
proof -
  from assms have on: "follower_on_message f c m = Some (f', c', r)" by (simp add: follower_step_def)
  show thesis
  proof (cases "follower_recently_heard f c \<or> msg_term m < core_term c")
    case True
    then show thesis
      using on assms(2) by (intro refused) (auto simp: follower_on_message_def reject_due_to_active_leader_def
          follower_reject_stale_def split: if_splits)
  next
    case False
    then have heard: "\<not> follower_recently_heard f c" and le: "core_term c \<le> msg_term m" by auto
    show thesis
    proof (cases "core_term c < msg_term m")
      case True
      let ?c = "c\<lparr>persistent := (persistent c)\<lparr>p_term := msg_term m, p_voted_for := None\<rparr>\<rparr>"
      have newer: "maybe_update_term c (msg_term m) = (True, ?c)"
        using True by (simp add: maybe_update_term_def core_term_def)
      have "follower_on_message f c m = do {
          (f1, c1) \<leftarrow> follower_reset_deadline f ?c;
          if msg_term m < core_term c1 then Some (f1, c1, stay (follower_reject_stale c1 m))
          else do {
            (f2, c2, r1) \<leftarrow> follower_handle_vote_request f1 c1 (msg_from m) req;
            Some (f2, c2, r1\<lparr>sr_effects := with_persist (sr_effects r1)\<rparr>)
          }
        }"
        using heard True assms(2)
        by (cases "follower_reset_deadline f ?c")
          (auto simp: follower_on_message_def newer follower_dispatch_def)
      with on obtain f1 c1 r1 where
        "follower_reset_deadline f ?c = Some (f1, c1)"
        "follower_handle_vote_request f1 c1 (msg_from m) req = Some (f', c', r1)"
        "r = r1\<lparr>sr_effects := with_persist (sr_effects r1)\<rparr>"
        by (auto simp: Option.bind_eq_Some_conv core_term_def
            dest: follower_reset_deadline_SomeD split: if_splits)
      then show thesis
        using handled [OF heard le, of f1 r1] True
        by (auto simp: adopt_term_def maybe_update_term_def core_term_def dest!: follower_reset_deadline_SomeD)
    next
      case False
      with on heard le assms(2) show thesis
        by (intro handled [OF heard le, of f r])
          (auto simp: follower_on_message_def follower_dispatch_def adopt_term_def Option.bind_eq_Some_conv
            split: if_splits)
    qed
  qed
qed

text \<open>C19: votes. A follower answers every vote request with one message, a grant or a refusal. It
  grants exactly if no leader has been in contact with it for the least election timeout, the
  candidate is a voter, the term of the request is newer than its own, or the same and its vote in
  that term is not given to another, and the candidate's last entry is of a newer term, or of the
  same term and at no smaller index. A newer term is adopted unless a leader is active. The vote is
  recorded exactly if it is granted, the log stays, and the persist flag is raised exactly if the term
  or the vote is set.\<close>

theorem vote_granted_iff:
  assumes "follower_step f c (MessageEvent m) = Some (f', c', r)" "msg_payload m = VoteRequest req"
    and "active = (\<exists>l t. f_leader f = Some l \<and> f_last_contact_tick f = Some t \<and>
      unat (ticks c) - unat t < unat (fst (cfg_election_timeout (core_config c))))"
    and "grant = (\<not> active \<and> is_voter (effective_config c) (msg_from m) \<and>
      (core_term c < msg_term m \<or>
       core_term c = msg_term m \<and> voted_for c \<in> {None, Some (msg_from m)}) \<and>
      (last_term (core_log c) < vreq_last_log_term req \<or>
       last_term (core_log c) = vreq_last_log_term req \<and> last_index (core_log c) \<le> vreq_last_log_index req))"
  shows "eff_messages (sr_effects r) = [reply c' (msg_from m) (VoteResponse \<lparr>vresp_granted = grant\<rparr>)] \<and>
    core_term c' = (if active then core_term c else max (core_term c) (msg_term m)) \<and>
    voted_for c' = (if grant then Some (msg_from m)
      else if core_term c < core_term c' then None else voted_for c) \<and>
    core_log c' = core_log c \<and>
    (eff_persist (sr_effects r) \<longleftrightarrow> grant \<or> core_term c < core_term c')"
  using assms(1,2)
proof (cases rule: follower_vote_request_cases)
  case refused
  then have "\<not> grant" using assms(3,4) by (auto simp: follower_recently_heard_iff)
  then show ?thesis
    using refused assms(3) by (auto simp: follower_recently_heard_iff max_def)
next
  case (handled f1 r1)
  let ?c = "adopt_term c (msg_term m)"
  have active: "\<not> active" using handled(1) assms(3) by (simp add: follower_recently_heard_iff)
  have adopted: "core_term ?c = msg_term m" "core_log ?c = core_log c"
    "effective_config ?c = effective_config c"
    "voted_for ?c = (if core_term c < msg_term m then None else voted_for c)"
    using handled(2) by (auto simp: adopt_term_def maybe_update_term_def core_term_def core_log_def
        effective_config_def core_config_at_def Let_def)
  then have "grant \<longleftrightarrow> is_voter (effective_config ?c) (msg_from m) \<and> can_vote_for ?c (msg_from m) \<and>
      log_is_up_to_date ?c (vreq_last_log_term req) (vreq_last_log_index req)"
    using assms(4) active handled(2) by (auto simp: can_vote_for_def log_is_up_to_date_def Let_def)
  with handled(2-4) active adopted show ?thesis
    by (auto simp: follower_handle_vote_request_def Let_def Option.bind_eq_Some_conv max_def
        dest!: follower_reset_deadline_SomeD split: if_splits)
qed

definition sample_vote_request :: Message where
  "sample_vote_request = \<lparr>msg_from = NodeId 2, msg_to = NodeId 1, msg_term = 3,
     msg_payload = VoteRequest \<lparr>vreq_last_log_index = 8, vreq_last_log_term = 2\<rparr>\<rparr>"

theorem vote_granted_iff_witness:
  "\<exists>f1 c1 r1 f2 c2 r2.
     follower_step sample_follower sample_core (MessageEvent sample_vote_request) = Some (f1, c1, r1) \<and>
     voted_for c1 = Some (NodeId 2) \<and> core_term c1 = 3 \<and> eff_persist (sr_effects r1) \<and>
     follower_step (sample_follower\<lparr>f_leader := Some (NodeId 3), f_last_contact_tick := Some 0\<rparr>) sample_core
       (MessageEvent sample_vote_request) = Some (f2, c2, r2) \<and>
     voted_for c2 = None \<and> core_term c2 = 2 \<and> \<not> eff_persist (sr_effects r2)"
proof -
  let ?heard = "sample_follower\<lparr>f_leader := Some (NodeId 3), f_last_contact_tick := Some 0\<rparr>"
  let ?req = "\<lparr>vreq_last_log_index = 8, vreq_last_log_term = 2\<rparr>"
  have "follower_step sample_follower sample_core (MessageEvent sample_vote_request) \<noteq> None"
    "follower_step ?heard sample_core (MessageEvent sample_vote_request) \<noteq> None"
    by code_simp+
  then obtain f1 c1 r1 f2 c2 r2 where
    one: "follower_step sample_follower sample_core (MessageEvent sample_vote_request) = Some (f1, c1, r1)" and
    two: "follower_step ?heard sample_core (MessageEvent sample_vote_request) = Some (f2, c2, r2)"
    by auto
  have req: "msg_payload sample_vote_request = VoteRequest ?req" "msg_from sample_vote_request = NodeId 2"
    "msg_term sample_vote_request = 3"
    by (simp_all add: sample_vote_request_def)
  have core: "is_voter (effective_config sample_core) (NodeId 2)" "core_term sample_core = 2"
    "last_term (core_log sample_core) = 2" "last_index (core_log sample_core) = 8" "voted_for sample_core = None"
    "ticks sample_core = 0" "fst (cfg_election_timeout (core_config sample_core)) = 150"
    by code_simp+
  have "f_leader sample_follower = None" by (simp add: sample_follower_def)
  then show ?thesis
    using vote_granted_iff [OF one req(1) refl refl] vote_granted_iff [OF two req(1) refl refl]
      one two req core by (simp add: max_def)
qed

lemma install_request_cases:
  assumes "follower_handle_install_snapshot f c i req = Some (f', c', r)"
  obtains (refuse) "c' = c\<lparr>rng := xorshift (rng c)\<rparr>" "\<not> eff_persist (sr_effects r)"
  | (install) "snapshot_index (core_log c) < isreq_last_included_index req"
      "commit_index c \<le> isreq_last_included_index req \<or>
       snapshot_matches_prefix (core_log c) (isreq_last_included_index req)
         (isreq_last_included_term req)"
      "core_log c' = install_snapshot (isreq_last_included_index req)
         (isreq_last_included_term req) (isreq_configuration req) (core_log c)"
      "commit_index c' = max (commit_index c) (isreq_last_included_index req)"
      "last_applied c' = max (last_applied c) (isreq_last_included_index req)"
      "eff_persist (sr_effects r)"
  using assms
  by (auto simp: follower_handle_install_snapshot_def Option.bind_eq_Some_conv Let_def not_less
      not_le max.absorb1 max.absorb4 dest!: follower_reset_deadline_SomeD split: if_splits)

text \<open>C18: snapshots of the leader. Whatever the request, neither the commit nor the apply index nor
  the index of the snapshot moves backwards, the log remains contiguous, and the change is flagged
  for persistence unless nothing persistent changes. No committed entry is lost: every entry between
  the index of the new snapshot and the commit index stays in the log. A snapshot that was not there
  before is that of the request, and is both committed and applied.\<close>

theorem snapshot_keeps_committed:
  assumes "follower_handle_install_snapshot f c i req = Some (f', c', r)" "wf_log (core_log c)"
  shows "commit_index c \<le> commit_index c' \<and> last_applied c \<le> last_applied c' \<and>
    snapshot_index (core_log c) \<le> snapshot_index (core_log c') \<and> wf_log (core_log c') \<and>
    (eff_persist (sr_effects r) \<or> persistent c' = persistent c) \<and>
    (\<forall>k. snapshot_index (core_log c') < k \<and> k \<le> commit_index c \<longrightarrow>
       log_get (core_log c') k = log_get (core_log c) k) \<and>
    (snapshot_index (core_log c') \<noteq> snapshot_index (core_log c) \<longrightarrow>
       snapshot_index (core_log c') = isreq_last_included_index req \<and>
       snapshot_index (core_log c') \<le> commit_index c' \<and> snapshot_index (core_log c') \<le> last_applied c')"
  using assms(1)
proof (cases rule: install_request_cases)
  case refuse
  with assms(2) show ?thesis by simp
next
  case install
  let ?i = "isreq_last_included_index req" and ?lg = "core_log c"
  have "?i \<noteq> 0" using install(1) by auto
  note eq = install_snapshot_eq [OF assms(2) this, of "isreq_last_included_term req" "isreq_configuration req"]
  have "log_get (core_log c') k = log_get ?lg k" if "?i < k" "k \<le> commit_index c" for k
  proof -
    from install(2) that have "snapshot_matches_prefix ?lg ?i (isreq_last_included_term req)" by auto
    with eq that(1) install(3) show ?thesis by simp
  qed
  moreover have "snapshot_index (core_log c') = ?i" using eq install(3) by simp
  ultimately show ?thesis
    using install by (auto simp: wf_log_install_snapshot [OF assms(2)])
qed

theorem snapshot_keeps_committed_witness:
  "\<exists>f' c' r. follower_handle_install_snapshot sample_follower (sample_core\<lparr>commit_index := 8\<rparr>)
       (NodeId 2) \<lparr>isreq_last_included_index = 7, isreq_last_included_term = 1,
         isreq_configuration = config_default\<rparr> = Some (f', c', r) \<and>
     snapshot_index (core_log c') = 7 \<and> log_get (core_log c') 8 = log_get sample_log 8"
proof -
  let ?req = "\<lparr>isreq_last_included_index = 7, isreq_last_included_term = 1,
    isreq_configuration = config_default\<rparr>"
  let ?c = "sample_core\<lparr>commit_index := 8\<rparr>"
  have "map_option (\<lambda>(f', c', r). snapshot_index (core_log c'))
      (follower_handle_install_snapshot sample_follower ?c (NodeId 2) ?req) = Some 7"
    by code_simp
  then obtain f' c' r where step: "snapshot_index (core_log c') = 7"
    "follower_handle_install_snapshot sample_follower ?c (NodeId 2) ?req = Some (f', c', r)"
    by auto
  have "wf_log (core_log ?c)" by code_simp
  moreover have "core_log ?c = sample_log" by (simp add: sample_core_def core_log_def)
  ultimately show ?thesis
    using snapshot_keeps_committed [OF step(2)] step by (auto simp: sample_core_def)
qed

end
