(* ===== verification/Raft_Candidate.thy ===== *)
theory Raft_Candidate
  imports Raft_Follower
begin

text \<open>
  The candidate role (\<open>consensus/cloud9-raft/src/raft/candidate.rs\<close>) and the
  pre-candidate role (\<open>consensus/cloud9-raft/src/raft/precandidate.rs\<close>).
\<close>

section \<open>Candidate\<close>

record Candidate =
  cand_votes :: "NodeId set"
  cand_election_deadline :: u64
  cand_last_contact_tick :: u64

text \<open>The \<open>last_contact_tick\<close> a campaign starts with.\<close>

definition campaign_contact_tick :: "Core \<Rightarrow> u64" where
  "campaign_contact_tick c =
     saturating_sub (ticks c) (fst (cfg_election_timeout (core_config c)))"

definition candidate_new :: "Core \<Rightarrow> (Candidate \<times> Core \<times> Effects) option" where
  "candidate_new c0 =
     (let c = start_election c0 in do {
        (timeout, c) \<leftarrow> random_election_timeout c;
        let candidate = \<lparr>cand_votes = (if core_is_voter c then {core_id c} else {}),
                         cand_election_deadline = ticks c + timeout,
                         cand_last_contact_tick = campaign_contact_tick c\<rparr>;
        let config = effective_config c;
        if voter_count config = 1 \<and> is_voter config (core_id c)
        then Some (candidate, c, with_persist eff_none)
        else
          (let req = \<lparr>vreq_last_log_index = last_index (core_log c),
                      vreq_last_log_term = last_term (core_log c)\<rparr>;
               messages = map (\<lambda>peer. reply c peer (VoteRequest req))
                            (voter_peers config (core_id c))
           in Some (candidate, c, with_messages (with_persist eff_none) messages))
      })"

definition candidate_ticks_until_deadline :: "Candidate \<Rightarrow> u64 \<Rightarrow> u64" where
  "candidate_ticks_until_deadline s now = saturating_sub (cand_election_deadline s) now"

definition candidate_has_quorum :: "Candidate \<Rightarrow> Core \<Rightarrow> bool" where
  "candidate_has_quorum s c = has_quorum (effective_config c) (\<lambda>v. v \<in> cand_votes s)"

definition candidate_recently_heard :: "Candidate \<Rightarrow> Core \<Rightarrow> bool" where
  "candidate_recently_heard s c \<longleftrightarrow>
     saturating_sub (ticks c) (cand_last_contact_tick s)
       < fst (cfg_election_timeout (core_config c))"

definition candidate_handle_tick ::
  "Candidate \<Rightarrow> Core \<Rightarrow> (Candidate \<times> Core \<times> StepResult) option" where
  "candidate_handle_tick s c =
     (let c = c\<lparr>ticks := ticks c + 1\<rparr> in
      if candidate_recently_heard s c then do {
        (timeout, c) \<leftarrow> random_election_timeout c;
        Some (s\<lparr>cand_election_deadline := ticks c + timeout\<rparr>, c, sr_none)
      }
      else if ticks c \<ge> cand_election_deadline s then Some (s, c, to_candidate eff_none)
      else Some (s, c, sr_none))"

definition candidate_handle_vote_response ::
  "Candidate \<Rightarrow> Core \<Rightarrow> NodeId \<Rightarrow> VoteResponse \<Rightarrow> (Candidate \<times> Core \<times> StepResult) option" where
  "candidate_handle_vote_response s c from resp =
     (if \<not> vresp_granted resp then Some (s, c, sr_none)
      else let s = s\<lparr>cand_votes := insert from (cand_votes s)\<rparr> in
           if candidate_has_quorum s c then Some (s, c, to_leader eff_none)
           else Some (s, c, sr_none))"

definition candidate_handle_append_request ::
  "Candidate \<Rightarrow> Core \<Rightarrow> NodeId \<Rightarrow> (Candidate \<times> Core \<times> StepResult) option" where
  "candidate_handle_append_request s c from =
     Some (s\<lparr>cand_last_contact_tick := ticks c\<rparr>, c,
           to_follower_after_contact (Some from) eff_none)"

definition refuse_vote :: "Core \<Rightarrow> NodeId \<Rightarrow> StepResult" where
  "refuse_vote c from =
     stay (with_message eff_none (reply c from (VoteResponse \<lparr>vresp_granted = False\<rparr>)))"

definition candidate_handle_vote_request :: "Core \<Rightarrow> NodeId \<Rightarrow> StepResult" where
  "candidate_handle_vote_request c from = refuse_vote c from"

definition candidate_deny_vote :: "Core \<Rightarrow> Message \<Rightarrow> Effects" where
  "candidate_deny_vote c msg =
     (case msg_payload msg of
        PreVoteRequest r \<Rightarrow> with_message eff_none
          (reply c (msg_from msg) (PreVoteResponse
             \<lparr>pvresp_term = core_term c, pvresp_granted = False\<rparr>))
      | VoteRequest r \<Rightarrow> with_message eff_none
          (reply c (msg_from msg) (VoteResponse \<lparr>vresp_granted = False\<rparr>))
      | _ \<Rightarrow> eff_none)"

definition candidate_handle_prevote_request ::
  "Core \<Rightarrow> NodeId \<Rightarrow> Term \<Rightarrow> PreVoteRequest \<Rightarrow> Effects" where
  "candidate_handle_prevote_request c from mt req =
     (let dominated = log_is_up_to_date c (pvreq_last_log_term req) (pvreq_last_log_index req);
          candidate_is_voter = is_voter (effective_config c) from;
          term_ok = (pvreq_next_term req > core_term c);
          granted = (candidate_is_voter \<and> term_ok \<and> dominated)
      in with_message eff_none
           \<lparr>msg_from = core_id c, msg_to = from, msg_term = mt,
            msg_payload = PreVoteResponse \<lparr>pvresp_term = core_term c, pvresp_granted = granted\<rparr>\<rparr>)"

definition candidate_reject_stale :: "Core \<Rightarrow> Message \<Rightarrow> Effects" where
  "candidate_reject_stale c msg =
     (case msg_payload msg of
        VoteRequest r \<Rightarrow> with_message eff_none
          (reply c (msg_from msg) (VoteResponse \<lparr>vresp_granted = False\<rparr>))
      | AppendRequest r \<Rightarrow> with_message eff_none
          (reply c (msg_from msg) (AppendResponse
             \<lparr>aresp_success = False, aresp_last_log_index = last_index (core_log c)\<rparr>))
      | _ \<Rightarrow> eff_none)"

fun is_append :: "Payload \<Rightarrow> bool" where
  "is_append (AppendRequest r) = True"
| "is_append _ = False"

text \<open>Adopt a higher term and step down; the sender of an \<open>AppendRequest\<close> is the leader.\<close>

definition step_down :: "Core \<Rightarrow> Message \<Rightarrow> Core \<times> StepResult" where
  "step_down c msg =
     (snd (maybe_update_term c (msg_term msg)),
      to_follower (if is_append (msg_payload msg) then Some (msg_from msg) else None)
        (with_persist eff_none))"

definition candidate_dispatch ::
  "Candidate \<Rightarrow> Core \<Rightarrow> Message \<Rightarrow> (Candidate \<times> Core \<times> StepResult) option" where
  "candidate_dispatch s c msg =
     (case msg_payload msg of
        VoteResponse resp \<Rightarrow> candidate_handle_vote_response s c (msg_from msg) resp
      | AppendRequest req \<Rightarrow> candidate_handle_append_request s c (msg_from msg)
      | VoteRequest req \<Rightarrow> Some (s, c, candidate_handle_vote_request c (msg_from msg))
      | TimeoutNow \<Rightarrow> Some (s, c, to_candidate eff_none)
      | _ \<Rightarrow> Some (s, c, sr_none))"

definition candidate_on_message ::
  "Candidate \<Rightarrow> Core \<Rightarrow> Message \<Rightarrow> (Candidate \<times> Core \<times> StepResult) option" where
  "candidate_on_message s c msg =
     (if is_vote_or_prevote (msg_payload msg) \<and> candidate_recently_heard s c
      then Some (s, c, stay (candidate_deny_vote c msg))
      else case msg_payload msg of
        PreVoteRequest req \<Rightarrow>
          Some (s, c, stay (candidate_handle_prevote_request c (msg_from msg) (msg_term msg) req))
      | _ \<Rightarrow>
          if msg_term msg > core_term c
          then (case step_down c msg of (c, r) \<Rightarrow> Some (s, c, r))
          else if msg_term msg < core_term c
          then Some (s, c, stay (candidate_reject_stale c msg))
          else candidate_dispatch s c msg)"

definition candidate_step ::
  "Candidate \<Rightarrow> Core \<Rightarrow> Event \<Rightarrow> (Candidate \<times> Core \<times> StepResult) option" where
  "candidate_step s c ev =
     (case ev of
        Tick \<Rightarrow> candidate_handle_tick s c
      | DiskWriteComplete i \<Rightarrow> Some (s, c, sr_none)
      | MessageEvent msg \<Rightarrow> candidate_on_message s c msg)"

section \<open>Pre-candidate\<close>

record PreCandidate =
  pre_votes :: "NodeId set"
  pre_election_deadline :: u64
  pre_last_contact_tick :: u64

definition precandidate_new :: "Core \<Rightarrow> (PreCandidate \<times> Core \<times> Effects) option" where
  "precandidate_new c0 = do {
     (timeout, c) \<leftarrow> random_election_timeout c0;
     let precandidate = \<lparr>pre_votes = (if core_is_voter c then {core_id c} else {}),
                         pre_election_deadline = ticks c + timeout,
                         pre_last_contact_tick = campaign_contact_tick c\<rparr>;
     let config = effective_config c;
     if voter_count config = 1 \<and> is_voter config (core_id c)
     then Some (precandidate, c, eff_none)
     else
       (let req = \<lparr>pvreq_next_term = core_term c + 1,
                   pvreq_last_log_index = last_index (core_log c),
                   pvreq_last_log_term = last_term (core_log c)\<rparr>;
            messages = map (\<lambda>peer. reply c peer (PreVoteRequest req))
                         (voter_peers config (core_id c))
        in Some (precandidate, c, with_messages eff_none messages))
   }"

definition precandidate_ticks_until_deadline :: "PreCandidate \<Rightarrow> u64 \<Rightarrow> u64" where
  "precandidate_ticks_until_deadline s now = saturating_sub (pre_election_deadline s) now"

definition precandidate_has_quorum :: "PreCandidate \<Rightarrow> Core \<Rightarrow> bool" where
  "precandidate_has_quorum s c = has_quorum (effective_config c) (\<lambda>v. v \<in> pre_votes s)"

definition precandidate_recently_heard :: "PreCandidate \<Rightarrow> Core \<Rightarrow> bool" where
  "precandidate_recently_heard s c \<longleftrightarrow>
     saturating_sub (ticks c) (pre_last_contact_tick s)
       < fst (cfg_election_timeout (core_config c))"

definition precandidate_handle_tick ::
  "PreCandidate \<Rightarrow> Core \<Rightarrow> (PreCandidate \<times> Core \<times> StepResult) option" where
  "precandidate_handle_tick s c =
     (let c = c\<lparr>ticks := ticks c + 1\<rparr> in
      if precandidate_recently_heard s c then do {
        (timeout, c) \<leftarrow> random_election_timeout c;
        Some (s\<lparr>pre_election_deadline := ticks c + timeout\<rparr>, c, sr_none)
      }
      else if ticks c \<ge> pre_election_deadline s then Some (s, c, to_precandidate eff_none)
      else Some (s, c, sr_none))"

definition handle_prevote_response ::
  "PreCandidate \<Rightarrow> Core \<Rightarrow> NodeId \<Rightarrow> PreVoteResponse \<Rightarrow>
     (PreCandidate \<times> Core \<times> StepResult) option" where
  "handle_prevote_response s c from resp =
     (if pvresp_term resp > core_term c
      then Some (s, snd (maybe_update_term c (pvresp_term resp)),
                 to_follower None (with_persist eff_none))
      else if pvresp_term resp < core_term c then Some (s, c, sr_none)
      else if \<not> pvresp_granted resp then Some (s, c, sr_none)
      else let s = s\<lparr>pre_votes := insert from (pre_votes s)\<rparr> in
           if precandidate_has_quorum s c then Some (s, c, to_candidate eff_none)
           else Some (s, c, sr_none))"

definition precandidate_handle_append_request ::
  "PreCandidate \<Rightarrow> Core \<Rightarrow> NodeId \<Rightarrow> (PreCandidate \<times> Core \<times> StepResult) option" where
  "precandidate_handle_append_request s c from =
     Some (s\<lparr>pre_last_contact_tick := ticks c\<rparr>, c,
           to_follower_after_contact (Some from) eff_none)"

definition precandidate_handle_prevote_request ::
  "Core \<Rightarrow> NodeId \<Rightarrow> Term \<Rightarrow> PreVoteRequest \<Rightarrow> StepResult" where
  "precandidate_handle_prevote_request c from mt req =
     (let dominated = log_is_up_to_date c (pvreq_last_log_term req) (pvreq_last_log_index req);
          candidate_is_voter = is_voter (effective_config c) from;
          term_ok = (pvreq_next_term req > core_term c);
          granted = (candidate_is_voter \<and> term_ok \<and> dominated)
      in stay (with_message eff_none
           \<lparr>msg_from = core_id c, msg_to = from, msg_term = mt,
            msg_payload = PreVoteResponse
              \<lparr>pvresp_term = core_term c, pvresp_granted = granted\<rparr>\<rparr>))"

definition precandidate_handle_vote_request :: "Core \<Rightarrow> NodeId \<Rightarrow> StepResult" where
  "precandidate_handle_vote_request c from = refuse_vote c from"

definition precandidate_deny_vote :: "Core \<Rightarrow> Message \<Rightarrow> Effects" where
  "precandidate_deny_vote c msg =
     (case msg_payload msg of
        PreVoteRequest r \<Rightarrow> with_message eff_none
          (reply c (msg_from msg) (PreVoteResponse
             \<lparr>pvresp_term = core_term c, pvresp_granted = False\<rparr>))
      | VoteRequest r \<Rightarrow> with_message eff_none
          (reply c (msg_from msg) (VoteResponse \<lparr>vresp_granted = False\<rparr>))
      | _ \<Rightarrow> eff_none)"

definition precandidate_on_message ::
  "PreCandidate \<Rightarrow> Core \<Rightarrow> Message \<Rightarrow> (PreCandidate \<times> Core \<times> StepResult) option" where
  "precandidate_on_message s c msg =
     (if is_vote_or_prevote (msg_payload msg) \<and> precandidate_recently_heard s c
      then Some (s, c, stay (precandidate_deny_vote c msg))
      else if msg_term msg > core_term c
      then (case step_down c msg of (c, r) \<Rightarrow> Some (s, c, r))
      else case msg_payload msg of
        PreVoteResponse resp \<Rightarrow> handle_prevote_response s c (msg_from msg) resp
      | AppendRequest req \<Rightarrow> precandidate_handle_append_request s c (msg_from msg)
      | PreVoteRequest req \<Rightarrow>
          Some (s, c, precandidate_handle_prevote_request c (msg_from msg) (msg_term msg) req)
      | VoteRequest req \<Rightarrow> Some (s, c, precandidate_handle_vote_request c (msg_from msg))
      | TimeoutNow \<Rightarrow> Some (s, c, to_candidate eff_none)
      | _ \<Rightarrow> Some (s, c, sr_none))"

definition precandidate_step ::
  "PreCandidate \<Rightarrow> Core \<Rightarrow> Event \<Rightarrow> (PreCandidate \<times> Core \<times> StepResult) option" where
  "precandidate_step s c ev =
     (case ev of
        Tick \<Rightarrow> precandidate_handle_tick s c
      | DiskWriteComplete i \<Rightarrow> Some (s, c, sr_none)
      | MessageEvent msg \<Rightarrow> precandidate_on_message s c msg)"

section \<open>The contracts of the two roles\<close>

lemma quiet_candidate [simp]:
  "quiet (core_id c) (candidate_deny_vote c m)" "quiet (core_id c) (candidate_reject_stale c m)"
  "quiet (core_id c) (candidate_handle_prevote_request c i t req)"
  "quiet (core_id c) (precandidate_deny_vote c m)" "quiet (core_id c) (sr_effects (refuse_vote c i))"
  "quiet (core_id c) (sr_effects (precandidate_handle_prevote_request c i t preq))"
  by (simp_all add: candidate_deny_vote_def candidate_reject_stale_def precandidate_deny_vote_def
      candidate_handle_prevote_request_def precandidate_handle_prevote_request_def refuse_vote_def
      Let_def split: Payload.splits)

lemma refuse_vote_stays [simp]:
  "sr_transition (refuse_vote c i) = Stay"
  "sr_transition (precandidate_handle_prevote_request c i t req) = Stay"
  by (simp_all add: refuse_vote_def precandidate_handle_prevote_request_def Let_def)

lemma step_down_ok:
  "step_down c m = (c', r) \<Longrightarrow> step_ok c c' r \<and> persisted c c' (sr_effects r)"
  by (auto simp: step_down_def persisted_def intro!: step_okI)

lemma step_down_simps:
  "step_down c m = (c', r) \<Longrightarrow> c' = snd (maybe_update_term c (msg_term m))"
  "step_down c m = (c', r) \<Longrightarrow> sr_transition r \<noteq> Stay \<and> sr_transition r \<noteq> ToLeader"
  by (auto simp: step_down_def)

lemma candidate_dispatch_ok:
  "candidate_dispatch s c m = Some (s', c', r) \<Longrightarrow>
     c' = c \<and> quiet (core_id c) (sr_effects r)"
  by (auto simp: candidate_dispatch_def candidate_handle_vote_response_def
      candidate_handle_append_request_def candidate_handle_vote_request_def Let_def
      split: Payload.splits if_splits)

text \<open>A message is answered in place, makes the candidate step down, or is dispatched in the
  candidate's own term.\<close>

definition candidate_refusals :: "Core \<Rightarrow> Message \<Rightarrow> Effects set" where
  "candidate_refusals c m =
     {candidate_deny_vote c m, candidate_reject_stale c m} \<union>
     range (candidate_handle_prevote_request c (msg_from m) (msg_term m))"

lemma candidate_refusals_quiet: "e \<in> candidate_refusals c m \<Longrightarrow> quiet (core_id c) e"
  by (auto simp: candidate_refusals_def)

lemma candidate_on_message_cases:
  assumes "candidate_on_message s c m = Some (s', c', r)"
  obtains (refuse) e where "s' = s" "c' = c" "r = stay e" "e \<in> candidate_refusals c m"
  | (newer) "s' = s" "core_term c < msg_term m" "step_down c m = (c', r)"
  | (dispatch) "msg_term m = core_term c" "candidate_dispatch s c m = Some (s', c', r)"
proof (cases "(\<exists>req. msg_payload m = PreVoteRequest req) \<or>
    is_vote_or_prevote (msg_payload m) \<and> candidate_recently_heard s c")
  case True
  with assms show thesis
    by (intro refuse [of "sr_effects r"])
      (auto simp: candidate_on_message_def candidate_refusals_def split: if_splits)
next
  case False
  then have main: "candidate_on_message s c m =
      (if msg_term m > core_term c
       then (case step_down c m of (c, r) \<Rightarrow> Some (s, c, r))
       else if msg_term m < core_term c
       then Some (s, c, stay (candidate_reject_stale c m))
       else candidate_dispatch s c m)"
    unfolding candidate_on_message_def by (cases "msg_payload m") auto
  consider "core_term c < msg_term m" | "msg_term m < core_term c" | "msg_term m = core_term c"
    by fastforce
  then show thesis
  proof cases
    case 1
    with assms main show thesis by (intro newer) (auto split: prod.splits)
  next
    case 2
    then have "\<not> core_term c < msg_term m" by simp
    with 2 assms main show thesis
      by (intro refuse [of "candidate_reject_stale c m"]) (auto simp: candidate_refusals_def)
  next
    case 3
    with assms main show thesis by (intro dispatch) auto
  qed
qed

lemma candidate_handle_tick_cases:
  assumes "candidate_handle_tick s c = Some (s', c', r)"
  shows "persistent c' = persistent c \<and> core_config c' = core_config c \<and>
    commit_index c' = commit_index c \<and> cand_votes s' = cand_votes s \<and>
    sr_effects r = eff_none \<and> sr_transition r \<in> {Stay, ToCandidate}"
  using assms
  by (auto simp: candidate_handle_tick_def Option.bind_eq_Some_conv Let_def
      dest!: random_election_timeout_SomeD split: if_splits)

lemma candidate_campaign_term:
  assumes "candidate_step s c ev = Some (s', c', r)" "sr_transition r = ToCandidate"
  shows "core_term c' = core_term c"
proof (cases ev)
  case Tick
  with assms have "candidate_handle_tick s c = Some (s', c', r)" by (simp add: candidate_step_def)
  from candidate_handle_tick_cases [OF this] show ?thesis by (simp add: core_term_def)
next
  case (MessageEvent m)
  with assms have "candidate_on_message s c m = Some (s', c', r)" by (simp add: candidate_step_def)
  then show ?thesis
    using assms(2)
    by (cases rule: candidate_on_message_cases)
      (auto simp: step_down_def dest: candidate_dispatch_ok)
qed (use assms in \<open>auto simp: candidate_step_def\<close>)

lemma candidate_never_precampaigns:
  assumes "candidate_step s c ev = Some (s', c', r)"
  shows "sr_transition r \<noteq> ToPreCandidate"
  using assms
  by (auto simp: candidate_step_def candidate_handle_tick_def candidate_dispatch_def
      candidate_handle_vote_response_def candidate_handle_append_request_def
      candidate_handle_vote_request_def step_down_def Option.bind_eq_Some_conv Let_def
      elim!: candidate_on_message_cases split: Event.splits if_splits Payload.splits)

lemma core_evolvesI:
  "persistent c' = persistent c \<Longrightarrow> core_config c' = core_config c \<Longrightarrow> core_evolves c c'"
  by (simp add: core_evolves_def core_term_def)

interpretation candidate_role: raft_role candidate_step
proof
  fix s c ev s' c' r
  assume step: "candidate_step s c ev = Some (s', c', r)"
  have "step_ok c c' r \<and> persisted c c' (sr_effects r)"
  proof (cases ev)
    case Tick
    with step have "candidate_handle_tick s c = Some (s', c', r)" by (simp add: candidate_step_def)
    from candidate_handle_tick_cases [OF this] show ?thesis
      by (auto intro!: step_okI core_evolvesI simp: persisted_def)
  next
    case (MessageEvent m)
    with step have "candidate_on_message s c m = Some (s', c', r)"
      by (simp add: candidate_step_def)
    then show ?thesis
    proof (cases rule: candidate_on_message_cases)
      case dispatch
      from candidate_dispatch_ok [OF this(2)] show ?thesis
        by (auto intro: step_okI simp: persisted_def)
    qed (use step_down_ok candidate_refusals_quiet in
        \<open>auto intro: step_okI simp: persisted_def\<close>)
  next
    case (DiskWriteComplete i)
    with step show ?thesis by (auto simp: candidate_step_def persisted_def intro: step_okI)
  qed
  then show "step_ok c c' r"
    "wf_log (core_log c) \<Longrightarrow> agrees_with_snapshot (core_log c) ev \<Longrightarrow>
       persisted c c' (sr_effects r)"
    "log_only c c' (sr_effects r)"
    by (simp_all add: persisted_log_only)
  show "core_term c' \<in> event_terms c ev" if "sr_transition r \<in> {ToPreCandidate, ToCandidate}"
    using candidate_campaign_term [OF step] candidate_never_precampaigns [OF step] that
    by (auto simp: event_terms_def)
qed

text \<open>A pre-candidate changes its persistent state only by adopting a newer term, and then
  it steps down.\<close>

lemma precandidate_step_cases:
  assumes "precandidate_step s c ev = Some (s', c', r)"
  obtains (keep) "persistent c' = persistent c" "core_config c' = core_config c"
      "commit_index c' = commit_index c" "quiet (core_id c) (sr_effects r)"
      "sr_transition r \<noteq> ToLeader"
  | (newer) t l where "core_term c < t" "c' = snd (maybe_update_term c t)"
      "r = to_follower l (with_persist eff_none)"
proof (cases ev)
  case Tick
  with assms show thesis
    by (intro keep) (auto simp: precandidate_step_def precandidate_handle_tick_def
        Option.bind_eq_Some_conv Let_def dest!: random_election_timeout_SomeD split: if_splits)
next
  case (DiskWriteComplete i)
  with assms show thesis by (intro keep) (auto simp: precandidate_step_def)
next
  case (MessageEvent m)
  with assms have step: "precandidate_on_message s c m = Some (s', c', r)"
    by (simp add: precandidate_step_def)
  let ?later = "(\<exists>resp. msg_payload m = PreVoteResponse resp \<and> core_term c < pvresp_term resp)"
  show thesis
  proof (cases "is_vote_or_prevote (msg_payload m) \<and> precandidate_recently_heard s c")
    case True
    with step show thesis by (intro keep) (auto simp: precandidate_on_message_def)
  next
    case False
    note main = step [unfolded precandidate_on_message_def if_not_P [OF False]]
    consider "core_term c < msg_term m" | "\<not> core_term c < msg_term m" ?later
      | "\<not> core_term c < msg_term m" "\<not> ?later" by blast
    then show thesis
    proof cases
      case 1
      with main show thesis by (intro newer [of "msg_term m"]) (auto simp: step_down_def)
    next
      case 2
      with main show thesis by (auto simp: handle_prevote_response_def intro: newer)
    next
      case 3
      with main show thesis
        by (intro keep) (auto simp: handle_prevote_response_def Let_def
            precandidate_handle_append_request_def precandidate_handle_vote_request_def
            split: Payload.splits if_splits)
    qed
  qed
qed

interpretation precandidate_role: raft_role precandidate_step
proof
  fix s c ev s' c' r
  assume step: "precandidate_step s c ev = Some (s', c', r)"
  then have "step_ok c c' r \<and> persisted c c' (sr_effects r)"
    by (cases rule: precandidate_step_cases)
      (auto intro!: step_okI intro: core_evolvesI simp: persisted_def)
  then show "step_ok c c' r"
    "wf_log (core_log c) \<Longrightarrow> agrees_with_snapshot (core_log c) ev \<Longrightarrow>
       persisted c c' (sr_effects r)"
    "log_only c c' (sr_effects r)"
    by (simp_all add: persisted_log_only)
  show "core_term c' \<in> event_terms c ev" if "sr_transition r \<in> {ToPreCandidate, ToCandidate}"
    using step that
    by (cases rule: precandidate_step_cases) (auto simp: event_terms_def core_term_def)
qed

text \<open>What a candidate step does to the votes it has collected.\<close>

lemma candidate_step_votes:
  assumes "candidate_step s c ev = Some (s', c', r)"
  shows "core_log c' = core_log c \<and>
    (sr_transition r \<in> {Stay, ToLeader} \<longrightarrow>
       core_term c' = core_term c \<and>
       (cand_votes s' = cand_votes s \<or>
        (\<exists>m. ev = MessageEvent m \<and> grants_vote (msg_payload m) \<and> msg_term m = core_term c \<and>
           cand_votes s' = insert (msg_from m) (cand_votes s)))) \<and>
    (sr_transition r = ToLeader \<longrightarrow> candidate_has_quorum s' c')"
proof (cases ev)
  case Tick
  with assms have "candidate_handle_tick s c = Some (s', c', r)" by (simp add: candidate_step_def)
  from candidate_handle_tick_cases [OF this] show ?thesis
    by (auto simp: core_log_def core_term_def)
next
  case (MessageEvent m)
  with assms have "candidate_on_message s c m = Some (s', c', r)" by (simp add: candidate_step_def)
  then show ?thesis
  proof (cases rule: candidate_on_message_cases)
    case newer
    then show ?thesis using step_down_simps [of c m c' r] by auto
  next
    case dispatch
    then show ?thesis
      using MessageEvent
      by (auto simp: candidate_dispatch_def candidate_handle_vote_response_def
          candidate_handle_append_request_def candidate_handle_vote_request_def Let_def
          split: Payload.splits if_splits)
  qed simp
next
  case (DiskWriteComplete i)
  with assms show ?thesis by (auto simp: candidate_step_def)
qed

section \<open>Properties\<close>

definition sample_candidate :: Candidate where
  "sample_candidate = \<lparr>cand_votes = {NodeId 1}, cand_election_deadline = 150,
     cand_last_contact_tick = 0\<rparr>"

definition sample_precandidate :: PreCandidate where
  "sample_precandidate = \<lparr>pre_votes = {NodeId 1}, pre_election_deadline = 150,
     pre_last_contact_tick = 0\<rparr>"

text \<open>C25: pre-votes disturb nothing. Whatever a pre-candidate receives, its term, vote and log
  stay as they are, or it learns of a newer term, adopts it and falls back to follower with the
  change flagged for persistence. It never becomes leader directly, and it casts no vote.\<close>

theorem prevote_keeps_persistent:
  assumes "precandidate_step s c ev = Some (s', c', r)"
  shows "(persistent c' = persistent c \<or>
      core_term c < core_term c' \<and> voted_for c' = None \<and> core_log c' = core_log c \<and>
      (\<exists>l. sr_transition r = ToFollower l) \<and> eff_persist (sr_effects r)) \<and>
    sr_transition r \<noteq> ToLeader \<and> quiet (core_id c) (sr_effects r)"
  using assms
  by (cases rule: precandidate_step_cases) (auto simp: voted_for_maybe_update_term max_def)

theorem prevote_keeps_persistent_witness:
  "\<exists>s' c' r. precandidate_step sample_precandidate sample_core (MessageEvent
       \<lparr>msg_from = NodeId 2, msg_to = NodeId 1, msg_term = 9, msg_payload = PreVoteResponse
          \<lparr>pvresp_term = 9, pvresp_granted = False\<rparr>\<rparr>) = Some (s', c', r) \<and>
     core_term c' = 9 \<and> voted_for c' = None \<and> eff_persist (sr_effects r)"
proof -
  let ?ev = "MessageEvent \<lparr>msg_from = NodeId 2, msg_to = NodeId 1, msg_term = 9, msg_payload =
    PreVoteResponse \<lparr>pvresp_term = 9, pvresp_granted = False\<rparr>\<rparr>"
  have "map_option (\<lambda>(s', c', r). core_term c') (precandidate_step sample_precandidate sample_core ?ev) =
      Some 9" "core_term sample_core = 2"
    by code_simp+
  then obtain s' c' r where st: "precandidate_step sample_precandidate sample_core ?ev =
      Some (s', c', r)" "core_term c' = 9" "core_term sample_core = 2"
    by auto
  then have "persistent c' \<noteq> persistent sample_core" by (auto simp: core_term_def)
  with prevote_keeps_persistent [OF st(1)] st show ?thesis by auto
qed

text \<open>Winning an election. A candidate that turns leader does so on a granted vote of its own
  term and with a quorum of the effective configuration among the votes it has counted; it
  counts a vote only when the message grants one in its term.\<close>

theorem candidate_wins_by_quorum:
  assumes "candidate_step s c ev = Some (s', c', r)" "sr_transition r = ToLeader"
  shows "core_term c' = core_term c \<and>
    has_quorum (effective_config c') (\<lambda>v. v \<in> cand_votes s') \<and>
    (cand_votes s' = cand_votes s \<or>
     (\<exists>m. ev = MessageEvent m \<and> grants_vote (msg_payload m) \<and> msg_term m = core_term c \<and>
        cand_votes s' = insert (msg_from m) (cand_votes s)))"
  using candidate_step_votes [OF assms(1)] assms(2) by (auto simp: candidate_has_quorum_def)

theorem candidate_wins_by_quorum_witness:
  "\<exists>s' c' r. candidate_step sample_candidate sample_core (MessageEvent
       \<lparr>msg_from = NodeId 3, msg_to = NodeId 1, msg_term = 2,
        msg_payload = VoteResponse \<lparr>vresp_granted = True\<rparr>\<rparr>) = Some (s', c', r) \<and>
     sr_transition r = ToLeader \<and> has_quorum (effective_config c') (\<lambda>v. v \<in> cand_votes s')"
proof -
  let ?ev = "MessageEvent \<lparr>msg_from = NodeId 3, msg_to = NodeId 1, msg_term = 2,
    msg_payload = VoteResponse \<lparr>vresp_granted = True\<rparr>\<rparr>"
  have "map_option (\<lambda>(s', c', r). sr_transition r) (candidate_step sample_candidate sample_core ?ev) =
      Some ToLeader"
    by code_simp
  then obtain s' c' r where
    "candidate_step sample_candidate sample_core ?ev = Some (s', c', r)" "sr_transition r = ToLeader"
    by auto
  with candidate_wins_by_quorum [OF this] show ?thesis by blast
qed

end
