(* ===== verification/Raft_Leader.thy ===== *)
theory Raft_Leader
  imports Raft_Candidate
begin

text \<open>
  The leader role (\<open>consensus/cloud9-raft/src/raft/leader.rs\<close>): replication progress per
  peer, the commit rule, committed configuration changes, read-index rounds, proposals and
  leadership transfer.

  The commit loop of \<open>maybe_commit\<close> is a \<open>partial_function\<close> in the option type: \<open>None\<close>
  stands for a panic or a loop that does not end.
\<close>

section \<open>Data\<close>

record PendingReadIndex =
  pri_id :: u64
  pri_read_index :: LogIndex
  pri_configuration :: Configuration
  pri_acks :: "NodeId set"

record Leader =
  next_index :: "NodeId \<rightharpoonup> LogIndex"
  match_index :: "NodeId \<rightharpoonup> LogIndex"
  heartbeat_deadline :: u64
  sent_index :: "NodeId \<rightharpoonup> LogIndex"
  next_read_id :: u64
  pending_read_index :: "PendingReadIndex option"
  confirmed_read_index :: LogIndex

datatype ConfigCommitResult = Continue Effects | StepDown Effects | Done

abbreviation matched :: "Leader \<Rightarrow> NodeId \<Rightarrow> LogIndex" where
  "matched l i \<equiv> unwrap_or (match_index l i) 0"

section \<open>Replication\<close>

definition send_append_to :: "Leader \<Rightarrow> Core \<Rightarrow> NodeId \<Rightarrow> (Leader \<times> Effects) option" where
  "send_append_to l c to =
     (let nxt = unwrap_or (next_index l to) 1;
          snap = snapshot_index (core_log c)
      in if nxt \<le> snap
         then Some (l, with_send_snapshot eff_none
                \<lparr>ss_to = to, ss_last_included_index = snap,
                 ss_last_included_term = snapshot_term (core_log c),
                 ss_configuration = core_config_at c snap\<rparr>)
         else
           (let prev_index = saturating_sub nxt 1;
                prev_term = (if prev_index \<le> snap \<and> prev_index > 0
                             then snapshot_term (core_log c)
                             else term_at (core_log c) prev_index);
                last_log = last_index (core_log c);
                end_index = min (nxt + cfg_max_entries_per_msg (core_config c)) (last_log + 1)
            in do {
              es \<leftarrow> log_slice (core_log c) nxt end_index;
              let sent_up_to = (if es = [] then nxt else entry_index (last es) + 1);
              let l = (if cfg_pipelining (core_config c) \<and> sent_up_to > nxt
                       then l\<lparr>next_index := (next_index l)(to \<mapsto> sent_up_to)\<rparr> else l);
              Some (l, with_message eff_none (reply c to (AppendRequest
                \<lparr>areq_prev_log_index = prev_index, areq_prev_log_term = prev_term,
                 areq_entries = es, areq_leader_commit = commit_index c\<rparr>)))
            }))"

definition broadcast_append :: "Leader \<Rightarrow> Core \<Rightarrow> (Leader \<times> Effects) option" where
  "broadcast_append l c =
     fold_opt
       (\<lambda>peer s. case s of (l, eff) \<Rightarrow>
          map_option (\<lambda>(l, e). (l, eff_merge eff e)) (send_append_to l c peer))
       (replication_peers (effective_config c) (core_id c)) (l, eff_none)"

definition leader_new :: "Core \<Rightarrow> (Leader \<times> Effects) option" where
  "leader_new c =
     (let last = last_index (core_log c);
          nodes = all_nodes (effective_config c);
          next0 = fold (\<lambda>i m. m(i \<mapsto> last + 1)) nodes Map.empty;
          match0 = fold (\<lambda>i m. m(i \<mapsto> 0)) nodes Map.empty;
          sent0 = fold (\<lambda>i m. m(i \<mapsto> 0)) nodes Map.empty;
          match1 = (if \<not> cfg_parallel_disk_write (core_config c)
                    then match0(core_id c \<mapsto> last) else match0)
      in broadcast_append
           \<lparr>next_index = next0, match_index = match1,
            heartbeat_deadline = ticks c + cfg_heartbeat_interval (core_config c),
            sent_index = sent0, next_read_id = 1, pending_read_index = None,
            confirmed_read_index = 0\<rparr> c)"

definition leader_ticks_until_deadline :: "Leader \<Rightarrow> u64 \<Rightarrow> u64" where
  "leader_ticks_until_deadline l now = saturating_sub (heartbeat_deadline l) now"

text \<open>\<open>entry(id).or_insert(v)\<close>.\<close>

definition or_insert :: "'v \<Rightarrow> NodeId \<Rightarrow> (NodeId \<rightharpoonup> 'v) \<Rightarrow> (NodeId \<rightharpoonup> 'v)" where
  "or_insert v i m = (if m i = None then m(i \<mapsto> v) else m)"

definition reinit_progress :: "Leader \<Rightarrow> Core \<Rightarrow> Leader" where
  "reinit_progress l c =
     (let last = last_index (core_log c);
          nodes = all_nodes (effective_config c);
          l = l\<lparr>next_index := fold (or_insert (last + 1)) nodes (next_index l),
                match_index := fold (or_insert 0) nodes (match_index l),
                sent_index := fold (or_insert 0) nodes (sent_index l)\<rparr>
      in if \<not> cfg_parallel_disk_write (core_config c)
         then l\<lparr>match_index := (match_index l)(core_id c \<mapsto> last)\<rparr> else l)"

section \<open>Commitment\<close>

definition advance_commit_index :: "Leader \<Rightarrow> Core \<Rightarrow> Core" where
  "advance_commit_index l c =
     (let config = effective_config c;
          max_possible = last_index (core_log c)
      in case find (\<lambda>candidate.
                term_at (core_log c) candidate = core_term c \<and>
                has_quorum config (\<lambda>voter. matched l voter \<ge> candidate))
              (rev (range_incl (commit_index c + 1) max_possible)) of
           Some candidate \<Rightarrow> c\<lparr>commit_index := candidate\<rparr>
         | None \<Rightarrow> c)"

text \<open>The search of \<open>try_auto_transfer\<close>: stop at the first caught-up voter, otherwise keep
  the most advanced one.\<close>

fun best_target ::
  "Leader \<Rightarrow> NodeId \<Rightarrow> LogIndex \<Rightarrow> NodeId list \<Rightarrow> (NodeId \<times> LogIndex) option \<Rightarrow>
     (NodeId \<times> LogIndex) option" where
  "best_target l me li [] best = best"
| "best_target l me li (voter # vs) best =
     (if voter = me then best_target l me li vs best
      else let match_idx = matched l voter in
           if match_idx \<ge> li then Some (voter, match_idx)
           else best_target l me li vs
                  (case best of
                     None \<Rightarrow> Some (voter, match_idx)
                   | Some (b, best_idx) \<Rightarrow>
                       if match_idx > best_idx then Some (voter, match_idx)
                       else Some (b, best_idx)))"

definition try_auto_transfer :: "Leader \<Rightarrow> Core \<Rightarrow> Configuration \<Rightarrow> Effects" where
  "try_auto_transfer l c new_config =
     (let last = last_index (core_log c) in
      case best_target l (core_id c) last (voters new_config) None of
        Some (target, match_idx) \<Rightarrow>
          if match_idx \<ge> last then with_message eff_none (reply c target TimeoutNow)
          else eff_none
      | None \<Rightarrow> eff_none)"

definition append_transition_target ::
  "Leader \<Rightarrow> Core \<Rightarrow> Configuration \<Rightarrow> (Leader \<times> Core \<times> Effects) option" where
  "append_transition_target l c target =
     (let new_index = last_index (core_log c) + 1;
          c = log_mut (log_append \<lparr>entry_term = core_term c, entry_index = new_index,
                                    entry_payload = ConfigEntry target\<rparr>) c;
          l = reinit_progress l c
      in do {
        (l, effects) \<leftarrow> broadcast_append l c;
        Some (l, c, with_persist effects)
      })"

fun process_config_entries ::
  "Leader \<Rightarrow> Core \<Rightarrow> LogIndex list \<Rightarrow> (Leader \<times> Core \<times> ConfigCommitResult) option" where
  "process_config_entries l c [] = Some (l, c, Done)"
| "process_config_entries l c (idx # idxs) =
     (case log_get (core_log c) idx of
        None \<Rightarrow> process_config_entries l c idxs
      | Some entry \<Rightarrow>
          (case entry_payload entry of
             CommandEntry cmd \<Rightarrow> process_config_entries l c idxs
           | ConfigEntry cfg \<Rightarrow>
               if \<not> is_voter cfg (core_id c)
               then Some (l, c, StepDown (try_auto_transfer l c cfg))
               else (case transition_target cfg of
                       Some target \<Rightarrow> do {
                         (l, c, effects) \<leftarrow> append_transition_target l c target;
                         Some (l, c, Continue effects)
                       }
                     | None \<Rightarrow> process_config_entries l c idxs)))"

definition process_committed_configs ::
  "Leader \<Rightarrow> Core \<Rightarrow> LogIndex \<Rightarrow> (Leader \<times> Core \<times> ConfigCommitResult) option" where
  "process_committed_configs l c old_commit =
     process_config_entries l c (range_incl (old_commit + 1) (commit_index c))"

partial_function (option) maybe_commit_loop ::
  "Leader \<Rightarrow> Core \<Rightarrow> Effects \<Rightarrow> (Leader \<times> Core \<times> Effects \<times> bool) option" where
  "maybe_commit_loop l c effects =
     (let c' = advance_commit_index l c in
      if commit_index c' = commit_index c then Some (l, c', effects, False)
      else Option.bind (process_committed_configs l c' (commit_index c))
             (\<lambda>(l', c'', r).
                case r of
                  Continue e \<Rightarrow> maybe_commit_loop l' c'' (eff_merge effects e)
                | StepDown e \<Rightarrow> Some (l', c'', eff_merge effects e, True)
                | Done \<Rightarrow> Some (l', c'', effects, False)))"

declare maybe_commit_loop.simps [code]

definition maybe_commit ::
  "Leader \<Rightarrow> Core \<Rightarrow> (Leader \<times> Core \<times> Effects \<times> bool) option" where
  "maybe_commit l c = maybe_commit_loop l c eff_none"

section \<open>Reads\<close>

fun newest_in_term :: "Log \<Rightarrow> Term \<Rightarrow> LogIndex list \<Rightarrow> LogIndex option" where
  "newest_in_term lg t [] = None"
| "newest_in_term lg t (idx # idxs) =
     (if term_at lg idx = t then Some idx
      else if term_at lg idx < t then None
      else newest_in_term lg t idxs)"

definition current_term_commit_index :: "Core \<Rightarrow> LogIndex option" where
  "current_term_commit_index c =
     newest_in_term (core_log c) (core_term c) (rev (range_incl 1 (commit_index c)))"

definition can_serve_reads :: "Leader \<Rightarrow> Core \<Rightarrow> bool" where
  "can_serve_reads l c \<longleftrightarrow>
     current_term_commit_index c \<noteq> None \<and>
     confirmed_read_index l \<ge> commit_index c \<and>
     last_applied c \<ge> commit_index c"

definition leader_read_index :: "Leader \<Rightarrow> LogIndex" where
  "leader_read_index l = confirmed_read_index l"

definition leader_read_index_ready :: "Leader \<Rightarrow> Core \<Rightarrow> LogIndex \<Rightarrow> bool" where
  "leader_read_index_ready l c ri \<longleftrightarrow> confirmed_read_index l \<ge> ri \<and> last_applied c \<ge> ri"

definition read_index_requests :: "Core \<Rightarrow> PendingReadIndex \<Rightarrow> Effects" where
  "read_index_requests c pending =
     with_messages eff_none
       (map (\<lambda>to. reply c to (ReadIndexRequest
               \<lparr>rireq_id = pri_id pending, rireq_read_index = pri_read_index pending\<rparr>))
          (voter_peers (pri_configuration pending) (core_id c)))"

definition leader_request_read_index ::
  "Leader \<Rightarrow> Core \<Rightarrow> Leader \<times> (ReadIndexError + LogIndex \<times> Effects)" where
  "leader_request_read_index l c =
     (case pending_read_index l of
        Some pending \<Rightarrow> (l, Inl (ReadInProgress (pri_read_index pending)))
      | None \<Rightarrow>
          if current_term_commit_index c = None then (l, Inl CurrentTermNotCommitted)
          else
            (let ri = commit_index c;
                 rid = next_read_id l;
                 l = l\<lparr>next_read_id := next_read_id l + 1\<rparr>;
                 pending = \<lparr>pri_id = rid, pri_read_index = ri,
                            pri_configuration = effective_config c, pri_acks = {core_id c}\<rparr>
             in if has_quorum (pri_configuration pending) (\<lambda>v. v \<in> pri_acks pending)
                then (l\<lparr>confirmed_read_index := max (confirmed_read_index l) ri\<rparr>,
                      Inr (ri, eff_none))
                else (l\<lparr>pending_read_index := Some pending\<rparr>,
                      Inr (ri, read_index_requests c pending))))"

definition handle_read_index_response ::
  "Leader \<Rightarrow> NodeId \<Rightarrow> ReadIndexResponse \<Rightarrow> Leader \<times> StepResult" where
  "handle_read_index_response l from resp =
     (case pending_read_index l of
        None \<Rightarrow> (l, sr_none)
      | Some pending \<Rightarrow>
          if \<not> is_voter (pri_configuration pending) from then (l, sr_none)
          else if pri_id pending \<noteq> riresp_id resp \<or>
                  pri_read_index pending \<noteq> riresp_read_index resp then (l, sr_none)
          else
            (let pending = pending\<lparr>pri_acks := insert from (pri_acks pending)\<rparr> in
             if has_quorum (pri_configuration pending) (\<lambda>v. v \<in> pri_acks pending)
             then (l\<lparr>confirmed_read_index := max (confirmed_read_index l) (pri_read_index pending),
                     pending_read_index := None\<rparr>, sr_none)
             else (l\<lparr>pending_read_index := Some pending\<rparr>, sr_none)))"

section \<open>Proposals\<close>

definition leader_propose ::
  "Leader \<Rightarrow> Core \<Rightarrow> Command \<Rightarrow> (Leader \<times> Core \<times> LogIndex \<times> Effects \<times> bool) option" where
  "leader_propose l c cmd =
     (let index = last_index (core_log c) + 1;
          c = log_mut (log_append \<lparr>entry_term = core_term c, entry_index = index,
                                    entry_payload = CommandEntry cmd\<rparr>) c;
          l = (if \<not> cfg_parallel_disk_write (core_config c)
               then l\<lparr>match_index := (match_index l)(core_id c \<mapsto> index)\<rparr> else l)
      in do {
        (l, c, commit_effects, should_step_down) \<leftarrow> maybe_commit l c;
        (l, effects) \<leftarrow> broadcast_append l c;
        Some (l, c, index, eff_merge (with_persist effects) commit_effects, should_step_down)
      })"

text \<open>The catch-up check of \<open>propose_config_change\<close> before a learner is promoted.\<close>

definition promotion_check ::
  "Leader \<Rightarrow> Core \<Rightarrow> Configuration \<Rightarrow> ConfigChange \<Rightarrow> ConfigChangeError + unit" where
  "promotion_check l c current change =
     (case change of
        AddVoter i \<Rightarrow>
          if is_learner current i then
            (let progressed = matched l i; need = last_index (core_log c)
             in if progressed < need then Inl (LearnerNotCaughtUp i progressed need)
                else Inr ())
          else Inl (PromoteRequiresLearner i)
      | _ \<Rightarrow> Inr ())"

definition leader_propose_config_change ::
  "Leader \<Rightarrow> Core \<Rightarrow> ConfigChange \<Rightarrow>
     (ConfigChangeError + Leader \<times> Core \<times> LogIndex \<times> Effects \<times> bool) option" where
  "leader_propose_config_change l c change =
     (let current = effective_config c;
          mode = cfg_membership_mode (core_config c)
      in case validate change current mode of
           Inl e \<Rightarrow> Some (Inl e)
         | Inr _ \<Rightarrow>
           (case promotion_check l c current change of
              Inl e \<Rightarrow> Some (Inl e)
            | Inr _ \<Rightarrow>
                if has_pending_config c then Some (Inl ChangeInProgress)
                else
                  (let new_config = apply_change change current mode;
                       index = last_index (core_log c) + 1;
                       c = log_mut (log_append \<lparr>entry_term = core_term c, entry_index = index,
                                                 entry_payload = ConfigEntry new_config\<rparr>) c;
                       l = (if \<not> cfg_parallel_disk_write (core_config c)
                            then l\<lparr>match_index := (match_index l)(core_id c \<mapsto> index)\<rparr> else l);
                       l = reinit_progress l c
                   in do {
                     (l, c, commit_effects, should_step_down) \<leftarrow> maybe_commit l c;
                     (l, effects) \<leftarrow> broadcast_append l c;
                     Some (Inr (l, c, index, eff_merge (with_persist effects) commit_effects,
                                should_step_down))
                   })))"

definition leader_transfer_leadership ::
  "Leader \<Rightarrow> Core \<Rightarrow> NodeId \<Rightarrow> TransferError + Effects" where
  "leader_transfer_leadership l c target =
     (if target = core_id c then Inl TargetIsSelf
      else if \<not> is_voter (effective_config c) target then Inl TargetNotVoter
      else
        (let last = last_index (core_log c); m = matched l target
         in if m < last then Inl (TargetLagging m last)
            else Inr (with_message eff_none (reply c target TimeoutNow))))"

section \<open>Events\<close>

text \<open>What a handler does with the outcome of \<open>maybe_commit\<close>.\<close>

definition after_commit ::
  "Leader \<Rightarrow> Core \<Rightarrow> (Leader \<times> Core \<times> StepResult) option" where
  "after_commit l c = do {
     (l, c, effects, should_step_down) \<leftarrow> maybe_commit l c;
     Some (l, c, if should_step_down then to_follower None effects else stay effects)
   }"

definition handle_disk_write_complete ::
  "Leader \<Rightarrow> Core \<Rightarrow> LogIndex \<Rightarrow> (Leader \<times> Core \<times> StepResult) option" where
  "handle_disk_write_complete l c index =
     (if index > matched l (core_id c)
      then after_commit (l\<lparr>match_index := (match_index l)(core_id c \<mapsto> index)\<rparr>) c
      else Some (l, c, sr_none))"

definition leader_handle_tick ::
  "Leader \<Rightarrow> Core \<Rightarrow> (Leader \<times> Core \<times> StepResult) option" where
  "leader_handle_tick l c =
     (let c = c\<lparr>ticks := ticks c + 1\<rparr> in
      if ticks c \<ge> heartbeat_deadline l then
        (let l = l\<lparr>heartbeat_deadline := ticks c + cfg_heartbeat_interval (core_config c)\<rparr> in do {
           (l, effects) \<leftarrow> broadcast_append l c;
           Some (l, c, stay (case pending_read_index l of
                               Some pending \<Rightarrow> eff_merge effects (read_index_requests c pending)
                             | None \<Rightarrow> effects))
         })
      else Some (l, c, sr_none))"

definition handle_append_response ::
  "Leader \<Rightarrow> Core \<Rightarrow> NodeId \<Rightarrow> AppendResponse \<Rightarrow> (Leader \<times> Core \<times> StepResult) option" where
  "handle_append_response l c from resp =
     (if \<not> is_member (effective_config c) from then Some (l, c, sr_none)
      else if aresp_success resp then
        (let l = l\<lparr>match_index := (match_index l)(from \<mapsto> aresp_last_log_index resp)\<rparr>;
             l = (if \<not> cfg_pipelining (core_config c)
                  then l\<lparr>next_index := (next_index l)(from \<mapsto> aresp_last_log_index resp + 1)\<rparr>
                  else l)
         in after_commit l c)
      else
        (let match_idx = matched l from;
             hinted = max (aresp_last_log_index resp + 1) 1;
             new_next = (if cfg_pipelining (core_config c) then max hinted (match_idx + 1)
                         else hinted);
             l = l\<lparr>next_index := (next_index l)(from \<mapsto> new_next)\<rparr>
         in do {
           (l, effects) \<leftarrow> send_append_to l c from;
           Some (l, c, stay effects)
         }))"

definition handle_install_snapshot_response ::
  "Leader \<Rightarrow> Core \<Rightarrow> NodeId \<Rightarrow> InstallSnapshotResponse \<Rightarrow>
     (Leader \<times> Core \<times> StepResult) option" where
  "handle_install_snapshot_response l c from resp =
     (if \<not> isresp_success resp \<or> \<not> is_member (effective_config c) from
      then Some (l, c, sr_none)
      else if isresp_last_included_index resp \<le> matched l from then Some (l, c, sr_none)
      else after_commit
             (l\<lparr>match_index := (match_index l)(from \<mapsto> isresp_last_included_index resp),
                next_index := (next_index l)(from \<mapsto> isresp_last_included_index resp + 1)\<rparr>) c)"

definition leader_handle_vote_request :: "Core \<Rightarrow> NodeId \<Rightarrow> StepResult" where
  "leader_handle_vote_request c from = refuse_vote c from"

definition deny_prevote :: "Core \<Rightarrow> NodeId \<Rightarrow> Effects" where
  "deny_prevote c from =
     with_message eff_none (reply c from (PreVoteResponse
       \<lparr>pvresp_term = core_term c, pvresp_granted = False\<rparr>))"

definition leader_reject_stale :: "Core \<Rightarrow> Message \<Rightarrow> Effects" where
  "leader_reject_stale c msg =
     (case msg_payload msg of
        VoteRequest r \<Rightarrow> with_message eff_none
          (reply c (msg_from msg) (VoteResponse \<lparr>vresp_granted = False\<rparr>))
      | AppendRequest r \<Rightarrow> with_message eff_none
          (reply c (msg_from msg) (AppendResponse
             \<lparr>aresp_success = False, aresp_last_log_index = last_index (core_log c)\<rparr>))
      | _ \<Rightarrow> eff_none)"

definition leader_dispatch ::
  "Leader \<Rightarrow> Core \<Rightarrow> Message \<Rightarrow> (Leader \<times> Core \<times> StepResult) option" where
  "leader_dispatch l c msg =
     (case msg_payload msg of
        AppendResponse resp \<Rightarrow> handle_append_response l c (msg_from msg) resp
      | InstallSnapshotResponse resp \<Rightarrow>
          handle_install_snapshot_response l c (msg_from msg) resp
      | ReadIndexResponse resp \<Rightarrow>
          (case handle_read_index_response l (msg_from msg) resp of (l, r) \<Rightarrow> Some (l, c, r))
      | VoteRequest req \<Rightarrow> Some (l, c, leader_handle_vote_request c (msg_from msg))
      | _ \<Rightarrow> Some (l, c, sr_none))"

definition leader_on_message ::
  "Leader \<Rightarrow> Core \<Rightarrow> Message \<Rightarrow> (Leader \<times> Core \<times> StepResult) option" where
  "leader_on_message l c msg =
     (case msg_payload msg of
        PreVoteRequest req \<Rightarrow> Some (l, c, stay (deny_prevote c (msg_from msg)))
      | _ \<Rightarrow>
          if msg_term msg > core_term c
          then (case step_down c msg of (c, r) \<Rightarrow> Some (l, c, r))
          else if msg_term msg < core_term c
          then Some (l, c, stay (leader_reject_stale c msg))
          else leader_dispatch l c msg)"

definition leader_step ::
  "Leader \<Rightarrow> Core \<Rightarrow> Event \<Rightarrow> (Leader \<times> Core \<times> StepResult) option" where
  "leader_step l c ev =
     (case ev of
        Tick \<Rightarrow> leader_handle_tick l c
      | DiskWriteComplete index \<Rightarrow> handle_disk_write_complete l c index
      | MessageEvent msg \<Rightarrow> leader_on_message l c msg)"

section \<open>What a leader leaves alone\<close>

text \<open>Within its term a leader changes neither term nor vote, and it only ever appends entries
  of its own term to its log.\<close>

definition leader_evolves :: "Core \<Rightarrow> Core \<Rightarrow> bool" where
  "leader_evolves c c' \<longleftrightarrow>
     core_config c' = core_config c \<and> core_term c' = core_term c \<and> voted_for c' = voted_for c \<and>
     p_bootstrap_config (persistent c') = p_bootstrap_config (persistent c) \<and>
     ticks c' = ticks c \<and> last_applied c' = last_applied c \<and>
     (\<exists>es. core_log c' = (core_log c)\<lparr>entries := entries (core_log c) @ es\<rparr> \<and>
        (\<forall>e \<in> set es. entry_term e = core_term c))"

lemma leader_evolves_refl [simp]: "leader_evolves c c"
  unfolding leader_evolves_def by (auto intro!: exI [of _ "[]"])

lemma leader_evolves_trans:
  assumes "leader_evolves a b" "leader_evolves b c"
  shows "leader_evolves a c"
proof -
  from assms obtain xs ys where
    "core_log b = (core_log a)\<lparr>entries := entries (core_log a) @ xs\<rparr>"
    "\<forall>e \<in> set xs. entry_term e = core_term a"
    "core_log c = (core_log b)\<lparr>entries := entries (core_log b) @ ys\<rparr>"
    "\<forall>e \<in> set ys. entry_term e = core_term b" "core_term b = core_term a"
    unfolding leader_evolves_def by blast
  then have "core_log c = (core_log a)\<lparr>entries := entries (core_log a) @ (xs @ ys)\<rparr> \<and>
      (\<forall>e \<in> set (xs @ ys). entry_term e = core_term a)"
    by auto
  then show ?thesis using assms unfolding leader_evolves_def by auto
qed

lemma leader_evolves_commit [simp]:
  "leader_evolves c (c'\<lparr>commit_index := i\<rparr>) = leader_evolves c c'"
  by (simp add: leader_evolves_def)

lemma leader_evolves_append:
  "entry_term e = core_term c \<Longrightarrow> leader_evolves c (log_mut (log_append e) c)"
  by (auto simp: leader_evolves_def log_append_def intro!: exI [of _ "[e]"])

lemma leader_evolves_core: "leader_evolves c c' \<Longrightarrow> core_evolves c c'"
  by (simp add: leader_evolves_def core_evolves_def)

lemma leader_evolves_id: "leader_evolves c c' \<Longrightarrow> core_id c' = core_id c"
  by (simp add: leader_evolves_core core_evolves_id)

section \<open>Effects of replication\<close>

lemma send_append_to_quiet:
  "send_append_to l c to = Some (l', e) \<Longrightarrow> quiet (core_id c) e"
  by (auto simp: send_append_to_def Option.bind_eq_Some_conv Let_def split: if_splits)

lemma broadcast_append_inv:
  assumes "broadcast_append l c = Some (l', e)" "P l eff_none"
    and "\<And>to l e l' e'. P l e \<Longrightarrow> send_append_to l c to = Some (l', e') \<Longrightarrow> P l' (eff_merge e e')"
  shows "P l' e"
proof -
  have "case_prod P (l', e)"
    using assms(1) unfolding broadcast_append_def
    by (rule fold_opt_invariant) (use assms(2,3) in auto)
  then show ?thesis by simp
qed

lemma broadcast_append_quiet:
  assumes "broadcast_append l c = Some (l', e)"
  shows "quiet (core_id c) e"
  using assms by (rule broadcast_append_inv [where P = "\<lambda>_. quiet (core_id c)"])
    (auto dest: send_append_to_quiet)

lemma try_auto_transfer_quiet [simp]: "quiet (core_id c) (try_auto_transfer l c cfg)"
  by (simp add: try_auto_transfer_def Let_def split: option.splits)

lemma read_index_requests_quiet [simp]: "core_id c = i \<Longrightarrow> quiet i (read_index_requests c p)"
  by (simp add: read_index_requests_def)

section \<open>Commitment leaves the election state alone\<close>

lemma advance_commit_index_frame [simp]:
  "persistent (advance_commit_index l c) = persistent c"
  "core_config (advance_commit_index l c) = core_config c"
  "core_id (advance_commit_index l c) = core_id c"
  "core_log (advance_commit_index l c) = core_log c"
  "core_term (advance_commit_index l c) = core_term c"
  "ticks (advance_commit_index l c) = ticks c"
  "last_applied (advance_commit_index l c) = last_applied c"
  "leader_evolves c0 (advance_commit_index l c) = leader_evolves c0 c"
  by (simp_all add: advance_commit_index_def Let_def split: option.splits)

fun result_effects :: "ConfigCommitResult \<Rightarrow> Effects" where
  "result_effects (Continue e) = e"
| "result_effects (StepDown e) = e"
| "result_effects Done = eff_none"

lemma append_transition_target_frame:
  assumes "append_transition_target l c target = Some (l', c', e)"
  shows "leader_evolves c c' \<and> quiet (core_id c) e \<and> eff_persist e"
  using assms
  by (auto simp: append_transition_target_def Option.bind_eq_Some_conv Let_def
      dest: broadcast_append_quiet intro!: leader_evolves_append)

lemma process_config_entries_frame:
  assumes "process_config_entries l c idxs = Some (l', c', res)"
  shows "leader_evolves c c' \<and> quiet (core_id c) (result_effects res) \<and>
    persisted c c' (result_effects res)"
  using assms
  by (induction l c idxs rule: process_config_entries.induct)
    (auto simp: Option.bind_eq_Some_conv persisted_def append_transition_target_frame
      dest: append_transition_target_frame
      split: option.splits EntryPayload.splits if_splits)

lemma maybe_commit_loop_frame:
  assumes "maybe_commit_loop l c e = Some y"
  shows "case y of (l', c', e', b) \<Rightarrow>
    leader_evolves c c' \<and> (quiet (core_id c) e \<longrightarrow> quiet (core_id c) e') \<and>
    (eff_persist e \<longrightarrow> eff_persist e') \<and> persisted c c' e'"
  using assms
proof (induction rule: maybe_commit_loop.raw_induct [rotated, consumes 1, case_names step])
  case (step rec l c e y)
  let ?c = "advance_commit_index l c"
  show ?case
  proof (cases "commit_index ?c = commit_index c")
    case True
    with step(2) show ?thesis by (auto simp: persisted_def Let_def)
  next
    case False
    with step(2) obtain l1 c1 res where
      conf: "process_committed_configs l ?c (commit_index c) = Some (l1, c1, res)"
      and y: "(case res of Continue e1 \<Rightarrow> rec l1 c1 (eff_merge e e1)
                | StepDown e1 \<Rightarrow> Some (l1, c1, eff_merge e e1, True)
                | Done \<Rightarrow> Some (l1, c1, e, False)) = Some y"
      by (auto simp: Option.bind_eq_Some_conv Let_def)
    from process_config_entries_frame [OF conf [unfolded process_committed_configs_def]]
    have c1: "leader_evolves c c1" "quiet (core_id c) (result_effects res)"
      "persisted c c1 (result_effects res)"
      by (auto simp: persisted_def leader_evolves_def)
    show ?thesis
    proof (cases res)
      case (Continue e1)
      with y have "rec l1 c1 (eff_merge e e1) = Some y" by simp
      from step(1) [OF this] c1 Continue leader_evolves_id [OF c1(1)] show ?thesis
        by (auto simp: persisted_def intro: leader_evolves_trans)
    qed (use y c1 in \<open>auto simp: persisted_def\<close>)
  qed
qed

lemma maybe_commit_frame:
  assumes "maybe_commit l c = Some (l', c', e, b)"
  shows "leader_evolves c c'" "quiet (core_id c) e" "persisted c c' e"
  using maybe_commit_loop_frame [OF assms [unfolded maybe_commit_def]] by auto

lemma after_commit_frame:
  assumes "after_commit l c = Some (l', c', r)"
  shows "leader_evolves c c'" "quiet (core_id c) (sr_effects r)" "persisted c c' (sr_effects r)"
  using assms maybe_commit_frame
  by (auto simp: after_commit_def Option.bind_eq_Some_conv split: if_splits)

section \<open>The contract of the role\<close>

definition leader_step_ok :: "Core \<Rightarrow> Core \<Rightarrow> StepResult \<Rightarrow> bool" where
  "leader_step_ok c c' r \<longleftrightarrow>
     leader_evolves c (c'\<lparr>ticks := ticks c\<rparr>) \<and> quiet (core_id c) (sr_effects r) \<and>
     persisted c c' (sr_effects r)"

lemma leader_evolves_ticks: "leader_evolves c c' \<Longrightarrow> c'\<lparr>ticks := ticks c\<rparr> = c'"
  by (simp add: leader_evolves_def)

lemma after_commit_ok: "after_commit l c = Some (l', c', r) \<Longrightarrow> leader_step_ok c c' r"
  using after_commit_frame [of l c l' c' r] by (simp add: leader_step_ok_def leader_evolves_ticks)

lemma leader_step_ok_same:
  "quiet (core_id c) (sr_effects r) \<Longrightarrow> leader_step_ok c c r"
  by (simp add: leader_step_ok_def persisted_def)

lemma leader_step_ok_stay:
  "quiet (core_id c) e \<Longrightarrow> leader_step_ok c c (stay e)" "leader_step_ok c c sr_none"
  by (simp_all add: leader_step_ok_same)

lemma handle_append_response_ok:
  "handle_append_response l c i resp = Some (l', c', r) \<Longrightarrow> leader_step_ok c c' r"
  by (auto simp: handle_append_response_def Option.bind_eq_Some_conv Let_def
      intro: after_commit_ok leader_step_ok_stay send_append_to_quiet split: if_splits)

lemma handle_install_snapshot_response_ok:
  "handle_install_snapshot_response l c i resp = Some (l', c', r) \<Longrightarrow> leader_step_ok c c' r"
  by (auto simp: handle_install_snapshot_response_def
      intro: after_commit_ok leader_step_ok_stay split: if_splits)

lemma handle_disk_write_complete_ok:
  "handle_disk_write_complete l c i = Some (l', c', r) \<Longrightarrow> leader_step_ok c c' r"
  by (auto simp: handle_disk_write_complete_def
      intro: after_commit_ok leader_step_ok_stay split: if_splits)

lemma handle_read_index_response_stays:
  "handle_read_index_response l i resp = (l', r) \<Longrightarrow> r = sr_none"
  by (auto simp: handle_read_index_response_def Let_def split: option.splits if_splits)

lemma leader_dispatch_ok:
  "leader_dispatch l c m = Some (l', c', r) \<Longrightarrow> leader_step_ok c c' r"
  by (auto simp: leader_dispatch_def leader_handle_vote_request_def
      intro: handle_append_response_ok handle_install_snapshot_response_ok leader_step_ok_stay
        leader_step_ok_same
      dest!: handle_read_index_response_stays split: Payload.splits prod.splits)

lemma leader_handle_tick_ok:
  "leader_handle_tick l c = Some (l', c', r) \<Longrightarrow> leader_step_ok c c' r"
  by (auto simp: leader_handle_tick_def leader_step_ok_def persisted_def
      Option.bind_eq_Some_conv Let_def dest!: broadcast_append_quiet
      split: if_splits option.splits)

lemma leader_reject_quiet [simp]:
  "quiet (core_id c) (leader_reject_stale c m)" "quiet (core_id c) (deny_prevote c i)"
  by (simp_all add: leader_reject_stale_def deny_prevote_def split: Payload.splits)

lemma leader_on_message_cases:
  assumes "leader_on_message l c m = Some (l', c', r)"
  obtains (refuse) e where "l' = l" "c' = c" "r = stay e" "quiet (core_id c) e"
  | (newer) "l' = l" "core_term c < msg_term m" "step_down c m = (c', r)"
  | (dispatch) "msg_term m = core_term c" "leader_dispatch l c m = Some (l', c', r)"
proof (cases "\<exists>req. msg_payload m = PreVoteRequest req")
  case True
  with assms show thesis
    by (intro refuse [of "sr_effects r"]) (auto simp: leader_on_message_def)
next
  case False
  then have main: "leader_on_message l c m =
      (if msg_term m > core_term c
       then (case step_down c m of (c, r) \<Rightarrow> Some (l, c, r))
       else if msg_term m < core_term c
       then Some (l, c, stay (leader_reject_stale c m))
       else leader_dispatch l c m)"
    unfolding leader_on_message_def by (cases "msg_payload m") auto
  consider "core_term c < msg_term m" | "msg_term m < core_term c" | "msg_term m = core_term c"
    by fastforce
  then show thesis
  proof cases
    case 1
    with assms main show thesis by (intro newer) (auto split: prod.splits)
  next
    case 2
    then have "\<not> core_term c < msg_term m" by simp
    with 2 assms main show thesis by (intro refuse [of "leader_reject_stale c m"]) auto
  next
    case 3
    with assms main show thesis by (intro dispatch) auto
  qed
qed

text \<open>Every event leaves the leader in its term with a log that has only grown, or makes it
  adopt a newer term and step down.\<close>

lemma leader_step_cases:
  assumes "leader_step l c ev = Some (l', c', r)"
  obtains (lead) "leader_step_ok c c' r"
  | (newer) m where "ev = MessageEvent m" "core_term c < msg_term m" "step_down c m = (c', r)"
proof (cases ev)
  case Tick
  with assms show thesis by (intro lead leader_handle_tick_ok) (simp add: leader_step_def)
next
  case (DiskWriteComplete i)
  with assms show thesis by (intro lead handle_disk_write_complete_ok) (simp add: leader_step_def)
next
  case (MessageEvent m)
  with assms have "leader_on_message l c m = Some (l', c', r)" by (simp add: leader_step_def)
  then show thesis
    by (cases rule: leader_on_message_cases)
      (auto intro: lead leader_step_ok_stay leader_dispatch_ok newer [OF MessageEvent])
qed

interpretation leader_role: raft_role leader_step
proof
  fix l c ev l' c' r
  assume step: "leader_step l c ev = Some (l', c', r)"
  then have "step_ok c c' r \<and> persisted c c' (sr_effects r)"
  proof (cases rule: leader_step_cases)
    case lead
    then show ?thesis
      using leader_evolves_core [of c "c'\<lparr>ticks := ticks c\<rparr>"]
      by (auto simp: leader_step_ok_def intro!: step_okI)
  qed (simp add: step_down_ok)
  then show "step_ok c c' r"
    "wf_log (core_log c) \<Longrightarrow> agrees_with_snapshot (core_log c) ev \<Longrightarrow>
       persisted c c' (sr_effects r)"
    "log_only c c' (sr_effects r)"
    by (simp_all add: persisted_log_only)
  show "core_term c' \<in> event_terms c ev" if "sr_transition r \<in> {ToPreCandidate, ToCandidate}"
    using step that
    by (cases rule: leader_step_cases)
      (auto simp: event_terms_def leader_step_ok_def leader_evolves_def step_down_def)
qed

section \<open>Properties\<close>

definition sample_leader :: Leader where
  "sample_leader =
     \<lparr>next_index = [NodeId 1 \<mapsto> 9, NodeId 2 \<mapsto> 9, NodeId 3 \<mapsto> 7],
      match_index = [NodeId 1 \<mapsto> 8, NodeId 2 \<mapsto> 8, NodeId 3 \<mapsto> 6], heartbeat_deadline = 75,
      sent_index = Map.empty, next_read_id = 2,
      pending_read_index = Some \<lparr>pri_id = 1, pri_read_index = 6,
        pri_configuration = config_simple [NodeId 1, NodeId 2, NodeId 3], pri_acks = {NodeId 1}\<rparr>,
      confirmed_read_index = 0\<rparr>"

text \<open>An index the leader may commit: an entry of its own term that the recorded \<open>match_index\<close> of a
  quorum of voters reaches.\<close>

definition committable :: "Leader \<Rightarrow> Core \<Rightarrow> LogIndex \<Rightarrow> bool" where
  "committable l c k \<longleftrightarrow>
     commit_index c < k \<and> k \<le> last_index (core_log c) \<and> term_at (core_log c) k = core_term c \<and>
     has_quorum (effective_config c) (\<lambda>v. k \<le> matched l v)"

lemma advance_commit_index_cases:
  assumes "commit_index c \<noteq> u64_max"
  obtains (none) "advance_commit_index l c = c" "\<forall>k. \<not> committable l c k"
  | (some) k where "advance_commit_index l c = c\<lparr>commit_index := k\<rparr>" "committable l c k"
      "\<forall>j > k. \<not> committable l c j"
proof -
  let ?ok = "\<lambda>k. term_at (core_log c) k = core_term c \<and>
    has_quorum (effective_config c) (\<lambda>v. k \<le> matched l v)"
  let ?r = "range_incl (commit_index c + 1) (last_index (core_log c))"
  have mem: "committable l c k \<longleftrightarrow> k \<in> set ?r \<and> ?ok k" for k
    using u64_inc_le_iff [OF assms] by (auto simp: committable_def)
  have eq: "advance_commit_index l c = (case find ?ok (rev ?r) of
      Some k \<Rightarrow> c\<lparr>commit_index := k\<rparr> | None \<Rightarrow> c)"
    by (simp add: advance_commit_index_def Let_def)
  show thesis
  proof (cases "find ?ok (rev ?r)")
    case None
    then have "\<forall>k. \<not> committable l c k" unfolding mem find_None_iff by auto
    with None eq show thesis by (intro none) simp_all
  next
    case (Some k)
    from find_rev_greatest [OF sorted_range_incl this]
    have "committable l c k" "\<forall>j > k. \<not> committable l c j" unfolding mem by blast+
    with Some eq show thesis by (intro some) simp_all
  qed
qed

text \<open>C20: the commit rule. The leader moves its commit index to the greatest index that is
  committable: there is an entry of its current term, and the \<open>match_index\<close> recorded for the voters
  reaches it for a quorum of the effective configuration. When there is none it leaves the commit
  index where it is. It changes nothing else. Whether the voters store the entry is another matter:
  the responses from which \<open>match_index\<close> is recorded may claim too much.\<close>

theorem commit_greatest_quorum_index:
  assumes "commit_index c \<noteq> u64_max"
  shows "if \<exists>k. committable l c k
    then \<exists>k. advance_commit_index l c = c\<lparr>commit_index := k\<rparr> \<and> committable l c k \<and>
      {j. committable l c j} \<subseteq> {..k}
    else advance_commit_index l c = c"
  using assms
proof (cases rule: advance_commit_index_cases [where l = l])
  case none
  then show ?thesis by simp
next
  case (some k)
  then have "{j. committable l c j} \<subseteq> {..k}" by (auto simp: not_less [symmetric])
  with some show ?thesis by auto
qed

theorem commit_greatest_quorum_index_witness:
  "committable sample_leader sample_core 8 \<and>
   (\<exists>k. advance_commit_index sample_leader sample_core = sample_core\<lparr>commit_index := k\<rparr> \<and> 8 \<le> k)"
proof -
  have c: "commit_index sample_core \<noteq> u64_max" "committable sample_leader sample_core 8"
    by code_simp+
  then have ex: "\<exists>k. committable sample_leader sample_core k" by blast
  from commit_greatest_quorum_index [OF c(1), of sample_leader]
  have "\<exists>k. advance_commit_index sample_leader sample_core = sample_core\<lparr>commit_index := k\<rparr> \<and>
      committable sample_leader sample_core k \<and> {j. committable sample_leader sample_core j} \<subseteq> {..k}"
    unfolding if_P [OF ex] .
  with c(2) show ?thesis by blast
qed



lemma range_length:
  assumes "wf_log l" "snapshot_index l < a"
  shows "length (filter (\<lambda>e. a \<le> entry_index e \<and> entry_index e \<le> b) (entries l)) =
    min (unat b) (unat (last_index l)) + 1 - unat a"
  unfolding filter_index_range [OF assms(1)] unat_last_index [OF assms(1)]
  using assms(2) by (auto simp: word_less_nat_alt min_def)

lemma send_append_to_eq:
  assumes "wf_log (core_log c)" "snapshot_index (core_log c) < unwrap_or (next_index l to) 1"
  defines "n \<equiv> unwrap_or (next_index l to) 1"
  shows "\<exists>l'. match_index l' = match_index l \<and>
    send_append_to l c to = Some (l', with_message eff_none (reply c to (AppendRequest
      \<lparr>areq_prev_log_index = n - 1, areq_prev_log_term = term_at (core_log c) (n - 1),
       areq_entries = filter (\<lambda>e. n \<le> entry_index e \<and>
         entry_index e \<le> min (n + cfg_max_entries_per_msg (core_config c)) (last_index (core_log c) + 1))
         (entries (core_log c)),
       areq_leader_commit = commit_index c\<rparr>)))"
proof -
  let ?s = "snapshot_index (core_log c)"
  have "\<not> n \<le> ?s" "n \<noteq> 0" using assms(2) by (auto simp: n_def)
  then have "1 \<le> n" using u64_inc_le_iff [of 0 n] by (simp add: word_neq_0_conv)
  then have prev: "saturating_sub n 1 = n - 1"
    using \<open>n \<noteq> 0\<close> by (simp add: saturating_sub_def)
  have "unat (n - 1) = unat n - 1" using \<open>1 \<le> n\<close> by (simp add: unat_diff_u64)
  then have "n - 1 \<le> ?s \<Longrightarrow> n - 1 = ?s"
    using assms(2) by (simp add: n_def word_le_nat_alt word_less_nat_alt word_unat_eq_iff)
  then have t: "(if n - 1 \<le> ?s \<and> n - 1 > 0 then snapshot_term (core_log c)
      else term_at (core_log c) (n - 1)) = term_at (core_log c) (n - 1)"
    by (auto simp: term_at_def)
  show ?thesis
    unfolding send_append_to_def n_def [symmetric] Let_def if_not_P [OF \<open>\<not> n \<le> ?s\<close>] prev t
      log_slice_eq [OF assms(1)]
    by simp
qed

text \<open>C22: batches. An \<open>AppendRequest\<close> to a peer whose next entry is in the log carries all
  remaining entries, but at most one more than \<open>max_entries_per_msg\<close>: the slice that
  \<open>send_append_to\<close> takes includes its upper end.\<close>

theorem append_batch_size:
  assumes "send_append_to l c to = Some (l', e)" "wf_log (core_log c)"
    and "snapshot_index (core_log c) < unwrap_or (next_index l to) 1"
    and "unwrap_or (next_index l to) 1 \<le>
      unwrap_or (next_index l to) 1 + cfg_max_entries_per_msg (core_config c)"
    and "last_index (core_log c) \<noteq> u64_max"
  shows "\<exists>req. eff_messages e = [reply c to (AppendRequest req)] \<and> eff_send_snapshots e = [] \<and>
    length (areq_entries req) = min (unat (cfg_max_entries_per_msg (core_config c)) + 1)
      (unat (last_index (core_log c)) + 1 - unat (unwrap_or (next_index l to) 1))"
proof -
  let ?n = "unwrap_or (next_index l to) 1" and ?m = "cfg_max_entries_per_msg (core_config c)"
  let ?up = "min (?n + ?m) (last_index (core_log c) + 1)"
  have "unat (?n + ?m) = unat ?n + unat ?m" using assms(4) by (simp add: unat_plus_simple)
  then have e: "unat ?up = min (unat ?n + unat ?m) (Suc (unat (last_index (core_log c))))"
    using unat_inc [OF assms(5)] by (simp add: min_def word_le_nat_alt)
  have "length (filter (\<lambda>e. ?n \<le> entry_index e \<and> entry_index e \<le> ?up) (entries (core_log c))) =
      min (unat ?m + 1) (unat (last_index (core_log c)) + 1 - unat ?n)"
    unfolding range_length [OF assms(2,3)] e by (auto simp: min_def)
  moreover obtain l1 where "send_append_to l c to = Some (l1, with_message eff_none (reply c to (AppendRequest
      \<lparr>areq_prev_log_index = ?n - 1, areq_prev_log_term = term_at (core_log c) (?n - 1),
       areq_entries = filter (\<lambda>e. ?n \<le> entry_index e \<and> entry_index e \<le> ?up) (entries (core_log c)),
       areq_leader_commit = commit_index c\<rparr>)))"
    using send_append_to_eq [OF assms(2,3)] by blast
  ultimately show ?thesis using assms(1) by fastforce
qed

theorem append_batch_size_witness:
  "\<exists>l' e req. send_append_to sample_leader
       (sample_core\<lparr>core_config := (core_config sample_core)\<lparr>cfg_max_entries_per_msg := 1\<rparr>\<rparr>)
       (NodeId 3) = Some (l', e) \<and>
     map msg_payload (eff_messages e) = [AppendRequest req] \<and> length (areq_entries req) = 2"
proof -
  let ?c = "sample_core\<lparr>core_config := (core_config sample_core)\<lparr>cfg_max_entries_per_msg := 1\<rparr>\<rparr>"
  have "send_append_to sample_leader ?c (NodeId 3) \<noteq> None" by code_simp
  then obtain l' e where s: "send_append_to sample_leader ?c (NodeId 3) = Some (l', e)" by auto
  have h: "wf_log (core_log ?c)"
    "snapshot_index (core_log ?c) < unwrap_or (next_index sample_leader (NodeId 3)) 1"
    "unwrap_or (next_index sample_leader (NodeId 3)) 1 \<le>
       unwrap_or (next_index sample_leader (NodeId 3)) 1 + cfg_max_entries_per_msg (core_config ?c)"
    "last_index (core_log ?c) \<noteq> u64_max"
    "min (unat (cfg_max_entries_per_msg (core_config ?c)) + 1) (unat (last_index (core_log ?c)) + 1 -
       unat (unwrap_or (next_index sample_leader (NodeId 3)) 1)) = 2"
    by code_simp+
  from append_batch_size [OF s h(1-4)] obtain req where
    "eff_messages e = [reply ?c (NodeId 3) (AppendRequest req)]" "length (areq_entries req) = 2"
    unfolding h(5) by blast
  with s show ?thesis by (intro exI [of _ l'] exI [of _ e] exI [of _ req]) simp
qed

end
