(* ===== verification/Raft_Node.thy ===== *)
theory Raft_Node
  imports Raft_Leader
begin

text \<open>
  The Raft node (\<open>consensus/cloud9-raft/src/raft/mod.rs\<close>): the core with the state of the
  current role, the dispatch of events to the role, the role transitions and the public
  operations. The panicking outcome of an operation is \<open>None\<close>.
\<close>

datatype RoleState =
    RFollower Follower
  | RPreCandidate PreCandidate
  | RCandidate Candidate
  | RLeader Leader

record RaftNode =
  node_core :: Core
  node_role :: RoleState

fun role_is_leader :: "RoleState \<Rightarrow> bool" where
  "role_is_leader (RLeader l) = True"
| "role_is_leader _ = False"

fun role_is_candidate :: "RoleState \<Rightarrow> bool" where
  "role_is_candidate (RCandidate s) = True"
| "role_is_candidate _ = False"

fun role_is_precandidate :: "RoleState \<Rightarrow> bool" where
  "role_is_precandidate (RPreCandidate s) = True"
| "role_is_precandidate _ = False"

fun role_is_follower :: "RoleState \<Rightarrow> bool" where
  "role_is_follower (RFollower f) = True"
| "role_is_follower _ = False"

section \<open>Construction and accessors\<close>

definition node_new :: "Config \<Rightarrow> NodeId list \<Rightarrow> RaftNode option" where
  "node_new cfg vs = do {
     (f, c) \<leftarrow> follower_new (core_new cfg vs) None;
     Some \<lparr>node_core = c, node_role = RFollower f\<rparr>
   }"

definition node_restore :: "Config \<Rightarrow> Persistent \<Rightarrow> RaftNode option" where
  "node_restore cfg p = do {
     (f, c) \<leftarrow> follower_new (core_restore cfg p) None;
     Some \<lparr>node_core = c, node_role = RFollower f\<rparr>
   }"

definition node_id :: "RaftNode \<Rightarrow> NodeId" where
  "node_id n = core_id (node_core n)"

definition node_term :: "RaftNode \<Rightarrow> Term" where
  "node_term n = core_term (node_core n)"

definition node_is_leader :: "RaftNode \<Rightarrow> bool" where
  "node_is_leader n = role_is_leader (node_role n)"

definition node_is_follower :: "RaftNode \<Rightarrow> bool" where
  "node_is_follower n = role_is_follower (node_role n)"

definition node_is_candidate :: "RaftNode \<Rightarrow> bool" where
  "node_is_candidate n = role_is_candidate (node_role n)"

definition node_is_precandidate :: "RaftNode \<Rightarrow> bool" where
  "node_is_precandidate n = role_is_precandidate (node_role n)"

definition node_leader :: "RaftNode \<Rightarrow> NodeId option" where
  "node_leader n =
     (case node_role n of
        RLeader l \<Rightarrow> Some (core_id (node_core n))
      | RFollower f \<Rightarrow> f_leader f
      | RPreCandidate s \<Rightarrow> None
      | RCandidate s \<Rightarrow> None)"

definition node_commit_index :: "RaftNode \<Rightarrow> LogIndex" where
  "node_commit_index n = commit_index (node_core n)"

definition node_persistent :: "RaftNode \<Rightarrow> Persistent" where
  "node_persistent n = persistent (node_core n)"

definition node_ticks_until_deadline :: "RaftNode \<Rightarrow> u64" where
  "node_ticks_until_deadline n =
     (case node_role n of
        RFollower f \<Rightarrow> follower_ticks_until_deadline f (ticks (node_core n))
      | RPreCandidate p \<Rightarrow> precandidate_ticks_until_deadline p (ticks (node_core n))
      | RCandidate s \<Rightarrow> candidate_ticks_until_deadline s (ticks (node_core n))
      | RLeader l \<Rightarrow> leader_ticks_until_deadline l (ticks (node_core n)))"

section \<open>Transitions\<close>

definition become_follower :: "Core \<Rightarrow> NodeId option \<Rightarrow> (RaftNode \<times> Effects) option" where
  "become_follower c leader = do {
     (f, c) \<leftarrow> follower_new c leader;
     Some (\<lparr>node_core = c, node_role = RFollower f\<rparr>, eff_none)
   }"

definition become_leader :: "Core \<Rightarrow> (RaftNode \<times> Effects) option" where
  "become_leader c = do {
     (l, effects) \<leftarrow> leader_new c;
     Some (\<lparr>node_core = c, node_role = RLeader l\<rparr>, effects)
   }"

definition become_candidate :: "Core \<Rightarrow> (RaftNode \<times> Effects) option" where
  "become_candidate c = do {
     (candidate, c, effects) \<leftarrow> candidate_new c;
     if candidate_has_quorum candidate c then do {
       (n, leader_effects) \<leftarrow> become_leader c;
       Some (n, eff_merge effects leader_effects)
     }
     else Some (\<lparr>node_core = c, node_role = RCandidate candidate\<rparr>, effects)
   }"

definition become_precandidate :: "Core \<Rightarrow> (RaftNode \<times> Effects) option" where
  "become_precandidate c = do {
     (precandidate, c, effects) \<leftarrow> precandidate_new c;
     if precandidate_has_quorum precandidate c then do {
       (n, candidate_effects) \<leftarrow> become_candidate c;
       Some (n, eff_merge effects candidate_effects)
     }
     else Some (\<lparr>node_core = c, node_role = RPreCandidate precandidate\<rparr>, effects)
   }"

definition apply_transition :: "RaftNode \<Rightarrow> Transition \<Rightarrow> (RaftNode \<times> Effects) option" where
  "apply_transition n tr =
     (case tr of
        Stay \<Rightarrow> Some (n, eff_none)
      | ToFollower leader \<Rightarrow> become_follower (node_core n) leader
      | ToFollowerAfterContact leader \<Rightarrow> do {
          (f, c) \<leftarrow> after_leader_contact (node_core n) leader;
          Some (\<lparr>node_core = c, node_role = RFollower f\<rparr>, eff_none)
        }
      | ToPreCandidate \<Rightarrow> become_precandidate (node_core n)
      | ToCandidate \<Rightarrow> become_candidate (node_core n)
      | ToLeader \<Rightarrow> become_leader (node_core n))"

section \<open>Events\<close>

definition role_step :: "RaftNode \<Rightarrow> Event \<Rightarrow> (RaftNode \<times> StepResult) option" where
  "role_step n ev =
     (case node_role n of
        RFollower f \<Rightarrow>
          map_option (\<lambda>(f, c, r). (\<lparr>node_core = c, node_role = RFollower f\<rparr>, r))
            (follower_step f (node_core n) ev)
      | RPreCandidate p \<Rightarrow>
          map_option (\<lambda>(p, c, r). (\<lparr>node_core = c, node_role = RPreCandidate p\<rparr>, r))
            (precandidate_step p (node_core n) ev)
      | RCandidate s \<Rightarrow>
          map_option (\<lambda>(s, c, r). (\<lparr>node_core = c, node_role = RCandidate s\<rparr>, r))
            (candidate_step s (node_core n) ev)
      | RLeader l \<Rightarrow>
          map_option (\<lambda>(l, c, r). (\<lparr>node_core = c, node_role = RLeader l\<rparr>, r))
            (leader_step l (node_core n) ev))"

definition step_event :: "RaftNode \<Rightarrow> Event \<Rightarrow> (RaftNode \<times> Effects) option" where
  "step_event n ev = do {
     (n, result) \<leftarrow> role_step n ev;
     (case sr_transition result of
        Stay \<Rightarrow> Some (n, sr_effects result)
      | tr \<Rightarrow> do {
          (n, transition_effects) \<leftarrow> apply_transition n tr;
          Some (n, eff_merge (sr_effects result) transition_effects)
        })
   }"

definition node_tick :: "RaftNode \<Rightarrow> (RaftNode \<times> Effects) option" where
  "node_tick n = step_event n Tick"

definition node_step :: "RaftNode \<Rightarrow> Message \<Rightarrow> (RaftNode \<times> Effects) option" where
  "node_step n msg = step_event n (MessageEvent msg)"

definition node_disk_write_complete ::
  "RaftNode \<Rightarrow> LogIndex \<Rightarrow> (RaftNode \<times> Effects) option" where
  "node_disk_write_complete n index = step_event n (DiskWriteComplete index)"

section \<open>Public operations\<close>

text \<open>The tail of both proposal operations: follow the step-down flag.\<close>

definition settle_leader :: "Leader \<Rightarrow> Core \<Rightarrow> bool \<Rightarrow> RaftNode option" where
  "settle_leader l c should_step_down =
     (if should_step_down then do {
        (f, c) \<leftarrow> follower_new c None;
        Some \<lparr>node_core = c, node_role = RFollower f\<rparr>
      }
      else Some \<lparr>node_core = c, node_role = RLeader l\<rparr>)"

definition node_propose ::
  "RaftNode \<Rightarrow> Command \<Rightarrow> (RaftNode \<times> (ProposeError + LogIndex \<times> Effects)) option" where
  "node_propose n cmd =
     (case node_role n of
        RLeader l \<Rightarrow> do {
          exceeded \<leftarrow> proposal_limit_exceeded (node_core n) cmd;
          if exceeded then Some (n, Inl Throttled)
          else do {
            (l, c, index, effects, should_step_down) \<leftarrow> leader_propose l (node_core n) cmd;
            n' \<leftarrow> settle_leader l c should_step_down;
            Some (n', Inr (index, effects))
          }
        }
      | _ \<Rightarrow> Some (n, Inl (ProposeNotLeader (node_leader n))))"

definition node_request_read_index ::
  "RaftNode \<Rightarrow> RaftNode \<times> (ReadIndexError + LogIndex \<times> Effects)" where
  "node_request_read_index n =
     (case node_role n of
        RLeader l \<Rightarrow>
          (case leader_request_read_index l (node_core n) of
             (l, r) \<Rightarrow> (n\<lparr>node_role := RLeader l\<rparr>, r))
      | _ \<Rightarrow> (n, Inl (ReadNotLeader (node_leader n))))"

definition node_read_index_ready :: "RaftNode \<Rightarrow> LogIndex \<Rightarrow> bool" where
  "node_read_index_ready n ri =
     (case node_role n of
        RLeader l \<Rightarrow> leader_read_index_ready l (node_core n) ri
      | _ \<Rightarrow> False)"

definition node_propose_config_change ::
  "RaftNode \<Rightarrow> ConfigChange \<Rightarrow>
     (RaftNode \<times> (ConfigChangeError + LogIndex \<times> Effects)) option" where
  "node_propose_config_change n change =
     (case node_role n of
        RLeader l \<Rightarrow> do {
          r \<leftarrow> leader_propose_config_change l (node_core n) change;
          (case r of
             Inl e \<Rightarrow> Some (n, Inl e)
           | Inr (l, c, index, effects, should_step_down) \<Rightarrow> do {
               n' \<leftarrow> settle_leader l c should_step_down;
               Some (n', Inr (index, effects))
             })
        }
      | _ \<Rightarrow> Some (n, Inl ConfigNotLeader))"

definition node_transfer_leadership :: "RaftNode \<Rightarrow> NodeId \<Rightarrow> TransferError + Effects" where
  "node_transfer_leadership n target =
     (case node_role n of
        RLeader l \<Rightarrow> leader_transfer_leadership l (node_core n) target
      | _ \<Rightarrow> Inl TransferNotLeader)"

definition node_committed :: "RaftNode \<Rightarrow> CommittedEntry list" where
  "node_committed n =
     List.map_filter
       (\<lambda>idx. Option.bind (log_get (core_log (node_core n)) idx)
          (\<lambda>entry. case entry_payload entry of
             CommandEntry cmd \<Rightarrow>
               Some \<lparr>ce_index = entry_index entry, ce_term = entry_term entry,
                     ce_command = cmd\<rparr>
           | ConfigEntry cfg \<Rightarrow> None))
       (range_excl (last_applied (node_core n) + 1) (commit_index (node_core n) + 1))"

definition node_advance :: "RaftNode \<Rightarrow> LogIndex \<Rightarrow> RaftNode" where
  "node_advance n applied_to =
     n\<lparr>node_core := (node_core n)\<lparr>last_applied := applied_to\<rparr>\<rparr>"

section \<open>Transitions\<close>

definition transition_ok :: "Core \<Rightarrow> RaftNode \<Rightarrow> Effects \<Rightarrow> bool" where
  "transition_ok c n e \<longleftrightarrow>
     core_evolves c (node_core n) \<and> quiet (core_id c) e \<and> persisted c (node_core n) e \<and>
     core_log (node_core n) = core_log c"

lemma follower_new_SomeD:
  "follower_new c l = Some (f, c') \<Longrightarrow> c' = c\<lparr>rng := xorshift (rng c)\<rparr>"
  by (auto simp: follower_new_def Option.bind_eq_Some_conv dest: random_election_timeout_SomeD)

lemma become_follower_ok:
  "become_follower c l = Some (n, e) \<Longrightarrow> transition_ok c n e \<and> role_is_follower (node_role n)"
  by (auto simp: become_follower_def transition_ok_def persisted_def Option.bind_eq_Some_conv
      dest!: follower_new_SomeD)

lemma become_leader_ok:
  "become_leader c = Some (n, e) \<Longrightarrow>
     node_core n = c \<and> quiet (core_id c) e \<and> role_is_leader (node_role n)"
  by (auto simp: become_leader_def leader_new_def Option.bind_eq_Some_conv Let_def
      dest: broadcast_append_quiet)

lemma candidate_new_SomeD:
  assumes "candidate_new c = Some (s, c', e)"
  shows "c' = (start_election c)\<lparr>rng := xorshift (rng (start_election c))\<rparr>"
    "cand_votes s = (if core_is_voter c then {core_id c} else {})"
    "quiet (core_id c) e" "eff_persist e"
  using assms
  by (auto simp: candidate_new_def Option.bind_eq_Some_conv Let_def
      dest!: random_election_timeout_SomeD split: if_splits)

lemma become_candidate_ok:
  assumes "become_candidate c = Some (n, e)" "core_term c \<noteq> u64_max"
  shows "transition_ok c n e"
proof -
  from assms(1) obtain s c1 e1 where new: "candidate_new c = Some (s, c1, e1)"
    and n: "(if candidate_has_quorum s c1 then do {
               (n, leader_effects) \<leftarrow> become_leader c1;
               Some (n, eff_merge e1 leader_effects)
             } else Some (\<lparr>node_core = c1, node_role = RCandidate s\<rparr>, e1)) = Some (n, e)"
    by (auto simp: become_candidate_def Option.bind_eq_Some_conv)
  have c1: "core_evolves c c1" "core_id c1 = core_id c" "core_log c1 = core_log c"
    unfolding candidate_new_SomeD(1) [OF new]
    using core_evolves_start_election [OF assms(2)] by simp_all
  show ?thesis
  proof (cases "candidate_has_quorum s c1")
    case True
    with n obtain e2 where "become_leader c1 = Some (n, e2)" "e = eff_merge e1 e2"
      by (auto simp: Option.bind_eq_Some_conv)
    with c1 candidate_new_SomeD(3,4) [OF new] become_leader_ok [of c1 n e2] show ?thesis
      by (simp add: transition_ok_def persisted_def)
  next
    case False
    with n c1 candidate_new_SomeD(3,4) [OF new] show ?thesis
      by (auto simp: transition_ok_def persisted_def)
  qed
qed

lemma precandidate_new_SomeD:
  assumes "precandidate_new c = Some (s, c', e)"
  shows "c' = c\<lparr>rng := xorshift (rng c)\<rparr>" "quiet (core_id c) e"
  using assms
  by (auto simp: precandidate_new_def Option.bind_eq_Some_conv Let_def
      dest!: random_election_timeout_SomeD split: if_splits)

lemma become_precandidate_ok:
  assumes "become_precandidate c = Some (n, e)" "core_term c \<noteq> u64_max"
  shows "transition_ok c n e"
proof -
  from assms(1) obtain s c1 e1 where new: "precandidate_new c = Some (s, c1, e1)"
    and n: "(if precandidate_has_quorum s c1 then do {
               (n, candidate_effects) \<leftarrow> become_candidate c1;
               Some (n, eff_merge e1 candidate_effects)
             } else Some (\<lparr>node_core = c1, node_role = RPreCandidate s\<rparr>, e1)) = Some (n, e)"
    by (auto simp: become_precandidate_def Option.bind_eq_Some_conv)
  have c1: "c1 = c\<lparr>rng := xorshift (rng c)\<rparr>" "quiet (core_id c) e1"
    by (rule precandidate_new_SomeD [OF new])+
  show ?thesis
  proof (cases "precandidate_has_quorum s c1")
    case True
    with n obtain e2 where "become_candidate c1 = Some (n, e2)" "e = eff_merge e1 e2"
      by (auto simp: Option.bind_eq_Some_conv)
    with c1 assms(2) become_candidate_ok [of c1 n e2] show ?thesis
      by (auto simp: transition_ok_def persisted_def core_evolves_def)
  qed (use n c1 in \<open>auto simp: transition_ok_def persisted_def\<close>)
qed

lemma apply_transition_ok:
  assumes "apply_transition n tr = Some (n', e)"
    and "tr \<in> {ToPreCandidate, ToCandidate} \<Longrightarrow> core_term (node_core n) \<noteq> u64_max"
  shows "transition_ok (node_core n) n' e"
proof (cases tr)
  case (ToFollowerAfterContact l)
  with assms(1) show ?thesis
    by (auto simp: apply_transition_def after_leader_contact_def transition_ok_def persisted_def
        Option.bind_eq_Some_conv dest!: follower_new_SomeD)
next
  case ToLeader
  with assms(1) show ?thesis
    using become_leader_ok by (fastforce simp: apply_transition_def transition_ok_def persisted_def)
qed (use assms in \<open>auto simp: apply_transition_def transition_ok_def persisted_def
    dest: become_follower_ok become_precandidate_ok become_candidate_ok\<close>)

section \<open>The contract of a node\<close>

lemma role_step_cases:
  assumes "role_step n ev = Some (n', r)"
  obtains (follower) f f' where "node_role n = RFollower f" "node_role n' = RFollower f'"
      "follower_step f (node_core n) ev = Some (f', node_core n', r)"
  | (precandidate) p p' where "node_role n = RPreCandidate p" "node_role n' = RPreCandidate p'"
      "precandidate_step p (node_core n) ev = Some (p', node_core n', r)"
  | (candidate) s s' where "node_role n = RCandidate s" "node_role n' = RCandidate s'"
      "candidate_step s (node_core n) ev = Some (s', node_core n', r)"
  | (leader) l l' where "node_role n = RLeader l" "node_role n' = RLeader l'"
      "leader_step l (node_core n) ev = Some (l', node_core n', r)"
  using assms by (cases "node_role n") (auto simp: role_step_def)

text \<open>The dispatch over the four roles meets the contract of a single role.\<close>

definition dispatch_role ::
  "RoleState \<Rightarrow> Core \<Rightarrow> Event \<Rightarrow> (RoleState \<times> Core \<times> StepResult) option" where
  "dispatch_role rs c ev =
     map_option (\<lambda>(n, r). (node_role n, node_core n, r))
       (role_step \<lparr>node_core = c, node_role = rs\<rparr> ev)"

lemma dispatch_role_iff:
  "dispatch_role (node_role n) (node_core n) ev = Some (rs', c', r) \<longleftrightarrow>
     role_step n ev = Some (\<lparr>node_core = c', node_role = rs'\<rparr>, r)"
proof -
  have eta: "\<lparr>node_core = node_core a, node_role = node_role a\<rparr> = a" for a :: RaftNode by simp
  show ?thesis unfolding dispatch_role_def eta by (auto simp: eta)
qed

interpretation any_role: raft_role dispatch_role
proof
  fix rs c ev rs' c' r
  assume "dispatch_role rs c ev = Some (rs', c', r)"
  then have step: "role_step \<lparr>node_core = c, node_role = rs\<rparr> ev =
      Some (\<lparr>node_core = c', node_role = rs'\<rparr>, r)"
    by (auto simp: dispatch_role_def)
  from step show "step_ok c c' r"
    by (cases rule: role_step_cases)
      (auto dest: follower_role.role_step_ok precandidate_role.role_step_ok
        candidate_role.role_step_ok leader_role.role_step_ok)
  show "persisted c c' (sr_effects r)"
    if "wf_log (core_log c)" "agrees_with_snapshot (core_log c) ev"
    using step
    by (cases rule: role_step_cases)
      (use that in \<open>auto dest: follower_role.role_persists precandidate_role.role_persists
        candidate_role.role_persists leader_role.role_persists\<close>)
  from step show "log_only c c' (sr_effects r)"
    by (cases rule: role_step_cases)
      (auto dest: follower_role.role_log_only precandidate_role.role_log_only
        candidate_role.role_log_only leader_role.role_log_only)
  show "core_term c' \<in> event_terms c ev" if "sr_transition r \<in> {ToPreCandidate, ToCandidate}"
    using step
  proof (cases rule: role_step_cases)
    case (follower f f')
    then show ?thesis using follower_role.role_campaign_term [OF _ that] by simp
  next
    case (precandidate p p')
    then show ?thesis using precandidate_role.role_campaign_term [OF _ that] by simp
  next
    case (candidate s s')
    then show ?thesis using candidate_role.role_campaign_term [OF _ that] by simp
  next
    case (leader l l')
    then show ?thesis using leader_role.role_campaign_term [OF _ that] by simp
  qed
qed

text \<open>An event is handled by the role alone, or by the role and then a transition.\<close>

lemma step_event_cases:
  assumes "step_event n ev = Some (n', e)"
  obtains (stay) r where "role_step n ev = Some (n', r)" "sr_transition r = Stay"
      "e = sr_effects r"
  | (move) n1 r e1 where "role_step n ev = Some (n1, r)" "sr_transition r \<noteq> Stay"
      "apply_transition n1 (sr_transition r) = Some (n', e1)" "e = eff_merge (sr_effects r) e1"
proof -
  from assms obtain n1 r where r: "role_step n ev = Some (n1, r)"
    by (auto simp: step_event_def Option.bind_eq_Some_conv)
  show thesis
  proof (cases "sr_transition r = Stay")
    case True
    with assms r show thesis by (intro stay) (auto simp: step_event_def)
  next
    case False
    with assms r show thesis
      by (cases "sr_transition r")
        (auto simp: step_event_def Option.bind_eq_Some_conv intro: move)
  qed
qed

definition term_room :: "Core \<Rightarrow> Event \<Rightarrow> bool" where
  "term_room c ev \<longleftrightarrow> u64_max \<notin> event_terms c ev"

lemma step_event_evolves:
  assumes "step_event n ev = Some (n', e)" "term_room (node_core n) ev"
  shows "core_evolves (node_core n) (node_core n') \<and> honest (node_core n') e"
  using assms(1)
proof (cases rule: step_event_cases)
  case (stay r)
  then have "dispatch_role (node_role n) (node_core n) ev = Some (node_role n', node_core n', r)"
    by (simp add: dispatch_role_iff)
  from any_role.contract_stay [OF this] stay show ?thesis by simp
next
  case (move n1 r e1)
  then have role: "dispatch_role (node_role n) (node_core n) ev =
      Some (node_role n1, node_core n1, r)"
    by (simp add: dispatch_role_iff)
  have "core_term (node_core n1) \<noteq> u64_max"
    if "sr_transition r \<in> {ToPreCandidate, ToCandidate}"
    using any_role.role_campaign_term [OF role that] assms(2) by (auto simp: term_room_def)
  then have tr: "transition_ok (node_core n1) n' e1" by (rule apply_transition_ok [OF move(3)])
  then have "honest (node_core n') e1"
    by (intro quiet_honest) (auto simp: transition_ok_def dest: core_evolves_id)
  with tr any_role.contract_then [OF role move(2), of "node_core n'" e1] move(4)
  show ?thesis by (simp add: transition_ok_def)
qed

text \<open>The role's part of an event, and the transition's.\<close>

lemma step_event_parts:
  assumes "step_event n ev = Some (n', e)" "term_room (node_core n) ev"
  obtains (stay) r where "e = sr_effects r"
      "dispatch_role (node_role n) (node_core n) ev = Some (node_role n', node_core n', r)"
  | (move) n1 :: RaftNode and r e1 where "e = eff_merge (sr_effects r) e1" "persisted (node_core n1) (node_core n') e1"
      "dispatch_role (node_role n) (node_core n) ev = Some (node_role n1, node_core n1, r)"
  using assms(1)
proof (cases rule: step_event_cases)
  case (stay r)
  with that(1) show thesis by (simp add: dispatch_role_iff)
next
  case (move n1 r e1)
  then have role: "dispatch_role (node_role n) (node_core n) ev =
      Some (node_role n1, node_core n1, r)"
    by (simp add: dispatch_role_iff)
  have "core_term (node_core n1) \<noteq> u64_max"
    if "sr_transition r \<in> {ToPreCandidate, ToCandidate}"
    using any_role.role_campaign_term [OF role that] assms(2) by (auto simp: term_room_def)
  then have "transition_ok (node_core n1) n' e1" by (rule apply_transition_ok [OF move(3)])
  then have "persisted (node_core n1) (node_core n') e1" by (simp add: transition_ok_def)
  with move(4) show thesis using role by (rule that(2))
qed

lemma step_event_persisted:
  assumes "step_event n ev = Some (n', e)" "term_room (node_core n) ev"
    "wf_log (core_log (node_core n))" "agrees_with_snapshot (core_log (node_core n)) ev"
  shows "persisted (node_core n) (node_core n') e"
  using assms(1,2)
proof (cases rule: step_event_parts)
  case (stay r)
  then show ?thesis using any_role.role_persists [OF stay(2) assms(3,4)] by simp
next
  case (move n1 r e1)
  then show ?thesis using any_role.persisted_then [OF move(3) assms(3,4)] by simp
qed

lemma step_event_log_only:
  assumes "step_event n ev = Some (n', e)" "term_room (node_core n) ev"
  shows "log_only (node_core n) (node_core n') e"
  using assms
proof (cases rule: step_event_parts)
  case (stay r)
  then show ?thesis using any_role.role_log_only [OF stay(2)] by simp
next
  case (move n1 r e1)
  then show ?thesis using any_role.log_only_then [OF move(3)] by simp
qed

section \<open>Committed entries\<close>

fun as_committed :: "Entry \<Rightarrow> CommittedEntry option" where
  "as_committed e =
     (case entry_payload e of
        CommandEntry cmd \<Rightarrow>
          Some \<lparr>ce_index = entry_index e, ce_term = entry_term e, ce_command = cmd\<rparr>
      | ConfigEntry cfg \<Rightarrow> None)"

lemma sorted_entries:
  assumes "wf_log l"
  shows "sorted_wrt (<) (map entry_index (entries l))"
  unfolding sorted_wrt_map sorted_wrt_iff_nth_less
  using wf_entry_index [OF assms] by (auto simp: word_less_nat_alt)

lemma map_filter_log_get:
  assumes "wf_log l" "sorted_wrt (<) xs"
  shows "List.map_filter (log_get l) xs = filter (\<lambda>e. entry_index e \<in> set xs) (entries l)"
proof -
  let ?es = "filter (\<lambda>e. entry_index e \<in> set xs) (entries l)"
  have sorted: "sorted_wrt (<) (map entry_index ?es)"
    using sorted_entries [OF assms(1)] by (auto simp: sorted_wrt_map intro: sorted_wrt_filter)
  have get: "log_get l (entry_index e) = Some e" if "e \<in> set (entries l)" for e
    using that log_get_iff_mem [OF assms(1)] by blast
  have "set (map entry_index ?es) = {i \<in> set xs. log_get l i \<noteq> None}"
    using get log_get_iff_mem [OF assms(1)] by auto
  then have "filter (\<lambda>i. log_get l i \<noteq> None) xs = map entry_index ?es"
    using sorted sorted_wrt_filter [OF assms(2)]
    by (intro strict_sorted_equal) auto
  then have "List.map_filter (log_get l) xs = map (the \<circ> log_get l \<circ> entry_index) ?es"
    by (simp add: map_filter_def)
  also have "\<dots> = ?es" by (intro map_idI) (auto simp: get)
  finally show ?thesis .
qed

lemma map_filter_bind:
  "List.map_filter (\<lambda>x. Option.bind (f x) g) xs = List.map_filter g (List.map_filter f xs)"
  by (induction xs) (auto simp: map_filter_simps split: option.splits bind_splits)

lemma node_committed_eq:
  assumes "wf_log (core_log (node_core n))" "last_applied (node_core n) \<noteq> u64_max"
    "commit_index (node_core n) \<noteq> u64_max"
  shows "node_committed n = List.map_filter as_committed
    (filter (\<lambda>e. last_applied (node_core n) < entry_index e \<and>
       entry_index e \<le> commit_index (node_core n)) (entries (core_log (node_core n))))"
proof -
  have "node_committed n = List.map_filter as_committed (List.map_filter (log_get (core_log (node_core n)))
      (range_excl (last_applied (node_core n) + 1) (commit_index (node_core n) + 1)))"
    unfolding node_committed_def map_filter_bind [symmetric] as_committed.simps ..
  then show ?thesis
    by (simp add: map_filter_log_get [OF assms(1) sorted_range_excl] u64_inc_le_iff [OF assms(2)]
        u64_less_inc_iff [OF assms(3)])
qed

section \<open>Properties\<close>

definition sample_node :: RaftNode where
  "sample_node = \<lparr>node_core = sample_core, node_role = RFollower sample_follower\<rparr>"

definition sample_vote :: Event where
  "sample_vote = MessageEvent \<lparr>msg_from = NodeId 2, msg_to = NodeId 1, msg_term = 3, msg_payload =
     VoteRequest \<lparr>vreq_last_log_index = 8, vreq_last_log_term = 2\<rparr>\<rparr>"

text \<open>C15: terms and votes. Whatever event a node processes, in whatever role and with the role
  transitions it triggers, its term does not decrease, a vote it has cast in its term is not
  changed, its configuration stays, and every granted vote it sends is the vote it has recorded
  for the recipient in its current term.\<close>

theorem term_and_vote_discipline:
  assumes "step_event n ev = Some (n', e)" "term_room (node_core n) ev"
  shows "node_term n \<le> node_term n' \<and>
    (node_term n' = node_term n \<longrightarrow> voted_for (node_core n) \<noteq> None \<longrightarrow>
       voted_for (node_core n') = voted_for (node_core n)) \<and>
    core_config (node_core n') = core_config (node_core n) \<and>
    (\<forall>m \<in> set (eff_messages e). msg_from m = node_id n \<and>
       (grants_vote (msg_payload m) \<longrightarrow>
          msg_term m = node_term n' \<and> voted_for (node_core n') = Some (msg_to m)))"
  using step_event_evolves [OF assms]
  by (auto simp: core_evolves_def honest_def node_term_def node_id_def core_id_def)

theorem term_and_vote_discipline_witness:
  "\<exists>n' e m. step_event sample_node sample_vote = Some (n', e) \<and> m \<in> set (eff_messages e) \<and>
     grants_vote (msg_payload m) \<and> msg_term m = node_term n' \<and>
     voted_for (node_core n') = Some (msg_to m)"
proof -
  have room: "term_room (node_core sample_node) sample_vote" by code_simp
  have "map_option (\<lambda>(n', e). find (\<lambda>m. grants_vote (msg_payload m)) (eff_messages e) \<noteq> None)
      (step_event sample_node sample_vote) = Some True"
    by code_simp
  then obtain n' e where st: "step_event sample_node sample_vote = Some (n', e)"
    "find (\<lambda>m. grants_vote (msg_payload m)) (eff_messages e) \<noteq> None"
    by auto
  then obtain m where "m \<in> set (eff_messages e)" "grants_vote (msg_payload m)"
    by (auto simp: find_None_iff)
  with term_and_vote_discipline [OF st(1) room] st show ?thesis by blast
qed

text \<open>C16: the persist flag. An event whose effects do not ask for the state to be persisted leaves
  the term, the vote and the bootstrap configuration as they are. It also leaves the log as it is,
  with one exception: an \<open>AppendRequest\<close> with an entry at the index of the snapshot whose term is not
  that of the snapshot. The exception is real: such a request clears the log of a follower unflagged.\<close>

theorem persist_flag_raised:
  assumes "step_event n ev = Some (n', e)" "term_room (node_core n) ev"
    "wf_log (core_log (node_core n))"
    and "lg = core_log (node_core n)" "\<not> eff_persist e"
  shows "p_term (node_persistent n') = p_term (node_persistent n) \<and>
    p_voted_for (node_persistent n') = p_voted_for (node_persistent n) \<and>
    p_bootstrap_config (node_persistent n') = p_bootstrap_config (node_persistent n) \<and>
    (p_log (node_persistent n') = p_log (node_persistent n) \<or>
     (\<exists>m req x. ev = MessageEvent m \<and> msg_payload m = AppendRequest req \<and>
        x \<in> set (areq_entries req) \<and> entry_index x = snapshot_index lg \<and> snapshot_index lg \<noteq> 0 \<and>
        snapshot_term lg \<noteq> 0 \<and> entry_term x \<noteq> snapshot_term lg))"
proof -
  have meta: "node_persistent n' = (node_persistent n)\<lparr>p_log := p_log (node_persistent n')\<rparr>"
    using step_event_log_only [OF assms(1,2)] assms(5) by (simp add: log_only_def node_persistent_def)
  moreover have "p_log (node_persistent n') = p_log (node_persistent n)" if "agrees_with_snapshot lg ev"
    using step_event_persisted [OF assms(1-3)] that assms(4,5) by (simp add: persisted_def node_persistent_def)
  moreover have "\<exists>m req x. ev = MessageEvent m \<and> msg_payload m = AppendRequest req \<and>
      x \<in> set (areq_entries req) \<and> entry_index x = snapshot_index lg \<and> snapshot_index lg \<noteq> 0 \<and>
      snapshot_term lg \<noteq> 0 \<and> entry_term x \<noteq> snapshot_term lg" if "\<not> agrees_with_snapshot lg ev"
    using that by (auto simp: agrees_with_snapshot_def split: Event.splits Payload.splits)
  ultimately show ?thesis
    by (smt (verit) Persistent.select_convs Persistent.surjective Persistent.update_convs)
qed

definition sample_contradiction :: Event where
  "sample_contradiction = MessageEvent \<lparr>msg_from = NodeId 2, msg_to = NodeId 1, msg_term = 2,
     msg_payload = AppendRequest \<lparr>areq_prev_log_index = 0, areq_prev_log_term = 0,
       areq_entries = [\<lparr>entry_term = 2, entry_index = 5, entry_payload = CommandEntry (Command [])\<rparr>],
       areq_leader_commit = 0\<rparr>\<rparr>"

theorem persist_flag_raised_witness:
  "\<exists>n' e. step_event sample_node sample_contradiction = Some (n', e) \<and> \<not> eff_persist e \<and>
     length (entries (core_log (node_core sample_node))) = 3 \<and>
     entries (core_log (node_core n')) = [] \<and>
     p_term (node_persistent n') = p_term (node_persistent sample_node) \<and>
     p_voted_for (node_persistent n') = p_voted_for (node_persistent sample_node)"
proof -
  have hyps: "term_room (node_core sample_node) sample_contradiction"
    "wf_log (core_log (node_core sample_node))"
    by code_simp+
  have "map_option (\<lambda>(n', e). (eff_persist e, entries (core_log (node_core n'))))
      (step_event sample_node sample_contradiction) = Some (False, [])"
    "length (entries (core_log (node_core sample_node))) = 3"
    by code_simp+
  then obtain n' e where step: "step_event sample_node sample_contradiction = Some (n', e)" "\<not> eff_persist e"
    "entries (core_log (node_core n')) = []" "length (entries (core_log (node_core sample_node))) = 3"
    by auto
  with persist_flag_raised [OF step(1) hyps refl step(2)] show ?thesis by blast
qed

text \<open>C24: delivery to the application. \<open>committed\<close> yields, in log order and each once, exactly the
  commands of the log after the applied index and up to the commit index; after \<open>advance\<close> to
  the commit index nothing remains to be delivered.\<close>

theorem committed_exact:
  assumes "wf_log (core_log (node_core n))" "last_applied (node_core n) \<noteq> u64_max"
    "commit_index (node_core n) \<noteq> u64_max"
  shows "node_committed n = List.map_filter as_committed
      (filter (\<lambda>e. last_applied (node_core n) < entry_index e \<and>
         entry_index e \<le> commit_index (node_core n)) (entries (core_log (node_core n)))) \<and>
    node_committed (node_advance n (commit_index (node_core n))) = []"
  using node_committed_eq [OF assms] by (simp add: node_advance_def node_committed_def range_excl_def map_filter_simps)

theorem committed_exact_witness:
  "map ce_index (node_committed (sample_node\<lparr>node_core := sample_core\<lparr>commit_index := 7\<rparr>\<rparr>)) = [6, 7]"
proof -
  let ?n = "sample_node\<lparr>node_core := sample_core\<lparr>commit_index := 7\<rparr>\<rparr>"
  have h: "wf_log (core_log (node_core ?n))" "last_applied (node_core ?n) \<noteq> u64_max"
    "commit_index (node_core ?n) \<noteq> u64_max"
    by code_simp+
  show ?thesis unfolding conjunct1 [OF committed_exact [OF h]] by code_simp
qed

end
