(* ===== verification/Raft_Fixed.thy ===== *)
theory Raft_Fixed
  imports Raft_Node
begin

text \<open>
  Operation under a fixed membership and without compaction, which is how
  \<open>cloud9-node/src/runtime.rs\<close> drives the automaton: it never proposes a configuration
  change, never truncates a prefix and refuses to transport snapshots. Logs then hold command
  entries of non-zero terms only, the effective configuration is the bootstrap configuration,
  and this theory shows that every operation keeps it so and sends only messages that respect
  it.
\<close>

section \<open>Logs and messages of this mode\<close>

definition plain_entry :: "Entry \<Rightarrow> bool" where
  "plain_entry e \<longleftrightarrow> \<not> is_config (entry_payload e) \<and> entry_term e \<noteq> 0"

definition plain_log :: "Log \<Rightarrow> bool" where
  "plain_log l \<longleftrightarrow>
     wf_log l \<and> snapshot_index l = 0 \<and> snapshot_term l = 0 \<and> snapshot_config l = None \<and>
     list_all plain_entry (entries l)"

definition plain_append :: "AppendRequest \<Rightarrow> bool" where
  "plain_append req \<longleftrightarrow>
     entries_follow (areq_prev_log_index req) (areq_entries req) \<and>
     list_all plain_entry (areq_entries req) \<and>
     (areq_entries req = [] \<or> areq_prev_log_index req = 0 \<or> areq_prev_log_term req \<noteq> 0)"

fun plain_payload :: "Payload \<Rightarrow> bool" where
  "plain_payload (AppendRequest req) = plain_append req"
| "plain_payload (InstallSnapshotRequest req) = False"
| "plain_payload _ = True"

fun plain_event :: "Event \<Rightarrow> bool" where
  "plain_event (MessageEvent m) = plain_payload (msg_payload m)"
| "plain_event _ = True"

text \<open>Effects without log replication.\<close>

definition no_appends :: "Effects \<Rightarrow> bool" where
  "no_appends e \<longleftrightarrow>
     (\<forall>m \<in> set (eff_messages e). plain_payload (msg_payload m) \<and> \<not> is_append (msg_payload m))"

text \<open>An \<open>AppendRequest\<close> that copies a segment of a log.\<close>

definition replicates :: "Log \<Rightarrow> AppendRequest \<Rightarrow> bool" where
  "replicates l req \<longleftrightarrow>
     areq_prev_log_term req = term_at l (areq_prev_log_index req) \<and>
     (\<exists>b. areq_entries req =
        filter (\<lambda>e. areq_prev_log_index req < entry_index e \<and> entry_index e \<le> b) (entries l))"

definition appends_from :: "Core \<Rightarrow> Effects \<Rightarrow> bool" where
  "appends_from c e \<longleftrightarrow>
     (\<forall>m \<in> set (eff_messages e).
        (is_append (msg_payload m) \<or> plain_payload (msg_payload m)) \<and>
        (\<forall>req. msg_payload m = AppendRequest req \<longrightarrow>
           msg_term m = core_term c \<and> replicates (core_log c) req))"

lemma no_appends_simps [simp]:
  "no_appends eff_none" "no_appends (with_persist e) = no_appends e"
  "no_appends (with_send_snapshot e s) = no_appends e"
  "no_appends (eff_merge e e') \<longleftrightarrow> no_appends e \<and> no_appends e'"
  "no_appends (with_message e m) \<longleftrightarrow>
     no_appends e \<and> plain_payload (msg_payload m) \<and> \<not> is_append (msg_payload m)"
  "no_appends (with_messages e ms) \<longleftrightarrow>
     no_appends e \<and> (\<forall>m \<in> set ms. plain_payload (msg_payload m) \<and> \<not> is_append (msg_payload m))"
  by (auto simp: no_appends_def)

lemma no_appends_appends_from [simp]: "no_appends e \<Longrightarrow> appends_from c e"
  by (auto simp: no_appends_def appends_from_def)

lemma appends_from_simps [simp]:
  "appends_from c eff_none" "appends_from c (with_persist e) = appends_from c e"
  "appends_from c (eff_merge e e') \<longleftrightarrow> appends_from c e \<and> appends_from c e'"
  by (auto simp: appends_from_def)

lemma appends_from_cong:
  "core_term c' = core_term c \<Longrightarrow> core_log c' = core_log c \<Longrightarrow> appends_from c' e = appends_from c e"
  by (simp add: appends_from_def)

lemma appends_from_ticks [simp]: "appends_from (c\<lparr>ticks := t\<rparr>) e = appends_from c e"
  by (rule appends_from_cong) simp_all

lemma plain_log_default [simp]: "plain_log log_default"
  by (simp add: plain_log_def log_default_def wf_log_def)

lemma plain_logD:
  "plain_log l \<Longrightarrow> wf_log l" "plain_log l \<Longrightarrow> snapshot_index l = 0"
  by (simp_all add: plain_log_def)

lemma plain_no_config:
  "list_all plain_entry es \<Longrightarrow> e \<in> set es \<Longrightarrow> as_config (entry_payload e) = None"
  by (cases "entry_payload e") (auto simp: plain_entry_def list_all_iff)

lemma plain_config_at:
  assumes "plain_log l"
  shows "log_config_at l i = None"
proof -
  have "find_map (\<lambda>e. as_config (entry_payload e)) (rev (take n (entries l))) = None" for n
    using assms plain_no_config [of "entries l"]
    by (auto simp: find_map_None_iff plain_log_def dest: in_set_takeD)
  then show ?thesis using assms by (simp add: log_config_at_def plain_log_def Let_def)
qed

lemma plain_effective_config:
  "plain_log (core_log c) \<Longrightarrow> effective_config c = p_bootstrap_config (persistent c)"
  by (simp add: effective_config_def core_config_at_def plain_config_at)

lemma plain_get_term:
  "plain_log l \<Longrightarrow> log_get l i = Some e \<Longrightarrow> entry_term e \<noteq> 0 \<and> \<not> is_config (entry_payload e)"
  by (auto simp: plain_log_def log_get_iff_mem list_all_iff plain_entry_def)

lemma plain_term_at:
  assumes "plain_log l" "0 < i" "i \<le> last_index l"
  shows "term_at l i \<noteq> 0"
proof -
  have "log_get l i \<noteq> None"
    using assms by (auto simp: plain_log_def log_get_None_iff)
  then show ?thesis
    using assms plain_get_term [OF assms(1)]
    by (auto simp: term_at_eq [OF plain_logD(1) [OF assms(1)]] plain_log_def)
qed

section \<open>The follower\<close>

lemma entries_follow_prefix:
  assumes "entries_follow p es" "e \<in> set es"
  shows "entry_index e \<noteq> p" "entry_index e \<noteq> 0"
proof -
  from assms(2) obtain i where i: "i < length es" "es ! i = e" by (auto simp: in_set_conv_nth)
  then have "entry_index e = p + of_nat (Suc i)" "unat p + Suc i < 18446744073709551616"
    using assms(1) unfolding entries_follow_iff by auto
  then have "unat (entry_index e) = unat p + Suc i"
    by (simp add: unat_add_u64 unat_of_nat_u64 del: of_nat_Suc)
  then show "entry_index e \<noteq> p" "entry_index e \<noteq> 0" by (auto simp: word_unat_eq_iff)
qed

lemma prev_in_log:
  assumes "plain_log l" "prev_matches l req" "plain_append req" "areq_entries req \<noteq> []"
  shows "areq_prev_log_index req \<le> last_index l"
proof (rule ccontr)
  assume beyond: "\<not> areq_prev_log_index req \<le> last_index l"
  then have "term_at l (areq_prev_log_index req) = 0"
    using assms(1) by (simp add: plain_logD term_at_beyond)
  moreover have "areq_prev_log_index req \<noteq> 0"
    using beyond by auto
  ultimately show False using assms(2-4) by (auto simp: prev_matches_def plain_append_def)
qed

text \<open>The effect of an accepted request on a plain log.\<close>

lemma plain_append_result:
  assumes "plain_log l" "prev_matches l req" "plain_append req"
  shows "fold append_entry (areq_entries req) l =
      l\<lparr>entries := take (unat (areq_prev_log_index req)) (entries l) @
         merge_entries (drop (unat (areq_prev_log_index req)) (entries l)) (areq_entries req)\<rparr>"
    and "wf_log (fold append_entry (areq_entries req) l)"
proof -
  let ?p = "areq_prev_log_index req" and ?es = "areq_entries req"
  let ?eq = "fold append_entry ?es l =
      l\<lparr>entries := take (unat ?p) (entries l) @ merge_entries (drop (unat ?p) (entries l)) ?es\<rparr> \<and>
      wf_log (fold append_entry ?es l)"
  have ?eq
  proof (cases "?es = []")
    case True
    then show ?thesis using assms(1) by (simp add: plain_logD)
  next
    case False
    have "unat ?p \<le> length (entries l)"
      using prev_in_log [OF assms False] unat_last_index [of l] plain_logD [OF assms(1)]
      by (simp add: word_le_nat_alt)
    then have "snapshot_index l + of_nat (length (take (unat ?p) (entries l))) = ?p"
      using assms(1) by (simp add: plain_logD min_absorb2)
    moreover have "\<forall>x \<in> set (drop (unat ?p) (entries l)). entry_term x \<noteq> 0"
      using assms(1) by (auto simp: plain_log_def list_all_iff plain_entry_def dest: in_set_dropD)
    ultimately show ?thesis
      using assms(1,3)
      by (intro fold_append_entry_eq) (simp_all add: plain_logD plain_append_def)
  qed
  then show "fold append_entry ?es l =
      l\<lparr>entries := take (unat ?p) (entries l) @ merge_entries (drop (unat ?p) (entries l)) ?es\<rparr>"
    "wf_log (fold append_entry ?es l)" by blast+
qed

lemma plain_log_append_request:
  assumes "plain_log l" "prev_matches l req" "plain_append req"
  shows "plain_log (fold append_entry (areq_entries req) l)"
proof -
  let ?p = "unat (areq_prev_log_index req)"
  have "list_all plain_entry (take ?p (entries l) @
      merge_entries (drop ?p (entries l)) (areq_entries req))"
    using assms(1,3) set_merge_entries [of "drop ?p (entries l)" "areq_entries req"]
    by (auto simp: plain_log_def plain_append_def list_all_iff dest: in_set_takeD in_set_dropD)
  then show ?thesis
    using plain_append_result [OF assms] assms(1) by (simp add: plain_log_def)
qed

lemma follower_dispatch_plain:
  assumes "follower_dispatch f c m = Some (f', c', r)" "plain_log (core_log c)"
    "plain_payload (msg_payload m)"
  shows "plain_log (core_log c') \<and> no_appends (sr_effects r)"
proof (cases "msg_payload m")
  case (AppendRequest req)
  with assms have "follower_handle_append_request f c (msg_from m) req = Some (f', c', r)"
    by (simp add: follower_dispatch_def)
  then show ?thesis
    by (cases rule: follower_append_request_cases)
      (use assms AppendRequest in \<open>auto intro: plain_log_append_request\<close>)
qed (use assms in \<open>auto simp: follower_dispatch_def follower_handle_vote_request_def
    follower_handle_read_index_request_def Option.bind_eq_Some_conv Let_def
    dest!: follower_reset_deadline_SomeD split: if_splits\<close>)

lemma follower_replies_plain [simp]:
  "no_appends (follower_reject_stale c m)" "no_appends (reject_due_to_active_leader c m)"
  "no_appends (follower_handle_prevote_request c i t req)"
  by (simp_all add: follower_reject_stale_def reject_due_to_active_leader_def
      follower_handle_prevote_request_def split: Payload.splits)

lemma replicates_plain:
  assumes "plain_log l" "replicates l req"
  shows "plain_append req"
proof -
  let ?p = "areq_prev_log_index req"
  obtain b where es: "areq_entries req =
      filter (\<lambda>e. ?p < entry_index e \<and> entry_index e \<le> b) (entries l)"
    using assms(2) by (auto simp: replicates_def)
  have plain: "list_all plain_entry (areq_entries req)"
    using assms(1) es by (auto simp: plain_log_def list_all_iff)
  show ?thesis
  proof (cases "areq_entries req = []")
    case True
    then show ?thesis by (simp add: plain_append_def)
  next
    case False
    then obtain e where "e \<in> set (entries l)" "?p < entry_index e"
      unfolding es by (auto simp: filter_empty_conv)
    then have lt: "?p < last_index l" and nmax: "?p \<noteq> u64_max"
      using log_get_SomeD(3) [OF plain_logD(1) [OF assms(1)], of "entry_index e" e]
      by (auto simp: log_get_iff_mem [OF plain_logD(1) [OF assms(1)]] u64_less_not_max)
    have "0 < ?p + 1" by (rule le_less_trans [OF word_zero_le u64_less_inc [OF nmax]])
    then have "entries_follow (?p + 1 - 1)
        (filter (\<lambda>e. ?p + 1 \<le> entry_index e \<and> entry_index e \<le> b) (entries l))"
      using plain_logD [OF assms(1)] by (intro entries_follow_range) simp_all
    then have "entries_follow ?p (areq_entries req)"
      by (simp add: es u64_inc_le_iff [OF nmax])
    moreover have "?p = 0 \<or> areq_prev_log_term req \<noteq> 0"
    proof (cases "?p = 0")
      case False
      then have "0 < ?p" by (simp add: word_neq_0_conv)
      then show ?thesis using assms plain_term_at [of l ?p] lt by (auto simp: replicates_def)
    qed simp
    ultimately show ?thesis using plain by (simp add: plain_append_def)
  qed
qed

lemma appends_from_plain:
  "appends_from c e \<Longrightarrow> plain_log (core_log c) \<Longrightarrow> m \<in> set (eff_messages e) \<Longrightarrow>
     plain_payload (msg_payload m)"
  unfolding appends_from_def by (cases "msg_payload m") (fastforce intro: replicates_plain)+

section \<open>The leader\<close>

lemma send_append_to_plain:
  assumes "send_append_to l c to = Some (l', e)" "plain_log (core_log c)"
  shows "appends_from c e"
proof (cases "unwrap_or (next_index l to) 1 \<le> snapshot_index (core_log c)")
  case True
  with assms(1) show ?thesis by (auto simp: send_append_to_def Let_def appends_from_def)
next
  case False
  let ?l = "core_log c" and ?n = "unwrap_or (next_index l to) 1"
  note wf = plain_logD [OF assms(2)]
  have pos: "0 < ?n" using False wf(2) by (simp add: word_neq_0_conv)
  then have prev: "unat (saturating_sub ?n 1) = unat ?n - 1"
    by (simp add: unat_saturating_sub)
  then have le: "?n \<le> i \<longleftrightarrow> saturating_sub ?n 1 < i" for i
    using pos unfolding word_le_nat_alt word_less_nat_alt by auto
  have nosnap: "\<not> (saturating_sub ?n 1 \<le> snapshot_index ?l \<and> 0 < saturating_sub ?n 1)"
    using wf(2) by simp
  define b where
    "b = min (?n + cfg_max_entries_per_msg (core_config c)) (last_index ?l + 1)"
  from assms(1) False have "e = with_message eff_none (reply c to (AppendRequest
      \<lparr>areq_prev_log_index = saturating_sub ?n 1,
       areq_prev_log_term = term_at ?l (saturating_sub ?n 1),
       areq_entries = filter (\<lambda>e. ?n \<le> entry_index e \<and> entry_index e \<le> b) (entries ?l),
       areq_leader_commit = commit_index c\<rparr>))"
    using nosnap
    by (auto simp: send_append_to_def Let_def log_slice_eq [OF wf(1)] b_def split: if_splits)
  then show ?thesis unfolding le by (auto simp: appends_from_def replicates_def)
qed

lemma broadcast_append_plain:
  assumes "broadcast_append l c = Some (l', e)" "plain_log (core_log c)"
  shows "appends_from c e"
  using assms(1) by (rule broadcast_append_inv [where P = "\<lambda>_. appends_from c"])
    (auto dest: send_append_to_plain intro: assms(2))

lemma process_config_entries_plain:
  "plain_log (core_log c) \<Longrightarrow> process_config_entries l c idxs = Some (l, c, Done)"
proof (induction idxs)
  case (Cons i idxs)
  show ?case
  proof (cases "log_get (core_log c) i")
    case (Some e)
    then show ?thesis
      using Cons plain_get_term [OF Cons.prems Some] by (cases "entry_payload e") auto
  qed (use Cons in simp)
qed simp

lemma maybe_commit_plain:
  assumes "plain_log (core_log c)"
  shows "maybe_commit l c = Some (l, advance_commit_index l c, eff_none, False)"
proof -
  have "process_committed_configs l (advance_commit_index l c) i =
      Some (l, advance_commit_index l c, Done)" for i
    unfolding process_committed_configs_def
    by (rule process_config_entries_plain) (simp add: assms)
  then show ?thesis
    unfolding maybe_commit_def by (subst maybe_commit_loop.simps) (simp add: Let_def)
qed

lemma after_commit_plain:
  "plain_log (core_log c) \<Longrightarrow>
     after_commit l c = Some (l, advance_commit_index l c, stay eff_none)"
  by (simp add: after_commit_def maybe_commit_plain)

lemma leader_dispatch_plain:
  assumes "leader_dispatch l c m = Some (l', c', r)" "plain_log (core_log c)"
  shows "core_log c' = core_log c \<and> appends_from c (sr_effects r) \<and> sr_transition r = Stay"
  using assms
  by (auto simp: leader_dispatch_def handle_append_response_def after_commit_plain
      handle_install_snapshot_response_def leader_handle_vote_request_def refuse_vote_def
      Option.bind_eq_Some_conv Let_def
      dest!: handle_read_index_response_stays dest: send_append_to_plain
      split: Payload.splits prod.splits if_splits)

lemma leader_replies_plain [simp]:
  "no_appends (leader_reject_stale c m)" "no_appends (deny_prevote c i)"
  "no_appends (read_index_requests c p)"
  by (simp_all add: leader_reject_stale_def deny_prevote_def read_index_requests_def
      split: Payload.splits)

lemma step_down_plain:
  "step_down c m = (c', r) \<Longrightarrow>
     core_log c' = core_log c \<and> no_appends (sr_effects r) \<and> sr_transition r \<noteq> Stay"
  by (auto simp: step_down_def)

lemma leader_on_message_plain:
  assumes "leader_on_message l c m = Some (l', c', r)" "plain_log (core_log c)"
  shows "core_log c' = core_log c \<and> appends_from c (sr_effects r) \<and>
    (sr_transition r = Stay \<or> no_appends (sr_effects r))"
proof (cases "\<exists>req. msg_payload m = PreVoteRequest req")
  case True
  with assms show ?thesis
    by (auto simp: leader_on_message_def)
next
  case False
  then have main: "leader_on_message l c m =
      (if msg_term m > core_term c
       then (case step_down c m of (c, r) \<Rightarrow> Some (l, c, r))
       else if msg_term m < core_term c
       then Some (l, c, stay (leader_reject_stale c m))
       else leader_dispatch l c m)"
    unfolding leader_on_message_def by (cases "msg_payload m") auto
  with assms show ?thesis
    using leader_dispatch_plain [of l c m l' c' r] step_down_plain [of c m c' r]
    by (auto split: if_splits prod.splits)
qed

lemma leader_step_plain:
  assumes "leader_step l c ev = Some (l', c', r)" "plain_log (core_log c)"
  shows "core_log c' = core_log c \<and> appends_from c (sr_effects r) \<and>
    (sr_transition r = Stay \<or> no_appends (sr_effects r))"
proof (cases ev)
  case Tick
  with assms show ?thesis
    by (auto simp: leader_step_def leader_handle_tick_def Option.bind_eq_Some_conv Let_def
        dest!: broadcast_append_plain split: if_splits option.splits)
next
  case (MessageEvent m)
  with assms show ?thesis by (intro leader_on_message_plain) (simp_all add: leader_step_def)
next
  case (DiskWriteComplete i)
  with assms show ?thesis
    by (auto simp: leader_step_def handle_disk_write_complete_def after_commit_plain
        split: if_splits)
qed

section \<open>The other roles\<close>

lemma follower_refusals_plain: "e \<in> follower_refusals c m \<Longrightarrow> no_appends e"
  by (auto simp: follower_refusals_def)

lemma follower_step_plain:
  assumes "follower_step f c ev = Some (f', c', r)" "plain_log (core_log c)" "plain_event ev"
  shows "plain_log (core_log c') \<and> no_appends (sr_effects r)"
proof (cases ev)
  case (MessageEvent m)
  with assms have step: "follower_on_message f c m = Some (f', c', r)"
    and plain: "plain_payload (msg_payload m)"
    by (simp_all add: follower_step_def)
  from step show ?thesis
  proof (cases rule: follower_on_message_cases)
    case (dispatch f1 r1)
    then show ?thesis
      using follower_dispatch_plain [OF dispatch(2)] assms(2) plain by auto
  qed (simp add: assms(2) follower_refusals_plain)
qed (use assms in \<open>auto simp: follower_step_def follower_handle_tick_def Let_def\<close>)

lemma candidate_replies_plain [simp]:
  "no_appends (candidate_deny_vote c m)" "no_appends (candidate_reject_stale c m)"
  "no_appends (candidate_handle_prevote_request c i t req)"
  "no_appends (precandidate_deny_vote c m)" "no_appends (sr_effects (refuse_vote c i))"
  "no_appends (sr_effects (precandidate_handle_prevote_request c i t req'))"
  by (simp_all add: candidate_deny_vote_def candidate_reject_stale_def precandidate_deny_vote_def
      candidate_handle_prevote_request_def precandidate_handle_prevote_request_def refuse_vote_def
      Let_def split: Payload.splits)

lemma candidate_step_plain:
  assumes "candidate_step s c ev = Some (s', c', r)"
  shows "core_log c' = core_log c \<and> no_appends (sr_effects r)"
proof (cases ev)
  case Tick
  with assms have "candidate_handle_tick s c = Some (s', c', r)" by (simp add: candidate_step_def)
  from candidate_handle_tick_cases [OF this] show ?thesis by (simp add: core_log_def)
next
  case (MessageEvent m)
  with assms have "candidate_on_message s c m = Some (s', c', r)" by (simp add: candidate_step_def)
  then show ?thesis
  proof (cases rule: candidate_on_message_cases)
    case dispatch
    then show ?thesis
      by (auto simp: candidate_dispatch_def candidate_handle_vote_response_def
          candidate_handle_append_request_def candidate_handle_vote_request_def Let_def
          split: Payload.splits if_splits)
  qed (auto simp: candidate_refusals_def dest: step_down_plain)
qed (use assms in \<open>auto simp: candidate_step_def\<close>)

lemma precandidate_step_plain:
  assumes "precandidate_step s c ev = Some (s', c', r)"
  shows "core_log c' = core_log c \<and> no_appends (sr_effects r)"
proof (cases ev)
  case (MessageEvent m)
  with assms have "precandidate_on_message s c m = Some (s', c', r)"
    by (simp add: precandidate_step_def)
  then show ?thesis
    by (auto simp: precandidate_on_message_def handle_prevote_response_def step_down_def Let_def
        precandidate_handle_append_request_def precandidate_handle_vote_request_def
        split: Payload.splits if_splits)
qed (use assms in \<open>auto simp: precandidate_step_def precandidate_handle_tick_def Let_def
    Option.bind_eq_Some_conv dest!: random_election_timeout_SomeD split: if_splits\<close>)

section \<open>The node\<close>

text \<open>Replication messages leave a node only while it leads, in its own term, and they copy
  its own log.\<close>

definition node_sends :: "RaftNode \<Rightarrow> Effects \<Rightarrow> bool" where
  "node_sends n e \<longleftrightarrow>
     appends_from (node_core n) e \<and> (no_appends e \<or> role_is_leader (node_role n))"

lemma become_leader_plain:
  assumes "become_leader c = Some (n, e)" "plain_log (core_log c)"
  shows "node_core n = c \<and> node_sends n e"
  using assms
  by (auto simp: become_leader_def leader_new_def node_sends_def Option.bind_eq_Some_conv Let_def
      dest!: broadcast_append_plain)

lemma candidate_new_plain:
  "candidate_new c = Some (s, c', e) \<Longrightarrow> core_log c' = core_log c \<and> no_appends e"
  by (auto simp: candidate_new_def Option.bind_eq_Some_conv Let_def
      dest!: random_election_timeout_SomeD split: if_splits)

lemma precandidate_new_plain:
  "precandidate_new c = Some (s, c', e) \<Longrightarrow> core_log c' = core_log c \<and> no_appends e"
  by (auto simp: precandidate_new_def Option.bind_eq_Some_conv Let_def
      dest!: random_election_timeout_SomeD split: if_splits)

lemma node_sends_merge:
  "no_appends e \<Longrightarrow> node_sends n e' \<Longrightarrow> node_sends n (eff_merge e e')"
  by (auto simp: node_sends_def)

lemma become_candidate_plain:
  assumes "become_candidate c = Some (n, e)" "plain_log (core_log c)"
  shows "core_log (node_core n) = core_log c \<and> node_sends n e"
proof -
  from assms(1) obtain s c1 e1 where new: "candidate_new c = Some (s, c1, e1)"
    and n: "(if candidate_has_quorum s c1 then do {
               (n, leader_effects) \<leftarrow> become_leader c1;
               Some (n, eff_merge e1 leader_effects)
             } else Some (\<lparr>node_core = c1, node_role = RCandidate s\<rparr>, e1)) = Some (n, e)"
    by (auto simp: become_candidate_def Option.bind_eq_Some_conv)
  have c1: "core_log c1 = core_log c" "no_appends e1" using candidate_new_plain [OF new] by auto
  show ?thesis
  proof (cases "candidate_has_quorum s c1")
    case True
    with n obtain e2 where "become_leader c1 = Some (n, e2)" "e = eff_merge e1 e2"
      by (auto simp: Option.bind_eq_Some_conv)
    with c1 assms(2) become_leader_plain [of c1 n e2] show ?thesis
      by (simp add: node_sends_merge)
  next
    case False
    with n c1 show ?thesis by (auto simp: node_sends_def)
  qed
qed

lemma become_precandidate_plain:
  assumes "become_precandidate c = Some (n, e)" "plain_log (core_log c)"
  shows "core_log (node_core n) = core_log c \<and> node_sends n e"
proof -
  from assms(1) obtain s c1 e1 where new: "precandidate_new c = Some (s, c1, e1)"
    and n: "(if precandidate_has_quorum s c1 then do {
               (n, candidate_effects) \<leftarrow> become_candidate c1;
               Some (n, eff_merge e1 candidate_effects)
             } else Some (\<lparr>node_core = c1, node_role = RPreCandidate s\<rparr>, e1)) = Some (n, e)"
    by (auto simp: become_precandidate_def Option.bind_eq_Some_conv)
  have c1: "core_log c1 = core_log c" "no_appends e1"
    using precandidate_new_plain [OF new] by auto
  show ?thesis
  proof (cases "precandidate_has_quorum s c1")
    case True
    with n obtain e2 where "become_candidate c1 = Some (n, e2)" "e = eff_merge e1 e2"
      by (auto simp: Option.bind_eq_Some_conv)
    with c1 assms(2) become_candidate_plain [of c1 n e2] show ?thesis
      by (simp add: node_sends_merge)
  next
    case False
    with n c1 show ?thesis by (auto simp: node_sends_def)
  qed
qed

lemma apply_transition_plain:
  assumes "apply_transition n tr = Some (n', e)" "plain_log (core_log (node_core n))"
  shows "core_log (node_core n') = core_log (node_core n) \<and> node_sends n' e"
proof (cases tr)
  case (ToFollower l)
  with assms show ?thesis
    by (auto simp: apply_transition_def become_follower_def node_sends_def
        Option.bind_eq_Some_conv dest!: follower_new_SomeD)
next
  case (ToFollowerAfterContact l)
  with assms show ?thesis
    by (auto simp: apply_transition_def after_leader_contact_def node_sends_def
        Option.bind_eq_Some_conv dest!: follower_new_SomeD)
qed (use assms in \<open>auto simp: apply_transition_def node_sends_def [of n' eff_none]
    dest: become_leader_plain become_candidate_plain become_precandidate_plain\<close>)

lemma role_step_plain:
  assumes "role_step n ev = Some (n', r)" "plain_log (core_log (node_core n))" "plain_event ev"
  shows "plain_log (core_log (node_core n')) \<and>
    (if sr_transition r = Stay then node_sends n' (sr_effects r) else no_appends (sr_effects r))"
  using assms(1)
proof (cases rule: role_step_cases)
  case (follower f f')
  then show ?thesis using follower_step_plain assms(2,3) by (simp add: node_sends_def)
next
  case (precandidate p p')
  then show ?thesis using precandidate_step_plain [of p] assms(2) by (simp add: node_sends_def)
next
  case (candidate s s')
  then show ?thesis using candidate_step_plain [of s] assms(2) by (simp add: node_sends_def)
next
  case (leader l l')
  have same: "core_log (node_core n') = core_log (node_core n)"
    "appends_from (node_core n) (sr_effects r)"
    "sr_transition r = Stay \<or> no_appends (sr_effects r)"
    using leader_step_plain [OF leader(3) assms(2)] by auto
  have "core_term (node_core n') = core_term (node_core n)" if "sr_transition r = Stay"
    using leader(3)
    by (cases rule: leader_step_cases)
      (use that in \<open>auto simp: leader_step_ok_def leader_evolves_def step_down_def\<close>)
  then show ?thesis
    using same leader assms(2) appends_from_cong [of "node_core n'" "node_core n"]
    by (auto simp: node_sends_def)
qed

lemma step_event_plain:
  assumes "step_event n ev = Some (n', e)" "plain_log (core_log (node_core n))" "plain_event ev"
  shows "plain_log (core_log (node_core n')) \<and> node_sends n' e"
  using assms(1)
proof (cases rule: step_event_cases)
  case (stay r)
  then show ?thesis using role_step_plain [OF stay(1) assms(2,3)] by simp
next
  case (move n1 r e1)
  then show ?thesis
    using role_step_plain [OF move(1) assms(2,3)] apply_transition_plain [OF move(3)]
    by (simp add: node_sends_merge)
qed

section \<open>Public operations\<close>

text \<open>An accepted proposal appends one entry of the leader's term and persists it.\<close>

definition proposed_entry :: "Core \<Rightarrow> Command \<Rightarrow> Entry" where
  "proposed_entry c cmd =
     \<lparr>entry_term = core_term c, entry_index = last_index (core_log c) + 1,
      entry_payload = CommandEntry cmd\<rparr>"

lemma proposed_entry_simps [simp]:
  "entry_term (proposed_entry c cmd) = core_term c"
  "entry_index (proposed_entry c cmd) = last_index (core_log c) + 1"
  "entry_payload (proposed_entry c cmd) = CommandEntry cmd"
  by (simp_all add: proposed_entry_def)

lemma leader_propose_plain:
  assumes "plain_log (log_append (proposed_entry c cmd) (core_log c))"
    "leader_propose l c cmd = Some (l', c', index, e, down)"
  obtains l1 e1 where "c' = advance_commit_index l1 (log_mut (log_append (proposed_entry c cmd)) c)"
    "broadcast_append l1 c' = Some (l', e1)" "e = with_persist e1"
    "index = last_index (core_log c) + 1" "\<not> down"
proof -
  let ?c = "log_mut (log_append (proposed_entry c cmd)) c"
  let ?l = "if \<not> cfg_parallel_disk_write (core_config ?c)
    then l\<lparr>match_index := (match_index l)(core_id ?c \<mapsto> last_index (core_log c) + 1)\<rparr> else l"
  have plain: "plain_log (core_log ?c)" using assms(1) by simp
  have eq: "leader_propose l c cmd = do {
      (l, effects) \<leftarrow> broadcast_append ?l (advance_commit_index ?l ?c);
      Some (l, advance_commit_index ?l ?c, last_index (core_log c) + 1,
            eff_merge (with_persist effects) eff_none, False)
    }"
    unfolding leader_propose_def Let_def proposed_entry_def [symmetric]
      maybe_commit_plain [OF plain] bind.simps prod.case ..
  from assms(2) obtain e1 where "broadcast_append ?l (advance_commit_index ?l ?c) = Some (l', e1)"
    "c' = advance_commit_index ?l ?c" "e = with_persist e1"
    "index = last_index (core_log c) + 1" "\<not> down"
    unfolding eq by (cases "broadcast_append ?l (advance_commit_index ?l ?c)") auto
  then show thesis by (intro that [of ?l e1]) simp_all
qed

lemma node_propose_plain:
  assumes "node_propose n cmd = Some (n', Inr (index, e))" "plain_log (core_log (node_core n))"
    "last_index (core_log (node_core n)) \<noteq> u64_max" "core_term (node_core n) \<noteq> 0"
  shows "role_is_leader (node_role n)" "role_is_leader (node_role n')"
    and "core_log (node_core n') =
      log_append (proposed_entry (node_core n) cmd) (core_log (node_core n))"
    and "plain_log (core_log (node_core n'))" "node_sends n' e"
    and "leader_evolves (node_core n) (node_core n')" "quiet (node_id n) e" "eff_persist e"
    and "index = last_index (core_log (node_core n)) + 1"
proof -
  let ?c = "node_core n" and ?x = "proposed_entry (node_core n) cmd"
  have "wf_log (log_append ?x (core_log ?c))"
    using assms(2,3) by (intro wf_log_append) (simp_all add: plain_logD)
  then have plain: "plain_log (log_append ?x (core_log ?c))"
    using assms(2,4) by (simp add: plain_log_def plain_entry_def)
  from assms(1) obtain l where role: "node_role n = RLeader l"
    by (auto simp: node_propose_def split: RoleState.splits)
  with assms(1) obtain l' c' down where
    lp: "leader_propose l ?c cmd = Some (l', c', index, e, down)"
    and n': "settle_leader l' c' down = Some n'"
    by (auto simp: node_propose_def Option.bind_eq_Some_conv split: if_splits)
  from plain lp obtain l1 e1 where
    c': "c' = advance_commit_index l1 (log_mut (log_append ?x) ?c)"
    and bc: "broadcast_append l1 c' = Some (l', e1)"
    and e: "e = with_persist e1" "index = last_index (core_log ?c) + 1" "\<not> down"
    by (rule leader_propose_plain)
  have n'_eq: "n' = \<lparr>node_core = c', node_role = RLeader l'\<rparr>"
    using n' e(3) by (simp add: settle_leader_def)
  have log: "core_log c' = log_append ?x (core_log ?c)" by (simp add: c')
  show "role_is_leader (node_role n)" "role_is_leader (node_role n')"
    "core_log (node_core n') = log_append ?x (core_log ?c)"
    "plain_log (core_log (node_core n'))" "eff_persist e" "index = last_index (core_log ?c) + 1"
    using role plain by (simp_all add: n'_eq log e)
  show "node_sends n' e"
    using broadcast_append_plain [OF bc] plain by (simp add: node_sends_def n'_eq e log)
  show "leader_evolves ?c (node_core n')" by (simp add: n'_eq c' leader_evolves_append)
  show "quiet (node_id n) e"
    using broadcast_append_quiet [OF bc] by (simp add: e node_id_def c')
qed

lemma node_request_read_index_plain:
  assumes "node_request_read_index n = (n', Inr (ri, e))"
  shows "node_core n' = node_core n" "no_appends e" "quiet (node_id n) e"
    "\<exists>l l'. node_role n = RLeader l \<and> node_role n' = RLeader l'"
proof -
  from assms obtain l l' where role: "node_role n = RLeader l" "n' = n\<lparr>node_role := RLeader l'\<rparr>"
    and r: "leader_request_read_index l (node_core n) = (l', Inr (ri, e))"
    by (auto simp: node_request_read_index_def split: RoleState.splits prod.splits)
  from r have "no_appends e \<and> quiet (core_id (node_core n)) e"
    by (auto simp: leader_request_read_index_def Let_def split: option.splits if_splits)
  with role show "node_core n' = node_core n" "no_appends e" "quiet (node_id n) e"
    "\<exists>l l'. node_role n = RLeader l \<and> node_role n' = RLeader l'"
    by (auto simp: node_id_def)
qed

lemma node_transfer_leadership_plain:
  assumes "node_transfer_leadership n target = Inr e"
  shows "no_appends e \<and> quiet (node_id n) e"
  using assms
  by (auto simp: node_transfer_leadership_def leader_transfer_leadership_def node_id_def Let_def
      split: RoleState.splits if_splits)

lemma node_restore_SomeD:
  assumes "node_restore cfg p = Some n"
  shows "persistent (node_core n) = p" "core_config (node_core n) = cfg"
    "role_is_follower (node_role n)"
  using assms
  by (auto simp: node_restore_def core_restore_def Option.bind_eq_Some_conv
      dest!: follower_new_SomeD)

end
