(* ===== verification/Raft_Cluster.thy ===== *)
theory Raft_Cluster
  imports Raft_Fixed
begin

text \<open>
  A cluster of nodes driven the way \<open>cloud9-node/src/runtime.rs\<close> drives one: each operation
  runs to completion, its persistent state is saved when the \<open>persist\<close> flag is up, and only
  then are its messages released. The network keeps every message ever sent and may deliver
  any of them at any time, any number of times or never. A node may stop and restart from its
  saved state at any point.

  Three history variables record what has happened: the ballots cast, the elections won and
  the log of the leader of each term.
\<close>

section \<open>State and steps\<close>

record Cluster =
  cl_nodes :: "NodeId \<Rightarrow> RaftNode"
  cl_disk :: "NodeId \<Rightarrow> Persistent"
  cl_network :: "Message set"
  cl_ballots :: "(NodeId \<times> Term \<times> NodeId) set"
  cl_elected :: "(Term \<times> NodeId) set"
  cl_ledger :: "Term \<Rightarrow> Entry list"

definition cast :: "RaftNode \<Rightarrow> (NodeId \<times> Term \<times> NodeId) set" where
  "cast n =
     (case voted_for (node_core n) of
        None \<Rightarrow> {} | Some x \<Rightarrow> {(node_id n, node_term n, x)})"

text \<open>\<open>handle_effects\<close>: save, then send. The last three lines keep the history.\<close>

definition settle :: "NodeId \<Rightarrow> RaftNode \<Rightarrow> Effects \<Rightarrow> Cluster \<Rightarrow> Cluster" where
  "settle i n e s =
     s\<lparr>cl_nodes := (cl_nodes s)(i := n),
       cl_disk := (if eff_persist e then (cl_disk s)(i := node_persistent n) else cl_disk s),
       cl_network := cl_network s \<union> set (eff_messages e),
       cl_ballots := cl_ballots s \<union> cast n,
       cl_elected := (if node_is_leader n then insert (node_term n, node_id n) (cl_elected s)
                      else cl_elected s),
       cl_ledger := (if node_is_leader n
                     then (cl_ledger s)(node_term n := entries (core_log (node_core n)))
                     else cl_ledger s)\<rparr>"

definition initial :: "(NodeId \<Rightarrow> Config) \<Rightarrow> NodeId list \<Rightarrow> Cluster \<Rightarrow> bool" where
  "initial cfg vs s \<longleftrightarrow>
     (\<forall>i. cfg_id (cfg i) = i \<and> node_new (cfg i) vs = Some (cl_nodes s i) \<and>
          cl_disk s i = node_persistent (cl_nodes s i)) \<and>
     cl_network s = {} \<and> cl_ballots s = {} \<and> cl_elected s = {} \<and> cl_ledger s = (\<lambda>_. [])"

text \<open>Terms and log positions are kept below the wrap-around of \<open>u64\<close>.\<close>

inductive cluster_step :: "Cluster \<Rightarrow> Cluster \<Rightarrow> bool" where
  tick: "\<lbrakk>node_tick (cl_nodes s i) = Some (n, e); node_term (cl_nodes s i) \<noteq> u64_max\<rbrakk>
      \<Longrightarrow> cluster_step s (settle i n e s)"
| deliver: "\<lbrakk>m \<in> cl_network s; msg_to m = i; node_step (cl_nodes s i) m = Some (n, e);
      node_term (cl_nodes s i) \<noteq> u64_max; msg_term m \<noteq> u64_max\<rbrakk>
      \<Longrightarrow> cluster_step s (settle i n e s)"
| disk: "\<lbrakk>node_disk_write_complete (cl_nodes s i) x = Some (n, e);
      node_term (cl_nodes s i) \<noteq> u64_max\<rbrakk>
      \<Longrightarrow> cluster_step s (settle i n e s)"
| propose: "\<lbrakk>node_propose (cl_nodes s i) cmd = Some (n, Inr (x, e));
      last_index (core_log (node_core (cl_nodes s i))) \<noteq> u64_max\<rbrakk>
      \<Longrightarrow> cluster_step s (settle i n e s)"
| read: "node_request_read_index (cl_nodes s i) = (n, Inr (x, e))
      \<Longrightarrow> cluster_step s (settle i n e s)"
| transfer: "node_transfer_leadership (cl_nodes s i) target = Inr e
      \<Longrightarrow> cluster_step s (settle i (cl_nodes s i) e s)"
| advance: "cluster_step s (settle i (node_advance (cl_nodes s i) x) eff_none s)"
| restart: "node_restore (core_config (node_core (cl_nodes s i))) (cl_disk s i) = Some n
      \<Longrightarrow> cluster_step s (settle i n eff_none s)"

inductive reachable :: "(NodeId \<Rightarrow> Config) \<Rightarrow> NodeId list \<Rightarrow> Cluster \<Rightarrow> bool" where
  start: "initial cfg vs s \<Longrightarrow> reachable cfg vs s"
| step: "reachable cfg vs s \<Longrightarrow> cluster_step s s' \<Longrightarrow> reachable cfg vs s'"

section \<open>Support of a role\<close>

text \<open>The votes a candidate counts and the quorum a leader rests on have been cast.\<close>

definition role_backed :: "(NodeId \<times> Term \<times> NodeId) set \<Rightarrow> RaftNode \<Rightarrow> bool" where
  "role_backed B n =
     (case node_role n of
        RCandidate s \<Rightarrow> node_term n \<noteq> 0 \<and>
          (\<forall>v \<in> cand_votes s. (v, node_term n, node_id n) \<in> B)
      | RLeader l \<Rightarrow> node_term n \<noteq> 0 \<and>
          has_quorum (p_bootstrap_config (persistent (node_core n)))
            (\<lambda>v. (v, node_term n, node_id n) \<in> B)
      | _ \<Rightarrow> True)"

lemma role_backed_mono: "role_backed B n \<Longrightarrow> B \<subseteq> B' \<Longrightarrow> role_backed B' n"
  unfolding role_backed_def
  by (auto split: RoleState.splits elim!: has_quorum_mono)

lemma candidate_quorum_backed:
  assumes "candidate_has_quorum s c" "plain_log (core_log c)"
    "\<forall>v \<in> cand_votes s. (v, core_term c, core_id c) \<in> B"
  shows "has_quorum (p_bootstrap_config (persistent c)) (\<lambda>v. (v, core_term c, core_id c) \<in> B)"
  using assms(1) unfolding candidate_has_quorum_def plain_effective_config [OF assms(2)]
  by (rule has_quorum_mono) (use assms(3) in blast)

lemma become_leader_role: "become_leader c = Some (n, e) \<Longrightarrow> node_core n = c \<and> (\<exists>l. node_role n = RLeader l)"
  by (auto simp: become_leader_def Option.bind_eq_Some_conv)

lemma become_candidate_backed:
  assumes "become_candidate c = Some (n, e)" "plain_log (core_log c)" "core_term c \<noteq> u64_max"
  shows "role_backed (cast n) n"
proof -
  from assms(1) obtain s c1 e1 where new: "candidate_new c = Some (s, c1, e1)"
    and n: "(if candidate_has_quorum s c1 then do {
               (n, leader_effects) \<leftarrow> become_leader c1;
               Some (n, eff_merge e1 leader_effects)
             } else Some (\<lparr>node_core = c1, node_role = RCandidate s\<rparr>, e1)) = Some (n, e)"
    by (auto simp: become_candidate_def Option.bind_eq_Some_conv)
  have c1: "core_log c1 = core_log c" "core_term c1 = core_term c + 1" "core_id c1 = core_id c"
    "voted_for c1 = (if core_is_voter c then Some (core_id c) else None)"
    unfolding candidate_new_SomeD(1) [OF new] by simp_all
  have pos: "core_term c1 \<noteq> 0"
    using u64_less_inc [OF assms(3)] by (auto simp: c1)
  have core: "node_core n = c1"
    using n by (auto simp: Option.bind_eq_Some_conv dest: become_leader_role split: if_splits)
  have votes: "\<forall>v \<in> cand_votes s. (v, core_term c1, core_id c1) \<in> cast n"
    unfolding candidate_new_SomeD(2) [OF new]
    by (auto simp: cast_def node_id_def node_term_def core c1)
  show ?thesis
  proof (cases "candidate_has_quorum s c1")
    case True
    with n obtain l where "node_role n = RLeader l"
      by (auto simp: Option.bind_eq_Some_conv dest: become_leader_role)
    moreover from True votes assms(2) c1(1) have
      "has_quorum (p_bootstrap_config (persistent c1)) (\<lambda>v. (v, core_term c1, core_id c1) \<in> cast n)"
      by (intro candidate_quorum_backed) simp_all
    ultimately show ?thesis by (simp add: role_backed_def node_term_def node_id_def core pos)
  next
    case False
    with n votes pos show ?thesis by (auto simp: role_backed_def node_term_def node_id_def core)
  qed
qed

lemma become_precandidate_backed:
  assumes "become_precandidate c = Some (n, e)" "plain_log (core_log c)" "core_term c \<noteq> u64_max"
  shows "role_backed (cast n) n"
proof -
  from assms(1) obtain s c1 e1 where new: "precandidate_new c = Some (s, c1, e1)"
    and n: "(if precandidate_has_quorum s c1 then do {
               (n, candidate_effects) \<leftarrow> become_candidate c1;
               Some (n, eff_merge e1 candidate_effects)
             } else Some (\<lparr>node_core = c1, node_role = RPreCandidate s\<rparr>, e1)) = Some (n, e)"
    by (auto simp: become_precandidate_def Option.bind_eq_Some_conv)
  have c1: "core_log c1 = core_log c" "core_term c1 = core_term c"
    unfolding precandidate_new_SomeD(1) [OF new] by simp_all
  show ?thesis
  proof (cases "precandidate_has_quorum s c1")
    case True
    with n obtain e2 where "become_candidate c1 = Some (n, e2)"
      by (auto simp: Option.bind_eq_Some_conv)
    then show ?thesis by (rule become_candidate_backed) (use assms(2,3) c1 in simp_all)
  next
    case False
    with n show ?thesis by (auto simp: role_backed_def)
  qed
qed

lemma apply_transition_backed:
  assumes "apply_transition n tr = Some (n', e)" "plain_log (core_log (node_core n))"
    "tr \<noteq> Stay" "tr \<noteq> ToLeader"
    and "tr \<in> {ToPreCandidate, ToCandidate} \<Longrightarrow> core_term (node_core n) \<noteq> u64_max"
  shows "role_backed (cast n') n'"
proof (cases tr)
  case (ToFollower l)
  with assms(1) show ?thesis
    by (auto simp: apply_transition_def become_follower_def role_backed_def
        Option.bind_eq_Some_conv)
next
  case (ToFollowerAfterContact l)
  with assms(1) show ?thesis
    by (auto simp: apply_transition_def role_backed_def Option.bind_eq_Some_conv)
next
  case ToPreCandidate
  with assms show ?thesis
    by (intro become_precandidate_backed) (simp_all add: apply_transition_def)
next
  case ToCandidate
  with assms show ?thesis
    by (intro become_candidate_backed) (simp_all add: apply_transition_def)
qed (use assms in simp_all)

text \<open>Only a candidate asks to become the leader.\<close>

lemma follower_never_leads:
  assumes "follower_step f c ev = Some (f', c', r)"
  shows "sr_transition r \<noteq> ToLeader"
proof (cases ev)
  case (MessageEvent m)
  with assms have "follower_on_message f c m = Some (f', c', r)" by (simp add: follower_step_def)
  then show ?thesis
  proof (cases rule: follower_on_message_cases)
    case (dispatch f1 r1)
    have "sr_transition r1 \<noteq> ToLeader"
      using dispatch(2) unfolding follower_dispatch_def
      by (auto simp: follower_handle_vote_request_def follower_handle_read_index_request_def
          follower_handle_install_snapshot_def Option.bind_eq_Some_conv Let_def
          split: Payload.splits if_splits elim!: follower_append_request_cases)
    with dispatch(3) show ?thesis by simp
  qed simp
qed (use assms in \<open>auto simp: follower_step_def follower_handle_tick_def Let_def
    split: if_splits\<close>)

lemma leader_never_leads:
  assumes "leader_step l c ev = Some (l', c', r)" "plain_log (core_log c)"
  shows "sr_transition r \<noteq> ToLeader"
proof (cases ev)
  case (MessageEvent m)
  with assms have "leader_on_message l c m = Some (l', c', r)" by (simp add: leader_step_def)
  then show ?thesis
    by (cases rule: leader_on_message_cases)
      (use assms(2) in \<open>auto simp: step_down_def dest: leader_dispatch_plain\<close>)
qed (use assms in \<open>auto simp: leader_step_def leader_handle_tick_def handle_disk_write_complete_def
    after_commit_plain Option.bind_eq_Some_conv Let_def split: if_splits\<close>)

text \<open>What is assumed of a delivered vote: it has been cast for this node.\<close>

definition event_backed :: "(NodeId \<times> Term \<times> NodeId) set \<Rightarrow> NodeId \<Rightarrow> Event \<Rightarrow> bool" where
  "event_backed B i ev \<longleftrightarrow>
     (\<forall>m. ev = MessageEvent m \<and> grants_vote (msg_payload m) \<longrightarrow> (msg_from m, msg_term m, i) \<in> B)"

lemma candidate_step_backed:
  assumes "candidate_step s (node_core n) ev = Some (s', node_core n1, r)"
    "node_role n = RCandidate s" "node_role n1 = RCandidate s'"
    "role_backed B n" "event_backed B (node_id n) ev" "core_evolves (node_core n) (node_core n1)"
    "sr_transition r \<in> {Stay, ToLeader}"
  shows "role_backed B n1"
proof -
  have ids: "node_id n1 = node_id n" "node_term n1 = node_term n"
    using candidate_step_votes [OF assms(1)] assms(7) core_evolves_id [OF assms(6)]
    by (auto simp: node_id_def node_term_def)
  have "(v, node_term n, node_id n) \<in> B" if "v \<in> cand_votes s'" for v
    using candidate_step_votes [OF assms(1)] assms(2,4,5,7) that
    by (auto simp: role_backed_def event_backed_def node_term_def)
  moreover have "node_term n \<noteq> 0" using assms(2,4) by (simp add: role_backed_def)
  ultimately show ?thesis using assms(3) ids by (simp add: role_backed_def)
qed

lemma leader_step_backed:
  assumes "leader_step l (node_core n) ev = Some (l', node_core n1, r)"
    "node_role n = RLeader l" "node_role n1 = RLeader l'" "role_backed B n"
    "sr_transition r = Stay"
  shows "role_backed B n1"
proof -
  have "leader_step_ok (node_core n) (node_core n1) r"
    using assms(1) by (cases rule: leader_step_cases)
      (use assms(5) in \<open>auto simp: step_down_def\<close>)
  then have "core_term (node_core n1) = core_term (node_core n)"
    "core_id (node_core n1) = core_id (node_core n)"
    "p_bootstrap_config (persistent (node_core n1)) = p_bootstrap_config (persistent (node_core n))"
    by (auto simp: leader_step_ok_def leader_evolves_def core_id_def)
  then show ?thesis
    using assms(2-4) by (simp add: role_backed_def node_id_def node_term_def)
qed

lemma role_step_backed:
  assumes "role_step n ev = Some (n1, r)" "plain_log (core_log (node_core n))"
    "role_backed B n" "event_backed B (node_id n) ev"
  shows "sr_transition r = Stay \<Longrightarrow> role_backed B n1"
    and "sr_transition r = ToLeader \<Longrightarrow> \<exists>s. node_role n1 = RCandidate s \<and> role_backed B n1 \<and>
      candidate_has_quorum s (node_core n1)"
proof -
  have "dispatch_role (node_role n) (node_core n) ev = Some (node_role n1, node_core n1, r)"
    using assms(1) by (simp add: dispatch_role_iff)
  then have ev: "core_evolves (node_core n) (node_core n1)"
    using any_role.contract_stay by blast
  show "role_backed B n1" if "sr_transition r = Stay"
    using assms(1)
  proof (cases rule: role_step_cases)
    case (candidate s s')
    show ?thesis
      by (rule candidate_step_backed [OF candidate(3,1,2) assms(3,4) ev]) (simp add: that)
  next
    case (leader l l')
    show ?thesis by (rule leader_step_backed [OF leader(3,1,2) assms(3) that])
  qed (simp_all add: role_backed_def)
  show "\<exists>s. node_role n1 = RCandidate s \<and> role_backed B n1 \<and> candidate_has_quorum s (node_core n1)"
    if lead: "sr_transition r = ToLeader"
    using assms(1)
  proof (cases rule: role_step_cases)
    case (follower f f')
    then show ?thesis using follower_never_leads lead by blast
  next
    case (precandidate p p')
    from precandidate(3) show ?thesis
      by (cases rule: precandidate_step_cases) (use lead in auto)
  next
    case (candidate s s')
    then have "role_backed B n1"
      by (intro candidate_step_backed [OF candidate(3,1,2) assms(3,4) ev]) (simp add: lead)
    then show ?thesis using candidate candidate_step_votes [OF candidate(3)] lead by auto
  next
    case (leader l l')
    then show ?thesis using leader_never_leads assms(2) lead by blast
  qed
qed

lemma step_event_backed:
  assumes "step_event n ev = Some (n', e)" "plain_log (core_log (node_core n))" "plain_event ev"
    "role_backed B n" "event_backed B (node_id n) ev" "term_room (node_core n) ev"
  shows "role_backed (B \<union> cast n') n'"
  using assms(1)
proof (cases rule: step_event_cases)
  case (stay r)
  then have "role_backed B n'" by (intro role_step_backed(1) [OF _ assms(2,4,5)])
  then show ?thesis by (rule role_backed_mono) simp
next
  case (move n1 r e1)
  have plain: "plain_log (core_log (node_core n1))"
    using role_step_plain [OF move(1) assms(2,3)] by simp
  show ?thesis
  proof (cases "sr_transition r = ToLeader")
    case True
    from role_step_backed(2) [OF move(1) assms(2,4,5) True] obtain s where
      s: "node_role n1 = RCandidate s" "role_backed B n1" "candidate_has_quorum s (node_core n1)"
      by blast
    from move(3) True obtain l where n': "node_core n' = node_core n1" "node_role n' = RLeader l"
      by (auto simp: apply_transition_def dest: become_leader_role)
    have "has_quorum (p_bootstrap_config (persistent (node_core n1)))
        (\<lambda>v. (v, core_term (node_core n1), core_id (node_core n1)) \<in> B)"
      using s(1,2) by (intro candidate_quorum_backed [OF s(3) plain])
        (simp add: role_backed_def node_id_def node_term_def)
    with s n' have "role_backed B n'" by (simp add: role_backed_def node_id_def node_term_def)
    then show ?thesis by (rule role_backed_mono) simp
  next
    case False
    have role: "dispatch_role (node_role n) (node_core n) ev =
        Some (node_role n1, node_core n1, r)"
      using move(1) by (simp add: dispatch_role_iff)
    have "core_term (node_core n1) \<noteq> u64_max"
      if "sr_transition r \<in> {ToPreCandidate, ToCandidate}"
      using any_role.role_campaign_term [OF role that] assms(6) by (auto simp: term_room_def)
    then have "role_backed (cast n') n'"
      by (rule apply_transition_backed [OF move(3) plain move(2) False])
    then show ?thesis by (rule role_backed_mono) simp
  qed
qed

section \<open>The invariant\<close>

definition node_inv :: "Config \<Rightarrow> NodeId list \<Rightarrow> Cluster \<Rightarrow> NodeId \<Rightarrow> bool" where
  "node_inv cfg vs s i \<longleftrightarrow>
     (let n = cl_nodes s i in
      core_config (node_core n) = cfg \<and> cfg_id cfg = i \<and>
      p_bootstrap_config (persistent (node_core n)) = config_simple vs \<and>
      plain_log (core_log (node_core n)) \<and> cl_disk s i = persistent (node_core n) \<and>
      role_backed (cl_ballots s) n \<and> cast n \<subseteq> cl_ballots s \<and>
      (\<forall>t x. (i, t, x) \<in> cl_ballots s \<longrightarrow>
         t \<le> node_term n \<and> (t = node_term n \<longrightarrow> voted_for (node_core n) = Some x)) \<and>
      (node_is_leader n \<longrightarrow> (node_term n, i) \<in> cl_elected s))"

definition message_inv :: "Cluster \<Rightarrow> Message \<Rightarrow> bool" where
  "message_inv s m \<longleftrightarrow>
     plain_payload (msg_payload m) \<and>
     (grants_vote (msg_payload m) \<longrightarrow> (msg_from m, msg_term m, msg_to m) \<in> cl_ballots s)"

definition cluster_inv :: "(NodeId \<Rightarrow> Config) \<Rightarrow> NodeId list \<Rightarrow> Cluster \<Rightarrow> bool" where
  "cluster_inv cfg vs s \<longleftrightarrow>
     (\<forall>i. node_inv (cfg i) vs s i) \<and> (\<forall>m \<in> cl_network s. message_inv s m) \<and>
     (\<forall>v t a b. (v, t, a) \<in> cl_ballots s \<and> (v, t, b) \<in> cl_ballots s \<longrightarrow> a = b) \<and>
     (\<forall>t i. (t, i) \<in> cl_elected s \<longrightarrow>
        has_quorum (config_simple vs) (\<lambda>v. (v, t, i) \<in> cl_ballots s))"

text \<open>What a node's operation has to provide for the cluster to settle it.\<close>

definition node_move :: "(NodeId \<times> Term \<times> NodeId) set \<Rightarrow> RaftNode \<Rightarrow> RaftNode \<Rightarrow> Effects \<Rightarrow> bool" where
  "node_move B n n' e \<longleftrightarrow>
     core_evolves (node_core n) (node_core n') \<and> honest (node_core n') e \<and>
     persisted (node_core n) (node_core n') e \<and> plain_log (core_log (node_core n')) \<and>
     node_sends n' e \<and> role_backed (B \<union> cast n') n'"

lemma cast_iff: "(v, t, x) \<in> cast n \<longleftrightarrow> v = node_id n \<and> t = node_term n \<and> voted_for (node_core n) = Some x"
  by (auto simp: cast_def split: option.splits)

lemma settle_simps [simp]:
  "cl_nodes (settle i n e s) j = (if j = i then n else cl_nodes s j)"
  "cl_network (settle i n e s) = cl_network s \<union> set (eff_messages e)"
  "cl_ballots (settle i n e s) = cl_ballots s \<union> cast n"
  "cl_disk (settle i n e s) j =
     (if eff_persist e \<and> j = i then node_persistent n else cl_disk s j)"
  "cl_elected (settle i n e s) =
     (if node_is_leader n then insert (node_term n, node_id n) (cl_elected s) else cl_elected s)"
  "cl_ledger (settle i n e s) =
     (if node_is_leader n
      then (cl_ledger s)(node_term n := entries (core_log (node_core n))) else cl_ledger s)"
  by (simp_all add: settle_def)

lemma settle_ballots_unique:
  assumes inv: "cluster_inv cfg vs s" and mv: "node_move (cl_ballots s) (cl_nodes s i) n e"
    and "(v, t, a) \<in> cl_ballots s \<union> cast n" "(v, t, b) \<in> cl_ballots s \<union> cast n"
  shows "a = b"
proof -
  have ni: "node_inv (cfg i) vs s i" and
    uniq: "\<And>v t a b. (v, t, a) \<in> cl_ballots s \<Longrightarrow> (v, t, b) \<in> cl_ballots s \<Longrightarrow> a = b"
    using inv unfolding cluster_inv_def by blast+
  have evolves: "core_evolves (node_core (cl_nodes s i)) (node_core n)"
    using mv by (simp add: node_move_def)
  then have id: "node_id n = i"
    using ni by (simp add: node_inv_def node_id_def core_evolves_def core_id_def Let_def)
  have old_new: "x = y" if "(v, t, x) \<in> cl_ballots s" "(v, t, y) \<in> cast n" for x y
  proof -
    from that(2) have "v = i" "t = node_term n" "voted_for (node_core n) = Some y"
      by (auto simp: cast_iff id)
    moreover from this that(1) ni have "t \<le> node_term (cl_nodes s i)"
      "t = node_term (cl_nodes s i) \<longrightarrow> voted_for (node_core (cl_nodes s i)) = Some x"
      by (auto simp: node_inv_def Let_def)
    ultimately show ?thesis using evolves by (auto simp: core_evolves_def node_term_def)
  qed
  have new_new: "x = y" if "(v, t, x) \<in> cast n" "(v, t, y) \<in> cast n" for x y
    using that by (simp add: cast_iff)
  from assms(3,4) uniq [of v t a b] old_new [of a b] old_new [of b a] new_new [of a b]
  show ?thesis by blast
qed

lemma settle_node_inv:
  assumes inv: "cluster_inv cfg vs s" and mv: "node_move (cl_ballots s) (cl_nodes s i) n e"
  shows "node_inv (cfg j) vs (settle i n e s) j"
proof -
  have old: "node_inv (cfg j) vs s j" for j using inv by (simp add: cluster_inv_def)
  have evolves: "core_evolves (node_core (cl_nodes s i)) (node_core n)"
    using mv by (simp add: node_move_def)
  then have id: "node_id n = i"
    using old [of i] by (simp add: node_inv_def node_id_def core_evolves_def core_id_def Let_def)
  show ?thesis
  proof (cases "j = i")
    case False
    have "role_backed (cl_ballots s \<union> cast n) (cl_nodes s j)"
      by (rule role_backed_mono [of "cl_ballots s"]) (use old [of j] in \<open>auto simp: node_inv_def Let_def\<close>)
    with old [of j] False id show ?thesis
      by (auto simp: node_inv_def Let_def cast_iff)
  next
    case True
    have "t \<le> node_term n \<and> (t = node_term n \<longrightarrow> voted_for (node_core n) = Some x)"
      if "(i, t, x) \<in> cl_ballots s" for t x
    proof -
      have "t \<le> node_term (cl_nodes s i)"
        "t = node_term (cl_nodes s i) \<longrightarrow> voted_for (node_core (cl_nodes s i)) = Some x"
        using old [of i] that by (auto simp: node_inv_def Let_def)
      then show ?thesis using evolves by (auto simp: core_evolves_def node_term_def)
    qed
    with True old [of i] mv evolves id show ?thesis
      by (auto simp: node_inv_def Let_def node_move_def cast_iff core_evolves_def
          persisted_def node_persistent_def)
  qed
qed

lemma settle_message_inv:
  assumes inv: "cluster_inv cfg vs s" and mv: "node_move (cl_ballots s) (cl_nodes s i) n e"
    and m: "m \<in> cl_network (settle i n e s)"
  shows "message_inv (settle i n e s) m"
proof (cases "m \<in> cl_network s")
  case True
  then show ?thesis using inv by (auto simp: cluster_inv_def message_inv_def)
next
  case False
  with m have m: "m \<in> set (eff_messages e)" by simp
  have "plain_payload (msg_payload m)"
    using mv m by (auto simp: node_move_def node_sends_def intro: appends_from_plain)
  moreover have "(msg_from m, msg_term m, msg_to m) \<in> cast n" if "grants_vote (msg_payload m)"
    using mv m that by (auto simp: node_move_def honest_def cast_iff node_id_def node_term_def)
  ultimately show ?thesis by (auto simp: message_inv_def)
qed

lemma settle_inv:
  assumes inv: "cluster_inv cfg vs s" and mv: "node_move (cl_ballots s) (cl_nodes s i) n e"
  shows "cluster_inv cfg vs (settle i n e s)"
  unfolding cluster_inv_def
proof (intro conjI allI ballI impI; (elim conjE)?)
  show "node_inv (cfg j) vs (settle i n e s) j" for j by (rule settle_node_inv [OF assms])
  show "message_inv (settle i n e s) m" if "m \<in> cl_network (settle i n e s)" for m
    by (rule settle_message_inv [OF assms that])
  show "a = b" if "(v, t, a) \<in> cl_ballots (settle i n e s)"
    "(v, t, b) \<in> cl_ballots (settle i n e s)" for v t a b
    using that by (intro settle_ballots_unique [OF assms, of v t]) simp_all
  show "has_quorum (config_simple vs) (\<lambda>v. (v, t, j) \<in> cl_ballots (settle i n e s))"
    if el: "(t, j) \<in> cl_elected (settle i n e s)" for t j
  proof (cases "(t, j) \<in> cl_elected s")
    case True
    then have "has_quorum (config_simple vs) (\<lambda>v. (v, t, j) \<in> cl_ballots s)"
      using inv by (simp add: cluster_inv_def)
    then show ?thesis by (rule has_quorum_mono) simp
  next
    case False
    with el have lead: "node_is_leader n" "t = node_term n" "j = node_id n"
      by (auto split: if_splits)
    moreover have "p_bootstrap_config (persistent (node_core n)) = config_simple vs"
      using inv mv by (auto simp: cluster_inv_def node_inv_def node_move_def core_evolves_def Let_def)
    moreover have "role_backed (cl_ballots s \<union> cast n) n" using mv by (simp add: node_move_def)
    ultimately show ?thesis
      by (cases "node_role n") (simp_all add: role_backed_def node_is_leader_def)
  qed
qed

section \<open>Every step preserves it\<close>

lemma event_move:
  assumes "node_inv cfg vs s i" "step_event (cl_nodes s i) ev = Some (n, e)"
    "term_room (node_core (cl_nodes s i)) ev" "plain_event ev" "event_backed (cl_ballots s) i ev"
  shows "node_move (cl_ballots s) (cl_nodes s i) n e"
proof -
  let ?n = "cl_nodes s i"
  have inv: "plain_log (core_log (node_core ?n))" "role_backed (cl_ballots s) ?n" "node_id ?n = i"
    using assms(1) by (auto simp: node_inv_def node_id_def core_id_def Let_def)
  have "agrees_with_snapshot (core_log (node_core ?n)) ev"
    using inv(1)
    by (simp add: agrees_with_snapshot_def plain_log_def split: Event.splits Payload.splits)
  then have "persisted (node_core ?n) (node_core n) e"
    using inv(1) by (intro step_event_persisted [OF assms(2,3)]) (simp_all add: plain_logD)
  with inv assms(4,5) step_event_evolves [OF assms(2,3)] step_event_plain [OF assms(2)]
    step_event_backed [OF assms(2) inv(1) assms(4) inv(2) _ assms(3)]
  show ?thesis by (simp add: node_move_def)
qed

lemma node_move_quiet:
  assumes "core_evolves (node_core n) (node_core n')" "quiet (node_id n) e"
    "persisted (node_core n) (node_core n') e" "plain_log (core_log (node_core n'))"
    "node_sends n' e" "role_backed B n'"
  shows "node_move B n n' e"
proof -
  have "honest (node_core n') e"
    using assms(1,2) by (intro quiet_honest) (simp add: core_evolves_id node_id_def)
  moreover have "role_backed (B \<union> cast n') n'" by (rule role_backed_mono [OF assms(6)]) simp
  ultimately show ?thesis using assms by (simp add: node_move_def)
qed

lemma propose_move:
  assumes "node_inv cfg vs s i" "node_propose (cl_nodes s i) cmd = Some (n, Inr (x, e))"
    "last_index (core_log (node_core (cl_nodes s i))) \<noteq> u64_max"
  shows "node_move (cl_ballots s) (cl_nodes s i) n e"
proof -
  let ?n = "cl_nodes s i"
  have inv: "plain_log (core_log (node_core ?n))" "role_backed (cl_ballots s) ?n"
    using assms(1) by (auto simp: node_inv_def Let_def)
  from assms(2) obtain l where lead: "node_role ?n = RLeader l"
    by (auto simp: node_propose_def split: RoleState.splits)
  with inv(2) have "core_term (node_core ?n) \<noteq> 0" by (simp add: role_backed_def node_term_def)
  note p = node_propose_plain [OF assms(2) inv(1) assms(3) this]
  from p(2) obtain l' where lead': "node_role n = RLeader l'" by (cases "node_role n") auto
  have "role_backed (cl_ballots s) n"
    using inv(2) p(6) lead lead'
    by (simp add: role_backed_def node_term_def node_id_def leader_evolves_def core_id_def)
  then show ?thesis
    using p by (intro node_move_quiet) (simp_all add: leader_evolves_core persisted_def)
qed

lemma read_move:
  assumes "node_inv cfg vs s i" "node_request_read_index (cl_nodes s i) = (n, Inr (x, e))"
  shows "node_move (cl_ballots s) (cl_nodes s i) n e"
proof -
  note r = node_request_read_index_plain [OF assms(2)]
  from r(4) assms(1) have "role_backed (cl_ballots s) n"
    by (auto simp: node_inv_def role_backed_def node_term_def node_id_def r(1) Let_def)
  then show ?thesis
    using r(1-3) assms(1)
    by (intro node_move_quiet) (simp_all add: persisted_def node_sends_def node_inv_def Let_def)
qed

text \<open>A step is an event of the automaton, a proposal, or an operation that touches neither
  the log nor the term and makes nobody a candidate or a leader.\<close>

definition idle_move :: "Cluster \<Rightarrow> NodeId \<Rightarrow> RaftNode \<Rightarrow> Effects \<Rightarrow> bool" where
  "idle_move s i n e \<longleftrightarrow>
     node_move (cl_ballots s) (cl_nodes s i) n e \<and>
     core_log (node_core n) = core_log (node_core (cl_nodes s i)) \<and>
     node_term n = node_term (cl_nodes s i) \<and>
     (role_is_candidate (node_role n) \<longrightarrow> role_is_candidate (node_role (cl_nodes s i))) \<and>
     (role_is_leader (node_role n) \<longrightarrow> role_is_leader (node_role (cl_nodes s i)))"

lemma transfer_idle:
  assumes "node_inv cfg vs s i" "node_transfer_leadership (cl_nodes s i) target = Inr e"
  shows "idle_move s i (cl_nodes s i) e"
proof -
  have "node_move (cl_ballots s) (cl_nodes s i) (cl_nodes s i) e"
    using node_transfer_leadership_plain [OF assms(2)] assms(1)
    by (intro node_move_quiet) (simp_all add: persisted_def node_sends_def node_inv_def Let_def)
  then show ?thesis by (simp add: idle_move_def)
qed

lemma advance_idle:
  assumes "node_inv cfg vs s i"
  shows "idle_move s i (node_advance (cl_nodes s i) x) eff_none"
proof -
  have "node_move (cl_ballots s) (cl_nodes s i) (node_advance (cl_nodes s i) x) eff_none"
    using assms
    by (intro node_move_quiet)
      (auto simp: persisted_def node_sends_def node_inv_def node_advance_def role_backed_def
        node_term_def node_id_def Let_def split: RoleState.splits)
  then show ?thesis by (simp add: idle_move_def node_advance_def node_term_def)
qed

lemma restart_idle:
  assumes "node_inv cfg vs s i"
    "node_restore (core_config (node_core (cl_nodes s i))) (cl_disk s i) = Some n"
  shows "idle_move s i n eff_none"
proof -
  note r = node_restore_SomeD [OF assms(2)]
  have disk: "cl_disk s i = persistent (node_core (cl_nodes s i))"
    using assms(1) by (simp add: node_inv_def Let_def)
  have "node_move (cl_ballots s) (cl_nodes s i) n eff_none"
    using assms(1) r disk
    by (intro node_move_quiet; cases "node_role n")
      (auto simp: persisted_def node_sends_def node_inv_def role_backed_def core_evolves_def
        core_term_def core_log_def Let_def)
  then show ?thesis
    using r disk by (cases "node_role n")
      (auto simp: idle_move_def core_log_def core_term_def node_term_def)
qed

lemma read_idle:
  assumes "node_inv cfg vs s i" "node_request_read_index (cl_nodes s i) = (n, Inr (x, e))"
  shows "idle_move s i n e"
  using read_move [OF assms] node_request_read_index_plain [OF assms(2)]
  by (auto simp: idle_move_def node_term_def)

lemma cluster_step_cases:
  assumes inv: "cluster_inv cfg vs s" and "cluster_step s s'"
  obtains (event) i ev n e where "s' = settle i n e s"
      "step_event (cl_nodes s i) ev = Some (n, e)" "term_room (node_core (cl_nodes s i)) ev"
      "plain_event ev" "event_backed (cl_ballots s) i ev"
      "\<And>m. ev = MessageEvent m \<Longrightarrow> m \<in> cl_network s"
  | (propose) i cmd n x e where "s' = settle i n e s"
      "node_propose (cl_nodes s i) cmd = Some (n, Inr (x, e))"
      "last_index (core_log (node_core (cl_nodes s i))) \<noteq> u64_max"
  | (idle) i n e where "s' = settle i n e s" "idle_move s i n e"
proof -
  have ni: "node_inv (cfg i) vs s i" for i using inv by (simp add: cluster_inv_def)
  from assms(2) show thesis
  proof cases
    case (tick i n e)
    then show thesis
      by (intro event [of i n e Tick])
        (simp_all add: node_tick_def term_room_def event_terms_def event_backed_def node_term_def)
  next
    case (deliver m i n e)
    have "message_inv s m" using inv deliver(2) by (simp add: cluster_inv_def)
    with deliver show thesis
      by (intro event [of i n e "MessageEvent m"])
        (auto simp: node_step_def term_room_def event_terms_def event_backed_def node_term_def
          message_inv_def)
  next
    case (disk i x n e)
    then show thesis
      by (intro event [of i n e "DiskWriteComplete x"])
        (simp_all add: node_disk_write_complete_def term_room_def event_terms_def
          event_backed_def node_term_def)
  next
    case (read i n x e)
    then show thesis using idle read_idle [OF ni] by blast
  next
    case (transfer i target e)
    then show thesis using idle transfer_idle [OF ni] by blast
  next
    case (advance i x)
    then show thesis using idle advance_idle [OF ni] by blast
  next
    case (restart i n)
    then show thesis using idle restart_idle [OF ni] by blast
  qed (rule propose)
qed

lemma cluster_step_move:
  assumes inv: "cluster_inv cfg vs s" and "cluster_step s s'"
  shows "\<exists>i n e. s' = settle i n e s \<and> node_move (cl_ballots s) (cl_nodes s i) n e"
proof -
  have ni: "node_inv (cfg i) vs s i" for i using inv by (simp add: cluster_inv_def)
  from assms show ?thesis
  proof (cases rule: cluster_step_cases)
    case (event i ev n e)
    then show ?thesis using event_move [OF ni event(2-5)] by blast
  next
    case (propose i cmd n x e)
    then show ?thesis using propose_move [OF ni] by blast
  next
    case (idle i n e)
    then show ?thesis by (auto simp: idle_move_def)
  qed
qed

lemma initial_inv:
  assumes "initial cfg vs s"
  shows "cluster_inv cfg vs s"
proof -
  have new: "core_config (node_core n) = c \<and> role_is_follower (node_role n) \<and>
      persistent (node_core n) = persistent_default\<lparr>p_bootstrap_config := config_simple vs\<rparr>"
    if "node_new c vs = Some n" for c n
    using that
    by (auto simp: node_new_def core_new_def Option.bind_eq_Some_conv dest!: follower_new_SomeD)
  have "node_inv (cfg i) vs s i" for i
  proof -
    let ?n = "cl_nodes s i"
    have n: "node_new (cfg i) vs = Some ?n" "cfg_id (cfg i) = i"
      "cl_disk s i = persistent (node_core ?n)" "cl_ballots s = {}"
      using assms by (simp_all add: initial_def node_persistent_def)
    from new [OF n(1)] obtain f where
      "core_config (node_core ?n) = cfg i" "node_role ?n = RFollower f"
      "persistent (node_core ?n) = persistent_default\<lparr>p_bootstrap_config := config_simple vs\<rparr>"
      by (cases "node_role ?n") auto
    with n show ?thesis
      by (simp add: node_inv_def role_backed_def cast_def core_log_def persistent_default_def
          node_is_leader_def Let_def)
  qed
  then show ?thesis using assms by (simp add: cluster_inv_def initial_def)
qed

lemma reachable_inv: "reachable cfg vs s \<Longrightarrow> cluster_inv cfg vs s"
proof (induction rule: reachable.induct)
  case (start cfg vs s)
  then show ?case by (rule initial_inv)
next
  case (step cfg vs s s')
  from cluster_step_move [OF step.IH step.hyps(2)] show ?case
    using settle_inv [OF step.IH] by blast
qed

lemma reachable_disk:
  "reachable cfg vs s \<Longrightarrow> cl_disk s i = node_persistent (cl_nodes s i)"
  using reachable_inv [of cfg vs s]
  by (simp add: cluster_inv_def node_inv_def node_persistent_def Let_def)

lemma leader_elected:
  "reachable cfg vs s \<Longrightarrow> node_is_leader (cl_nodes s i) \<Longrightarrow> (node_term (cl_nodes s i), i) \<in> cl_elected s"
  using reachable_inv [of cfg vs s] by (simp add: cluster_inv_def node_inv_def Let_def)

lemma elected_unique:
  assumes "reachable cfg vs s" "(t, i) \<in> cl_elected s" "(t, j) \<in> cl_elected s"
  shows "i = j"
proof -
  have inv: "cluster_inv cfg vs s" by (rule reachable_inv [OF assms(1)])
  show ?thesis
  proof (rule config_quorum.single_winner [of "\<lambda>v x. (v, t, x) \<in> cl_ballots s"])
    show "a = b" if "(v, t, a) \<in> cl_ballots s" "(v, t, b) \<in> cl_ballots s" for v a b
      using inv that unfolding cluster_inv_def by blast
    show "has_quorum (config_simple vs) (\<lambda>v. (v, t, i) \<in> cl_ballots s)"
      "has_quorum (config_simple vs) (\<lambda>v. (v, t, j) \<in> cl_ballots s)"
      using inv assms(2,3) by (simp_all add: cluster_inv_def)
  qed
qed

end
