(* ===== verification/Raft_Matching.thy ===== *)
theory Raft_Matching
  imports Raft_Cluster "HOL-Library.Sublist"
begin

text \<open>
  The Log Matching property of a cluster: two logs that hold an entry of the same term at the
  same position agree on everything up to it. The proof follows the ledger, the log of the
  leader of each term: every log is, up to each of its entries, a prefix of the ledger of that
  entry's term.
\<close>

section \<open>Logs that trace back to the ledger\<close>

definition traced :: "(Term \<Rightarrow> Entry list) \<Rightarrow> Entry list \<Rightarrow> bool" where
  "traced L es \<longleftrightarrow>
     (\<forall>k < length es. take (Suc k) es = take (Suc k) (L (entry_term (es ! k))))"

lemma traced_Nil [simp]: "traced L []"
  by (simp add: traced_def)

lemma tracedD:
  assumes "traced L es" "k < length es"
  shows "take (Suc k) es = take (Suc k) (L (entry_term (es ! k)))"
    "k < length (L (entry_term (es ! k)))"
proof -
  show eq: "take (Suc k) es = take (Suc k) (L (entry_term (es ! k)))"
    using assms by (simp add: traced_def)
  have "length (take (Suc k) es) = Suc k" using assms(2) by simp
  then have "min (length (L (entry_term (es ! k)))) (Suc k) = Suc k" unfolding eq by simp
  then show "k < length (L (entry_term (es ! k)))" by simp
qed

lemma traced_take: "traced L es \<Longrightarrow> traced L (take n es)"
  by (auto simp: traced_def min_def)

lemma traced_grow:
  assumes "traced L es" "\<And>t. prefix (L t) (L' t)"
  shows "traced L' es"
  unfolding traced_def
proof (intro allI impI)
  fix k assume k: "k < length es"
  let ?t = "entry_term (es ! k)"
  obtain zs where "L' ?t = L ?t @ zs" using assms(2) by (auto simp: prefix_def)
  then have "take (Suc k) (L' ?t) = take (Suc k) (L ?t)"
    using tracedD(2) [OF assms(1) k] by simp
  then show "take (Suc k) es = take (Suc k) (L' ?t)" using tracedD(1) [OF assms(1) k] by simp
qed

lemma traced_agree:
  assumes "traced L xs" "traced L ys" "k < length xs" "k < length ys"
    "entry_term (xs ! k) = entry_term (ys ! k)"
  shows "take (Suc k) xs = take (Suc k) ys"
  using tracedD(1) [OF assms(1,3)] tracedD(1) [OF assms(2,4)] assms(5) by simp

text \<open>Appending an entry of term \<open>t\<close> to the ledger of \<open>t\<close> itself.\<close>

lemma traced_snoc:
  assumes "traced L es" "L (entry_term x) = es @ [x]"
  shows "traced L (es @ [x])"
  using assms by (auto simp: traced_def nth_append less_Suc_eq)

section \<open>Segments\<close>

text \<open>An \<open>AppendRequest\<close> of term \<open>t\<close> copies a stretch of the ledger of \<open>t\<close>.\<close>

definition segment :: "Entry list \<Rightarrow> AppendRequest \<Rightarrow> bool" where
  "segment es req \<longleftrightarrow>
     areq_entries req = [] \<or>
     (let p = unat (areq_prev_log_index req); n = length (areq_entries req) in
      p + n \<le> length es \<and> areq_entries req = take n (drop p es) \<and>
      (p = 0 \<or> areq_prev_log_term req = entry_term (es ! (p - 1))))"

lemma segment_grow:
  assumes "segment es req" "prefix es es'"
  shows "segment es' req"
proof (cases "areq_entries req = []")
  case False
  then have "0 < length (areq_entries req)" by simp
  moreover have "unat (areq_prev_log_index req) + length (areq_entries req) \<le> length es"
    using assms(1) False by (simp add: segment_def Let_def)
  ultimately have "unat (areq_prev_log_index req) - 1 < length es" by linarith
  with assms show ?thesis by (auto simp: segment_def prefix_def nth_append Let_def)
qed (simp add: segment_def)

lemma log_get_plain:
  assumes "plain_log l"
  shows "log_get l i = (if 0 < i \<and> unat i \<le> length (entries l) then Some (entries l ! (unat i - 1))
    else None)"
  using assms
  by (auto simp: plain_log_def log_get_eq word_le_nat_alt unat_last_index)

lemma term_at_plain:
  assumes "plain_log l" "0 < i" "unat i \<le> length (entries l)"
  shows "term_at l i = entry_term (entries l ! (unat i - 1))"
  using assms by (auto simp: term_at_eq [OF plain_logD(1)] log_get_plain plain_log_def)

lemma replicates_segment:
  assumes "plain_log l" "replicates l req"
  shows "segment (entries l) req"
proof (cases "areq_entries req = []")
  case False
  let ?p = "areq_prev_log_index req"
  note wf = plain_logD [OF assms(1)]
  obtain b where es: "areq_entries req =
      filter (\<lambda>e. ?p < entry_index e \<and> entry_index e \<le> b) (entries l)"
    using assms(2) by (auto simp: replicates_def)
  also have "\<dots> = filter (\<lambda>e. ?p < entry_index e) (entries (truncate_after b l))"
    by (simp add: entries_truncate_after [OF wf(1)] conj_commute)
  also have "\<dots> = drop (unat ?p) (take (unat b) (entries l))"
    unfolding filter_gt_index [OF wf_log_truncate_after [OF wf(1)]]
    by (simp add: entries_truncate_after [OF wf(1)] filter_le_index [OF wf(1)] wf(2))
  finally have es': "areq_entries req = drop (unat ?p) (take (unat b) (entries l))" .
  then have len: "length (areq_entries req) = min (length (entries l)) (unat b) - unat ?p" by simp
  with False have lt: "unat ?p < min (length (entries l)) (unat b)" by (cases "areq_entries req") auto
  have "areq_entries req = take (length (areq_entries req)) (drop (unat ?p) (entries l))"
    using lt unfolding len by (simp add: es' take_drop min_def)
  moreover have "unat ?p + length (areq_entries req) \<le> length (entries l)"
    using len lt by simp
  moreover have "areq_prev_log_term req = entry_term (entries l ! (unat ?p - 1))" if "unat ?p \<noteq> 0"
    using assms that lt
    by (simp add: replicates_def term_at_plain word_less_nat_alt)
  ultimately show ?thesis by (auto simp: segment_def Let_def)
qed (simp add: segment_def)

section \<open>The follower's merge\<close>

lemma merge_same:
  assumes "\<And>k. k < length xs \<Longrightarrow> k < length es \<Longrightarrow> entry_term (xs ! k) = entry_term (es ! k) \<Longrightarrow>
      xs ! k = es ! k"
  shows "merge_entries xs es = xs \<or> merge_entries xs es = es"
  using assms
proof (induction xs es rule: merge_entries.induct)
  case (3 x xs e es)
  show ?case
  proof (cases "entry_term x = entry_term e")
    case True
    with "3.prems" [of 0] have "x = e" by simp
    moreover have "merge_entries xs es = xs \<or> merge_entries xs es = es"
      using True "3.prems" [of "Suc _"] by (intro "3.IH") auto
    ultimately show ?thesis by auto
  qed simp
qed simp_all

text \<open>A merged log is the old one or a stretch of the sender's ledger.\<close>

lemma merge_traced:
  assumes "traced L es" "traced L (L t)" "segment (L t) req"
    and "areq_prev_log_index req = 0 \<or> unat (areq_prev_log_index req) \<le> length es \<and>
      entry_term (es ! (unat (areq_prev_log_index req) - 1)) = areq_prev_log_term req"
  shows "traced L (take (unat (areq_prev_log_index req)) es @
    merge_entries (drop (unat (areq_prev_log_index req)) es) (areq_entries req))"
proof (cases "areq_entries req = []")
  case False
  let ?p = "unat (areq_prev_log_index req)" and ?n = "length (areq_entries req)"
  have seg: "?p + ?n \<le> length (L t)" "areq_entries req = take ?n (drop ?p (L t))"
    "?p = 0 \<or> areq_prev_log_term req = entry_term (L t ! (?p - 1))"
    using assms(3) False by (auto simp: segment_def Let_def)
  have p: "?p \<le> length es" using assms(4) by auto
  have pre: "take ?p es = take ?p (L t)"
  proof (cases "?p = 0")
    case False
    then have "?p - 1 < length es" "?p - 1 < length (L t)" using p seg(1) by linarith+
    then have "take (Suc (?p - 1)) es = take (Suc (?p - 1)) (L t)"
      using assms(4) seg(3) False
      by (intro traced_agree [OF assms(1,2)]) (auto simp: unat_eq_zero)
    with False show ?thesis by simp
  qed simp
  have same: "drop ?p es ! k = areq_entries req ! k"
    if "k < length (drop ?p es)" "k < ?n" "entry_term (drop ?p es ! k) = entry_term (areq_entries req ! k)"
    for k
  proof -
    have e: "areq_entries req ! k = L t ! (?p + k)" using seg that(2) by (metis nth_drop nth_take le_add1 add_leD1)
    have "take (Suc (?p + k)) es = take (Suc (?p + k)) (L t)"
      using that seg(1) p e by (intro traced_agree [OF assms(1,2)]) auto
    then have "es ! (?p + k) = L t ! (?p + k)" by (metis lessI nth_take)
    then show ?thesis using that(1) p e by simp
  qed
  from merge_same [OF same] show ?thesis
  proof
    assume "merge_entries (drop ?p es) (areq_entries req) = drop ?p es"
    then show ?thesis using assms(1) by simp
  next
    assume eq: "merge_entries (drop ?p es) (areq_entries req) = areq_entries req"
    have "take ?p (L t) @ take ?n (drop ?p (L t)) = take (?p + ?n) (L t)" by (simp add: take_add)
    then have "take ?p es @ areq_entries req = take (?p + ?n) (L t)"
      using pre seg(2) by simp
    then show ?thesis unfolding eq using traced_take [OF assms(2)] by simp
  qed
qed (use assms(1) in simp)

section \<open>Where a node's log and role come from\<close>

lemma follower_step_log:
  assumes "follower_step f c ev = Some (f', c', r)" "plain_event ev"
  shows "core_log c' = core_log c \<or>
    (\<exists>m req. ev = MessageEvent m \<and> msg_payload m = AppendRequest req \<and>
       prev_matches (core_log c) req \<and>
       core_log c' = fold append_entry (areq_entries req) (core_log c))"
proof (cases ev)
  case (MessageEvent m)
  with assms have step: "follower_on_message f c m = Some (f', c', r)"
    and plain: "plain_payload (msg_payload m)"
    by (simp_all add: follower_step_def)
  from step show ?thesis
  proof (cases rule: follower_on_message_cases)
    case (dispatch f1 r1)
    show ?thesis
    proof (cases "msg_payload m")
      case (AppendRequest req)
      with dispatch(2) have
        "follower_handle_append_request f1 (adopt_term c (msg_term m)) (msg_from m) req =
           Some (f', c', r1)"
        by (simp add: follower_dispatch_def)
      then show ?thesis
        by (cases rule: follower_append_request_cases) (auto simp: MessageEvent AppendRequest)
    qed (use dispatch(2) plain in \<open>auto simp: follower_dispatch_def
        follower_handle_vote_request_def follower_handle_read_index_request_def
        Option.bind_eq_Some_conv Let_def dest!: follower_reset_deadline_SomeD split: if_splits\<close>)
  qed simp
qed (use assms in \<open>auto simp: follower_step_def follower_handle_tick_def Let_def\<close>)

lemma role_step_log:
  assumes "role_step n ev = Some (n', r)" "plain_log (core_log (node_core n))" "plain_event ev"
  shows "core_log (node_core n') = core_log (node_core n) \<or>
    (\<exists>m req. ev = MessageEvent m \<and> msg_payload m = AppendRequest req \<and>
       prev_matches (core_log (node_core n)) req \<and> role_is_follower (node_role n) \<and>
       core_log (node_core n') = fold append_entry (areq_entries req) (core_log (node_core n)))"
  using assms(1)
proof (cases rule: role_step_cases)
  case (follower f f')
  then show ?thesis using follower_step_log [OF follower(3) assms(3)] by auto
next
  case (precandidate p p')
  then show ?thesis using precandidate_step_plain by blast
next
  case (candidate s s')
  then show ?thesis using candidate_step_plain by blast
next
  case (leader l l')
  then show ?thesis using leader_step_plain [OF _ assms(2)] by blast
qed

lemma step_event_log:
  assumes "step_event n ev = Some (n', e)" "plain_log (core_log (node_core n))" "plain_event ev"
  shows "core_log (node_core n') = core_log (node_core n) \<or>
    (\<exists>m req. ev = MessageEvent m \<and> msg_payload m = AppendRequest req \<and>
       prev_matches (core_log (node_core n)) req \<and> role_is_follower (node_role n) \<and>
       core_log (node_core n') = fold append_entry (areq_entries req) (core_log (node_core n)))"
  using assms(1)
proof (cases rule: step_event_cases)
  case (stay r)
  then show ?thesis using role_step_log [OF stay(1) assms(2,3)] by simp
next
  case (move n1 r e1)
  have "plain_log (core_log (node_core n1))" using role_step_plain [OF move(1) assms(2,3)] by simp
  then have "core_log (node_core n') = core_log (node_core n1)"
    using apply_transition_plain [OF move(3)] by simp
  then show ?thesis using role_step_log [OF move(1) assms(2,3)] by simp
qed

lemma become_candidate_term:
  assumes "become_candidate c = Some (n, e)"
  shows "core_term (node_core n) = core_term c + 1"
proof -
  from assms obtain s c1 e1 where new: "candidate_new c = Some (s, c1, e1)" and "node_core n = c1"
    by (auto simp: become_candidate_def Option.bind_eq_Some_conv dest: become_leader_role
        split: if_splits)
  then show ?thesis using candidate_new_SomeD(1) [OF new] by simp
qed

lemma become_precandidate_term:
  assumes "become_precandidate c = Some (n, e)"
  shows "role_is_precandidate (node_role n) \<or> core_term (node_core n) = core_term c + 1"
proof -
  from assms obtain s c1 e1 where new: "precandidate_new c = Some (s, c1, e1)"
    and "role_is_precandidate (node_role n) \<or> (\<exists>e2. become_candidate c1 = Some (n, e2))"
    by (auto simp: become_precandidate_def Option.bind_eq_Some_conv split: if_splits)
  then show ?thesis using precandidate_new_SomeD(1) [OF new] become_candidate_term [of c1 n] by auto
qed

text \<open>A node is a candidate or a leader because it was one in this very term, or because its
  term has grown.\<close>

definition role_origin :: "RaftNode \<Rightarrow> RaftNode \<Rightarrow> bool" where
  "role_origin n n' \<longleftrightarrow>
     node_term n < node_term n' \<or>
     (node_term n' = node_term n \<and>
      (role_is_candidate (node_role n') \<longrightarrow> role_is_candidate (node_role n)) \<and>
      (role_is_leader (node_role n') \<longrightarrow>
         role_is_candidate (node_role n) \<or> role_is_leader (node_role n)))"

lemma role_origin_idle:
  "node_term n \<le> node_term n' \<Longrightarrow>
   role_is_follower (node_role n') \<or> role_is_precandidate (node_role n') \<Longrightarrow> role_origin n n'"
  by (cases "node_role n'") (auto simp: role_origin_def)

lemma transition_origin:
  assumes "apply_transition n tr = Some (n', e)" "tr \<noteq> Stay" "tr \<noteq> ToLeader"
    "tr \<in> {ToPreCandidate, ToCandidate} \<Longrightarrow> core_term (node_core n) \<noteq> u64_max"
  shows "role_is_follower (node_role n') \<or> role_is_precandidate (node_role n') \<or>
    node_term n < node_term n'"
proof (cases tr)
  case (ToFollower l)
  with assms(1) show ?thesis
    by (auto simp: apply_transition_def become_follower_def Option.bind_eq_Some_conv)
next
  case (ToFollowerAfterContact l)
  with assms(1) show ?thesis by (auto simp: apply_transition_def Option.bind_eq_Some_conv)
next
  case ToPreCandidate
  with assms become_precandidate_term [of "node_core n" n' e] show ?thesis
    by (auto simp: apply_transition_def node_term_def u64_less_inc)
next
  case ToCandidate
  with assms become_candidate_term [of "node_core n" n' e] show ?thesis
    by (auto simp: apply_transition_def node_term_def u64_less_inc)
qed (use assms in simp_all)

lemma role_step_origin:
  assumes "role_step n ev = Some (n', r)" "plain_log (core_log (node_core n))"
  shows "sr_transition r = Stay \<Longrightarrow> role_origin n n'"
    and "sr_transition r = ToLeader \<Longrightarrow>
      role_is_candidate (node_role n) \<and> node_term n' = node_term n"
proof -
  have "dispatch_role (node_role n) (node_core n) ev = Some (node_role n', node_core n', r)"
    using assms(1) by (simp add: dispatch_role_iff)
  then have le: "node_term n \<le> node_term n'"
    using any_role.contract_stay by (auto simp: core_evolves_def node_term_def)
  show "role_origin n n'" if stay: "sr_transition r = Stay"
    using assms(1)
  proof (cases rule: role_step_cases)
    case (candidate s s')
    then show ?thesis
      using candidate_step_votes [OF candidate(3)] stay by (simp add: role_origin_def node_term_def)
  next
    case (leader l l')
    have "leader_step_ok (node_core n) (node_core n') r"
      using leader(3) by (cases rule: leader_step_cases) (use stay in \<open>auto simp: step_down_def\<close>)
    then show ?thesis
      using leader
      by (simp add: role_origin_def node_term_def leader_step_ok_def leader_evolves_def)
  qed (use le in \<open>simp_all add: role_origin_idle\<close>)
  show "role_is_candidate (node_role n) \<and> node_term n' = node_term n"
    if lead: "sr_transition r = ToLeader"
    using assms(1)
  proof (cases rule: role_step_cases)
    case (follower f f')
    then show ?thesis using follower_never_leads lead by blast
  next
    case (precandidate p p')
    from precandidate(3) show ?thesis
      by (cases rule: precandidate_step_cases) (use lead in auto)
  next
    case (candidate s s')
    then show ?thesis using candidate_step_votes [OF candidate(3)] lead by (simp add: node_term_def)
  next
    case (leader l l')
    then show ?thesis using leader_never_leads assms(2) lead by blast
  qed
qed

lemma step_event_origin:
  assumes "step_event n ev = Some (n', e)" "plain_log (core_log (node_core n))"
    "term_room (node_core n) ev"
  shows "role_origin n n'"
  using assms(1)
proof (cases rule: step_event_cases)
  case (stay r)
  then show ?thesis using role_step_origin(1) [OF stay(1) assms(2)] by simp
next
  case (move n1 r e1)
  have role: "dispatch_role (node_role n) (node_core n) ev = Some (node_role n1, node_core n1, r)"
    using move(1) by (simp add: dispatch_role_iff)
  then have le: "node_term n \<le> node_term n1"
    using any_role.contract_stay by (auto simp: core_evolves_def node_term_def)
  show ?thesis
  proof (cases "sr_transition r = ToLeader")
    case True
    with move(3) have "node_core n' = node_core n1 \<and> role_is_leader (node_role n')"
      by (auto simp: apply_transition_def dest: become_leader_role)
    then show ?thesis
      using role_step_origin(2) [OF move(1) assms(2) True]
      by (cases "node_role n'") (auto simp: role_origin_def node_term_def)
  next
    case False
    have room: "core_term (node_core n1) \<noteq> u64_max"
      if "sr_transition r \<in> {ToPreCandidate, ToCandidate}"
      using any_role.role_campaign_term [OF role that] assms(3) by (auto simp: term_room_def)
    then have "node_term n1 \<le> node_term n'"
      using apply_transition_ok [OF move(3)]
      by (auto simp: transition_ok_def core_evolves_def node_term_def)
    moreover have "role_is_follower (node_role n') \<or> role_is_precandidate (node_role n') \<or>
        node_term n1 < node_term n'"
      using room by (rule transition_origin [OF move(3,2) False])
    ultimately show ?thesis using le role_origin_idle [of n n'] by (auto simp: role_origin_def)
  qed
qed

section \<open>The invariant\<close>

abbreviation node_entries :: "Cluster \<Rightarrow> NodeId \<Rightarrow> Entry list" where
  "node_entries s i \<equiv> entries (core_log (node_core (cl_nodes s i)))"

definition matching_inv :: "Cluster \<Rightarrow> bool" where
  "matching_inv s \<longleftrightarrow>
     (\<forall>i. traced (cl_ledger s) (node_entries s i)) \<and>
     (\<forall>t. traced (cl_ledger s) (cl_ledger s t)) \<and>
     (\<forall>m \<in> cl_network s. \<forall>req. msg_payload m = AppendRequest req \<longrightarrow>
        segment (cl_ledger s (msg_term m)) req) \<and>
     (\<forall>i. node_is_leader (cl_nodes s i) \<longrightarrow>
        cl_ledger s (node_term (cl_nodes s i)) = node_entries s i) \<and>
     (\<forall>t. cl_ledger s t \<noteq> [] \<longrightarrow> (\<exists>i. (t, i) \<in> cl_elected s)) \<and>
     (\<forall>t i. (t, i) \<in> cl_elected s \<longrightarrow>
        t \<le> node_term (cl_nodes s i) \<and>
        (t = node_term (cl_nodes s i) \<longrightarrow> \<not> role_is_candidate (node_role (cl_nodes s i))))"

text \<open>How an operation may change the log: not at all, by an accepted request, or by a
  proposal of the leader.\<close>

definition log_move :: "Cluster \<Rightarrow> NodeId \<Rightarrow> RaftNode \<Rightarrow> bool" where
  "log_move s i n \<longleftrightarrow>
     entries (core_log (node_core n)) = node_entries s i \<or>
     (\<exists>m req. m \<in> cl_network s \<and> msg_payload m = AppendRequest req \<and>
        plain_append req \<and> prev_matches (core_log (node_core (cl_nodes s i))) req \<and>
        \<not> node_is_leader (cl_nodes s i) \<and> \<not> role_is_candidate (node_role (cl_nodes s i)) \<and>
        core_log (node_core n) =
          fold append_entry (areq_entries req) (core_log (node_core (cl_nodes s i)))) \<or>
     (\<exists>x. node_is_leader (cl_nodes s i) \<and> node_is_leader n \<and>
        node_term n = node_term (cl_nodes s i) \<and> entry_term x = node_term n \<and>
        entries (core_log (node_core n)) = node_entries s i @ [x])"

lemma node_move_ids:
  assumes "cluster_inv cfg vs s" "node_move (cl_ballots s) (cl_nodes s i) n e"
  shows "node_id n = i"
proof -
  have "node_inv (cfg i) vs s i" "core_evolves (node_core (cl_nodes s i)) (node_core n)"
    using assms by (simp_all add: cluster_inv_def node_move_def)
  then show ?thesis
    by (simp add: node_inv_def node_id_def core_evolves_def core_id_def Let_def)
qed

lemma ledger_grows:
  assumes inv: "cluster_inv cfg vs s" "matching_inv s"
    and mv: "node_move (cl_ballots s) (cl_nodes s i) n e" "role_origin (cl_nodes s i) n"
      "log_move s i n"
    and uniq: "\<And>t j k. (t, j) \<in> cl_elected (settle i n e s) \<Longrightarrow>
      (t, k) \<in> cl_elected (settle i n e s) \<Longrightarrow> j = k"
  shows "prefix (cl_ledger s t) (cl_ledger (settle i n e s) t)"
proof (cases "node_is_leader n \<and> t = node_term n")
  case False
  then show ?thesis by auto
next
  case True
  have id: "node_id n = i" by (rule node_move_ids [OF inv(1) mv(1)])
  show ?thesis
  proof (cases "node_is_leader (cl_nodes s i) \<and> node_term n = node_term (cl_nodes s i)")
    case lead: True
    then have "cl_ledger s t = node_entries s i"
      using inv(2) True by (simp add: matching_inv_def)
    then show ?thesis using mv(3) True lead by (auto simp: log_move_def)
  next
    case new: False
    have "cl_ledger s t = []"
    proof (rule ccontr)
      assume "cl_ledger s t \<noteq> []"
      then obtain j where j: "(t, j) \<in> cl_elected s" using inv(2) by (auto simp: matching_inv_def)
      moreover have "(t, i) \<in> cl_elected (settle i n e s)" using True id by simp
      ultimately have "(t, i) \<in> cl_elected s" using uniq [of t j i] by auto
      then have "t \<le> node_term (cl_nodes s i)"
        "t = node_term (cl_nodes s i) \<longrightarrow> \<not> role_is_candidate (node_role (cl_nodes s i))"
        using inv(2) by (auto simp: matching_inv_def)
      with mv(2) new True show False by (auto simp: role_origin_def node_is_leader_def)
    qed
    then show ?thesis by simp
  qed
qed

lemma log_move_traced:
  assumes inv: "matching_inv s" "plain_log (core_log (node_core (cl_nodes s i)))"
    and mv: "log_move s i n"
    and grow: "\<And>t. prefix (cl_ledger s t) (cl_ledger (settle i n e s) t)"
  shows "traced (cl_ledger (settle i n e s)) (entries (core_log (node_core n)))"
proof -
  let ?L = "cl_ledger s" and ?es = "node_entries s i"
  have old: "traced ?L ?es" "\<And>t. traced ?L (?L t)"
    using inv(1) by (auto simp: matching_inv_def)
  from mv consider (same) "entries (core_log (node_core n)) = ?es"
    | (append) m req where "m \<in> cl_network s" "msg_payload m = AppendRequest req"
        "plain_append req" "prev_matches (core_log (node_core (cl_nodes s i))) req"
        "core_log (node_core n) =
          fold append_entry (areq_entries req) (core_log (node_core (cl_nodes s i)))"
    | (propose) x where "node_is_leader n" "entry_term x = node_term n"
        "entries (core_log (node_core n)) = ?es @ [x]"
    unfolding log_move_def by blast
  then show ?thesis
  proof cases
    case same
    then show ?thesis using traced_grow [OF old(1) grow] by simp
  next
    case (append m req)
    let ?l = "core_log (node_core (cl_nodes s i))" and ?p = "areq_prev_log_index req"
    have seg: "segment (?L (msg_term m)) req" using inv(1) append by (auto simp: matching_inv_def)
    have "?p = 0 \<or> unat ?p \<le> length ?es \<and>
        entry_term (?es ! (unat ?p - 1)) = areq_prev_log_term req" if "areq_entries req \<noteq> []"
    proof (cases "?p = 0")
      case False
      then have "0 < ?p" by (simp add: word_neq_0_conv)
      moreover have "unat ?p \<le> length ?es"
        using prev_in_log [OF inv(2) append(4,3) that] inv(2)
        by (simp add: plain_log_def unat_last_index word_le_nat_alt)
      ultimately show ?thesis
        using append(4) False term_at_plain [OF inv(2)] by (simp add: prev_matches_def)
    qed simp
    then have "traced ?L (take (unat ?p) ?es @ merge_entries (drop (unat ?p) ?es) (areq_entries req))"
      using merge_traced [OF old(1) old(2) [of "msg_term m"] seg] old(1)
      by (cases "areq_entries req = []") auto
    then have "traced ?L (entries (core_log (node_core n)))"
      unfolding append(5) plain_append_result(1) [OF inv(2) append(4,3)] by simp
    then show ?thesis by (rule traced_grow) (rule grow)
  next
    case (propose x)
    have "traced (cl_ledger (settle i n e s)) ?es" by (rule traced_grow [OF old(1) grow])
    moreover have "cl_ledger (settle i n e s) (entry_term x) = ?es @ [x]" using propose by simp
    ultimately show ?thesis unfolding propose(3) by (rule traced_snoc)
  qed
qed

lemma settle_segment:
  assumes inv: "matching_inv s" and mv: "node_move B (cl_nodes s i) n e"
    and grow: "\<And>t. prefix (cl_ledger s t) (cl_ledger (settle i n e s) t)"
    and m: "m \<in> cl_network (settle i n e s)" "msg_payload m = AppendRequest req"
  shows "segment (cl_ledger (settle i n e s) (msg_term m)) req"
proof (cases "m \<in> cl_network s")
  case True
  then have "segment (cl_ledger s (msg_term m)) req" using inv m(2) by (auto simp: matching_inv_def)
  then show ?thesis by (rule segment_grow) (rule grow)
next
  case False
  with m have new: "m \<in> set (eff_messages e)" by simp
  have "appends_from (node_core n) e" "node_is_leader n" "plain_log (core_log (node_core n))"
    using mv new m(2) by (auto simp: node_move_def node_sends_def no_appends_def node_is_leader_def)
  then show ?thesis
    using new m(2) by (auto simp: appends_from_def node_term_def intro: replicates_segment)
qed

lemma settle_leader_ledger:
  assumes inv: "cluster_inv cfg vs s" "matching_inv s" and id: "node_id n = i"
    and uniq: "\<And>t j k. (t, j) \<in> cl_elected (settle i n e s) \<Longrightarrow>
      (t, k) \<in> cl_elected (settle i n e s) \<Longrightarrow> j = k"
    and leads: "node_is_leader (cl_nodes (settle i n e s) j)"
  shows "cl_ledger (settle i n e s) (node_term (cl_nodes (settle i n e s) j)) = node_entries (settle i n e s) j"
proof (cases "j = i")
  case False
  then have j: "node_is_leader (cl_nodes s j)" using leads by simp
  moreover have "node_inv (cfg j) vs s j" using inv(1) by (simp add: cluster_inv_def)
  ultimately have "(node_term (cl_nodes s j), j) \<in> cl_elected s" by (simp add: node_inv_def Let_def)
  then have "\<not> (node_is_leader n \<and> node_term (cl_nodes s j) = node_term n)"
    using uniq [of "node_term n" j i] id False by auto
  then show ?thesis using inv(2) j False by (auto simp: matching_inv_def)
qed (use leads in simp)

lemma settle_elected_terms:
  assumes inv: "matching_inv s" and id: "node_id n = i" and origin: "role_origin (cl_nodes s i) n"
    and le: "node_term (cl_nodes s i) \<le> node_term n" and elected: "(t, j) \<in> cl_elected (settle i n e s)"
  shows "t \<le> node_term (cl_nodes (settle i n e s) j) \<and> (t = node_term (cl_nodes (settle i n e s) j) \<longrightarrow>
    \<not> role_is_candidate (node_role (cl_nodes (settle i n e s) j)))"
proof (cases "(t, j) \<in> cl_elected s")
  case True
  then have "t \<le> node_term (cl_nodes s j)"
    "t = node_term (cl_nodes s j) \<longrightarrow> \<not> role_is_candidate (node_role (cl_nodes s j))"
    using inv by (auto simp: matching_inv_def)
  then show ?thesis using origin le by (auto simp: role_origin_def)
next
  case False
  with elected have "t = node_term n" "j = i" "node_is_leader n" using id by (auto split: if_splits)
  then show ?thesis by (cases "node_role n") (auto simp: node_is_leader_def)
qed

lemma settle_matching:
  assumes inv: "cluster_inv cfg vs s" "matching_inv s"
    and mv: "node_move (cl_ballots s) (cl_nodes s i) n e" "role_origin (cl_nodes s i) n"
      "log_move s i n"
    and uniq: "\<And>t j k. (t, j) \<in> cl_elected (settle i n e s) \<Longrightarrow>
      (t, k) \<in> cl_elected (settle i n e s) \<Longrightarrow> j = k"
  shows "matching_inv (settle i n e s)"
proof -
  let ?s = "settle i n e s"
  have grow: "prefix (cl_ledger s t) (cl_ledger ?s t)" for t
    using uniq by (rule ledger_grows [OF inv mv])
  have id: "node_id n = i" by (rule node_move_ids [OF inv(1) mv(1)])
  have ni: "node_inv (cfg j) vs s j" for j using inv(1) by (simp add: cluster_inv_def)
  have le: "node_term (cl_nodes s i) \<le> node_term n"
    using mv(1) by (simp add: node_move_def core_evolves_def node_term_def)
  have logs: "traced (cl_ledger ?s) (node_entries ?s j)" for j
  proof (cases "j = i")
    case True
    have "plain_log (core_log (node_core (cl_nodes s i)))"
      using ni [of i] by (simp add: node_inv_def Let_def)
    then show ?thesis using log_move_traced [OF inv(2) _ mv(3) grow] True by simp
  next
    case False
    have "traced (cl_ledger s) (node_entries s j)" using inv(2) by (simp add: matching_inv_def)
    then have "traced (cl_ledger ?s) (node_entries s j)" by (rule traced_grow) (rule grow)
    with False show ?thesis by simp
  qed
  have ledgers: "traced (cl_ledger ?s) (cl_ledger ?s t)" for t
  proof (cases "node_is_leader n \<and> t = node_term n")
    case True
    then show ?thesis using logs [of i] by simp
  next
    case False
    then have "cl_ledger ?s t = cl_ledger s t" by auto
    moreover have "traced (cl_ledger s) (cl_ledger s t)" using inv(2) by (simp add: matching_inv_def)
    then have "traced (cl_ledger ?s) (cl_ledger s t)" by (rule traced_grow) (rule grow)
    ultimately show ?thesis by simp
  qed
  have nonempty: "\<exists>j. (t, j) \<in> cl_elected ?s" if "cl_ledger ?s t \<noteq> []" for t
  proof (cases "node_is_leader n \<and> t = node_term n")
    case False
    then have "cl_ledger ?s t = cl_ledger s t" by auto
    with that inv(2) show ?thesis by (auto simp: matching_inv_def)
  qed auto
  have lead: "cl_ledger ?s (node_term (cl_nodes ?s j)) = node_entries ?s j" if "node_is_leader (cl_nodes ?s j)" for j
    using inv id uniq that by (rule settle_leader_ledger)
  show ?thesis
    unfolding matching_inv_def
    using logs ledgers lead settle_elected_terms [OF inv(2) id mv(2) le] nonempty
      settle_segment [OF inv(2) mv(1) grow] by blast
qed

section \<open>Every step preserves it\<close>

lemma propose_log_move:
  assumes "node_inv cfg vs s i" "node_propose (cl_nodes s i) cmd = Some (n, Inr (x, e))"
    "last_index (core_log (node_core (cl_nodes s i))) \<noteq> u64_max"
  shows "role_origin (cl_nodes s i) n \<and> log_move s i n"
proof -
  have inv: "plain_log (core_log (node_core (cl_nodes s i)))" "role_backed (cl_ballots s) (cl_nodes s i)"
    using assms(1) by (simp_all add: node_inv_def Let_def)
  from assms(2) obtain l where "node_role (cl_nodes s i) = RLeader l"
    by (auto simp: node_propose_def split: RoleState.splits)
  with inv(2) have "core_term (node_core (cl_nodes s i)) \<noteq> 0"
    by (simp add: role_backed_def node_term_def)
  note p = node_propose_plain [OF assms(2) inv(1) assms(3) this]
  have "node_term n = node_term (cl_nodes s i)"
    using p(6) by (simp add: leader_evolves_def node_term_def)
  then show ?thesis
    using p(1-3)
    by (cases "node_role n") (auto simp: role_origin_def log_move_def node_is_leader_def node_term_def)
qed

lemma event_log_move:
  assumes "node_inv cfg vs s i" "step_event (cl_nodes s i) ev = Some (n, e)" "plain_event ev"
    "term_room (node_core (cl_nodes s i)) ev" "\<And>m. ev = MessageEvent m \<Longrightarrow> m \<in> cl_network s"
  shows "role_origin (cl_nodes s i) n \<and> log_move s i n"
proof -
  have plain: "plain_log (core_log (node_core (cl_nodes s i)))"
    using assms(1) by (simp add: node_inv_def Let_def)
  have "\<not> node_is_leader (cl_nodes s i) \<and> \<not> role_is_candidate (node_role (cl_nodes s i))"
    if "role_is_follower (node_role (cl_nodes s i))"
    using that by (cases "node_role (cl_nodes s i)") (auto simp: node_is_leader_def)
  then show ?thesis
    using step_event_log [OF assms(2) plain assms(3)] step_event_origin [OF assms(2) plain assms(4)]
      assms(3,5)
    by (auto simp: log_move_def)
qed

lemma cluster_step_log_move:
  assumes inv: "cluster_inv cfg vs s" and "cluster_step s s'"
  shows "\<exists>i n e. s' = settle i n e s \<and> node_move (cl_ballots s) (cl_nodes s i) n e \<and>
    role_origin (cl_nodes s i) n \<and> log_move s i n"
proof -
  have ni: "node_inv (cfg i) vs s i" for i using inv by (simp add: cluster_inv_def)
  from assms show ?thesis
  proof (cases rule: cluster_step_cases)
    case (event i ev n e)
    then show ?thesis using event_move [OF ni event(2-5)] event_log_move [OF ni event(2,4,3,6)] by blast
  next
    case (propose i cmd n x e)
    then show ?thesis using propose_move [OF ni] propose_log_move [OF ni] by blast
  next
    case (idle i n e)
    then have "role_origin (cl_nodes s i) n \<and> log_move s i n"
      by (auto simp: idle_move_def role_origin_def log_move_def)
    with idle show ?thesis by (auto simp: idle_move_def)
  qed
qed

lemma reachable_matching: "reachable cfg vs s \<Longrightarrow> matching_inv s"
proof (induction rule: reachable.induct)
  case (start cfg vs s)
  then have new: "node_new (cfg i) vs = Some (cl_nodes s i)" "cl_ledger s = (\<lambda>_. [])"
    "cl_network s = {}" "cl_elected s = {}" for i
    by (simp_all add: initial_def)
  have n: "role_is_follower (node_role (cl_nodes s i)) \<and> node_entries s i = []" for i
    using new(1) [of i]
    by (auto simp: node_new_def core_new_def core_log_def persistent_default_def log_default_def
        Option.bind_eq_Some_conv dest!: follower_new_SomeD sym [of _ "cl_nodes s i"])
  then have "\<not> node_is_leader (cl_nodes s i)" for i
    using n [of i] by (cases "node_role (cl_nodes s i)") (auto simp: node_is_leader_def)
  with n new show ?case by (simp add: matching_inv_def)
next
  case (step cfg vs s s')
  note inv = reachable_inv [OF step.hyps(1)]
  from cluster_step_log_move [OF inv step.hyps(2)] obtain i n e where
    s': "s' = settle i n e s" and mv: "node_move (cl_ballots s) (cl_nodes s i) n e"
      "role_origin (cl_nodes s i) n" "log_move s i n"
    by blast
  have "j = k" if "(t, j) \<in> cl_elected (settle i n e s)" "(t, k) \<in> cl_elected (settle i n e s)" for t j k
    using that elected_unique [OF reachable.step [OF step.hyps]] unfolding s' by blast
  then show ?case unfolding s' by (intro settle_matching [OF inv step.IH mv])
qed

lemma ledger_append_only:
  assumes "reachable cfg vs s" "cluster_step s s'"
  shows "prefix (cl_ledger s t) (cl_ledger s' t)"
proof -
  note inv = reachable_inv [OF assms(1)] reachable_matching [OF assms(1)]
  from cluster_step_log_move [OF inv(1) assms(2)] obtain i n e where
    s': "s' = settle i n e s" and mv: "node_move (cl_ballots s) (cl_nodes s i) n e"
      "role_origin (cl_nodes s i) n" "log_move s i n"
    by blast
  have "j = k" if "(t, j) \<in> cl_elected (settle i n e s)" "(t, k) \<in> cl_elected (settle i n e s)" for t j k
    using that elected_unique [OF reachable.step [OF assms]] unfolding s' by blast
  then show ?thesis unfolding s' by (rule ledger_grows [OF inv mv])
qed

lemma leader_ledger:
  "reachable cfg vs s \<Longrightarrow> node_is_leader (cl_nodes s i) \<Longrightarrow>
     cl_ledger s (node_term (cl_nodes s i)) = node_entries s i"
  using reachable_matching [of cfg vs s] by (simp add: matching_inv_def)

text \<open>Stated on the entries that \<open>Log::get\<close> returns.\<close>

lemma logs_match:
  assumes "reachable cfg vs s"
    and "log_get (core_log (node_core (cl_nodes s i))) k = Some x"
    and "log_get (core_log (node_core (cl_nodes s j))) k = Some y"
    and "entry_term x = entry_term y" "k' \<le> k"
  shows "log_get (core_log (node_core (cl_nodes s i))) k' =
    log_get (core_log (node_core (cl_nodes s j))) k'"
proof -
  have plain: "plain_log (core_log (node_core (cl_nodes s i)))" for i
    using reachable_inv [OF assms(1)] by (simp add: cluster_inv_def node_inv_def Let_def)
  have tr: "traced (cl_ledger s) (node_entries s i)" for i
    using reachable_matching [OF assms(1)] by (simp add: matching_inv_def)
  have k: "0 < k" "unat k \<le> length (node_entries s i)" "unat k \<le> length (node_entries s j)"
    "x = node_entries s i ! (unat k - 1)" "y = node_entries s j ! (unat k - 1)"
    using assms(2,3) by (auto simp: log_get_plain [OF plain] split: if_splits)
  then have "0 < unat k" by (simp add: unat_gt_0)
  with k assms(4) have "take (Suc (unat k - 1)) (node_entries s i) =
      take (Suc (unat k - 1)) (node_entries s j)"
    by (intro traced_agree [OF tr tr]) auto
  then have eq: "take (unat k) (node_entries s i) = take (unat k) (node_entries s j)"
    using \<open>0 < unat k\<close> by simp
  have "node_entries s i ! (unat k' - 1) = node_entries s j ! (unat k' - 1)" if "0 < k'"
  proof -
    have "unat k' - 1 < unat k"
      using that assms(5) by (simp add: word_less_nat_alt word_le_nat_alt)
    then show ?thesis using nth_take [of "unat k' - 1" "unat k"] eq by metis
  qed
  then show ?thesis
    using k assms(5) by (auto simp: log_get_plain [OF plain] word_le_nat_alt)
qed

end
