(* ===== verification/Raft_Trace.thy ===== *)
theory Raft_Trace
  imports Raft_Matching "HOL-Library.AList"
begin

text \<open>
  Executable runs of a cluster. A schedule is a list of actions; \<open>run\<close> carries it out and
  yields nothing when an action is not possible. A stage keeps only the nodes that take part,
  as an association list, and the messages sent so far, as a list, so that a schedule names
  the message to deliver by its position. \<open>run_reachable\<close> shows that every run is a path of
  the step relation of \<open>Raft_Cluster\<close>: what a run computes holds in a reachable state.
\<close>

section \<open>Schedules\<close>

datatype Action =
    ATick NodeId
  | ADeliver nat
  | APropose NodeId Command
  | ARestart NodeId

type_synonym Stage = "(NodeId \<times> RaftNode) list \<times> Message list"

definition emit :: "NodeId \<Rightarrow> RaftNode \<Rightarrow> Effects \<Rightarrow> Stage \<Rightarrow> Stage" where
  "emit i n e st = (AList.update i n (fst st), snd st @ eff_messages e)"

fun act :: "Stage \<Rightarrow> Action \<Rightarrow> Stage option" where
  "act (ns, net) (ATick i) = do {
     n \<leftarrow> map_of ns i;
     if node_term n = u64_max then None
     else map_option (\<lambda>(n', e). emit i n' e (ns, net)) (node_tick n)
   }"
| "act (ns, net) (ADeliver k) =
     (if k < length net then
        (let m = net ! k; i = msg_to m in do {
           n \<leftarrow> map_of ns i;
           if node_term n = u64_max \<or> msg_term m = u64_max then None
           else map_option (\<lambda>(n', e). emit i n' e (ns, net)) (node_step n m)
         })
      else None)"
| "act (ns, net) (APropose i cmd) = do {
     n \<leftarrow> map_of ns i;
     if last_index (core_log (node_core n)) = u64_max then None
     else (case node_propose n cmd of
             Some (n', Inr (x, e)) \<Rightarrow> Some (emit i n' e (ns, net))
           | _ \<Rightarrow> None)
   }"
| "act (ns, net) (ARestart i) = do {
     n \<leftarrow> map_of ns i;
     n' \<leftarrow> node_restore (core_config (node_core n)) (node_persistent n);
     Some (emit i n' eff_none (ns, net))
   }"

fun run :: "Stage \<Rightarrow> Action list \<Rightarrow> Stage option" where
  "run st [] = Some st"
| "run st (a # as) = Option.bind (act st a) (\<lambda>st'. run st' as)"

definition stage_boot :: "(NodeId \<Rightarrow> Config) \<Rightarrow> NodeId list \<Rightarrow> Stage" where
  "stage_boot cfg vs = (map (\<lambda>i. (i, the (node_new (cfg i) vs))) vs, [])"

definition boot :: "(NodeId \<Rightarrow> Config) \<Rightarrow> NodeId list \<Rightarrow> Cluster" where
  "boot cfg vs =
     (let nodes = (\<lambda>i. the (node_new (cfg i) vs)) in
      \<lparr>cl_nodes = nodes, cl_disk = (\<lambda>i. node_persistent (nodes i)), cl_network = {},
       cl_ballots = {}, cl_elected = {}, cl_ledger = (\<lambda>_. [])\<rparr>)"

section \<open>Runs are paths of the step relation\<close>

definition shows_stage :: "Cluster \<Rightarrow> Stage \<Rightarrow> bool" where
  "shows_stage s st \<longleftrightarrow>
     (\<forall>i n. map_of (fst st) i = Some n \<longrightarrow> cl_nodes s i = n) \<and> set (snd st) = cl_network s"

lemma shows_emit: "shows_stage s st \<Longrightarrow> shows_stage (settle i n e s) (emit i n e st)"
  by (auto simp: shows_stage_def emit_def settle_def update_conv')

lemma act_emits:
  assumes "act st a = Some st'" "shows_stage s st"
    and disk: "\<And>i. cl_disk s i = node_persistent (cl_nodes s i)"
  shows "\<exists>i n e. emit i n e st = st' \<and> cluster_step s (settle i n e s)"
proof -
  obtain ns net where st: "st = (ns, net)" by (cases st)
  have look: "cl_nodes s i = n" if "map_of ns i = Some n" for i n
    using assms(2) that by (simp add: shows_stage_def st)
  show ?thesis
  proof (cases a)
    case (ATick i)
    with assms(1) obtain n n' e where "map_of ns i = Some n" "node_term n \<noteq> u64_max"
      "node_tick n = Some (n', e)" "emit i n' e st = st'"
      by (auto simp: st bind_eq_Some_conv split: if_splits)
    with look show ?thesis using cluster_step.tick [of s i n' e] by blast
  next
    case (ADeliver k)
    with assms(1) obtain n n' e where n: "map_of ns (msg_to (net ! k)) = Some n" "k < length net"
      "node_term n \<noteq> u64_max" "msg_term (net ! k) \<noteq> u64_max"
      "node_step n (net ! k) = Some (n', e)" "emit (msg_to (net ! k)) n' e st = st'"
      by (auto simp: st bind_eq_Some_conv Let_def split: if_splits)
    then have "net ! k \<in> cl_network s" using assms(2) by (auto simp: shows_stage_def st)
    with n look show ?thesis using cluster_step.deliver [of "net ! k" s _ n' e] by blast
  next
    case (APropose i cmd)
    with assms(1) obtain n n' x e where "map_of ns i = Some n"
      "last_index (core_log (node_core n)) \<noteq> u64_max"
      "node_propose n cmd = Some (n', Inr (x, e))" "emit i n' e st = st'"
      by (auto simp: st bind_eq_Some_conv split: if_splits option.splits prod.splits sum.splits)
    with look show ?thesis using cluster_step.propose [of s i cmd n' x e] by blast
  next
    case (ARestart i)
    with assms(1) obtain n n' where "map_of ns i = Some n"
      "node_restore (core_config (node_core n)) (node_persistent n) = Some n'"
      "emit i n' eff_none st = st'"
      by (auto simp: st bind_eq_Some_conv)
    with look show ?thesis using cluster_step.restart [of s i n'] by (metis disk)
  qed
qed

lemma run_reachable:
  assumes "run st as = Some st'" "shows_stage s st" "reachable cfg vs s"
  shows "\<exists>s'. reachable cfg vs s' \<and> shows_stage s' st'"
  using assms
proof (induction as arbitrary: s st)
  case (Cons a as)
  from Cons.prems(1) obtain st1 where st1: "act st a = Some st1" "run st1 as = Some st'"
    by (auto simp: bind_eq_Some_conv)
  have disk: "cl_disk s i = node_persistent (cl_nodes s i)" for i
    by (rule reachable_disk [OF Cons.prems(3)])
  from act_emits [OF st1(1) Cons.prems(2) disk] obtain i n e where
    "emit i n e st = st1" "cluster_step s (settle i n e s)" by blast
  then show ?case
    using Cons.IH [OF st1(2)] shows_emit [OF Cons.prems(2)] reachable.step [OF Cons.prems(3)] by metis
qed auto

lemma map_of_self: "map_of (map (\<lambda>i. (i, f i)) xs) i = Some n \<Longrightarrow> f i = n"
  by (induction xs) (auto split: if_splits)

lemma boot_run:
  assumes "run (stage_boot cfg vs) as = Some st"
    and "\<And>i. cfg_id (cfg i) = i" "\<And>i. node_new (cfg i) vs \<noteq> None"
  shows "\<exists>s. reachable cfg vs s \<and> shows_stage s st"
proof (rule run_reachable [OF assms(1)])
  show "shows_stage (boot cfg vs) (stage_boot cfg vs)"
    by (auto simp: shows_stage_def stage_boot_def boot_def Let_def dest: map_of_self)
  show "reachable cfg vs (boot cfg vs)"
    using assms(2,3) by (intro reachable.start) (auto simp: initial_def boot_def Let_def)
qed

section \<open>A cluster of three\<close>

text \<open>Short timeouts, no pre-vote and, as in the node's own configuration, no parallel disk
  writes.\<close>

definition cfg3 :: "NodeId \<Rightarrow> Config" where
  "cfg3 i = with_parallel_disk_write
     (with_prevote (with_election_timeout (config_new i) 1 2) False) False"

definition voters3 :: "NodeId list" where
  "voters3 = [NodeId 1, NodeId 2, NodeId 3]"

definition node_in :: "Action list \<Rightarrow> NodeId \<Rightarrow> RaftNode option" where
  "node_in as i = Option.bind (run (stage_boot cfg3 voters3) as) (\<lambda>st. map_of (fst st) i)"

lemma cfg3_new: "node_new (cfg3 i) voters3 \<noteq> None"
  by (simp add: node_new_def follower_new_def core_new_def cfg3_def random_election_timeout_def
      rand_def with_parallel_disk_write_def with_prevote_def with_election_timeout_def config_new_def
      Let_def)

lemma run3:
  assumes "run (stage_boot cfg3 voters3) as = Some st"
  shows "\<exists>s. reachable cfg3 voters3 s \<and> shows_stage s st"
  using assms
proof (rule boot_run)
  show "cfg_id (cfg3 i) = i" for i
    by (simp add: cfg3_def with_parallel_disk_write_def with_prevote_def
        with_election_timeout_def config_new_def)
qed (rule cfg3_new)

lemma observed:
  assumes "node_in as i0 \<noteq> None"
  obtains s where "reachable cfg3 voters3 s" "\<And>i n. node_in as i = Some n \<Longrightarrow> cl_nodes s i = n"
proof -
  from assms obtain st where st: "run (stage_boot cfg3 voters3) as = Some st"
    by (auto simp: node_in_def bind_eq_Some_conv)
  from run3 [OF this] obtain s where s: "reachable cfg3 voters3 s" "shows_stage s st" by blast
  from s(2) have "cl_nodes s i = n" if "node_in as i = Some n" for i n
    using that st by (simp add: node_in_def shows_stage_def)
  with s(1) that show thesis by blast
qed

lemma run_snoc: "run st (as @ [a]) = Option.bind (run st as) (\<lambda>st'. act st' a)"
  by (induction as arbitrary: st) (auto split: bind_splits)

lemma observed_step:
  assumes "node_in (as @ [a]) i0 \<noteq> None"
  obtains s s' where "reachable cfg3 voters3 s" "cluster_step s s'"
    "\<And>i n. node_in as i = Some n \<Longrightarrow> cl_nodes s i = n"
    "\<And>i n. node_in (as @ [a]) i = Some n \<Longrightarrow> cl_nodes s' i = n"
proof -
  from assms obtain st st' where st: "run (stage_boot cfg3 voters3) as = Some st"
    "act st a = Some st'"
    by (auto simp: node_in_def run_snoc bind_eq_Some_conv)
  from run3 [OF st(1)] obtain s where s: "reachable cfg3 voters3 s" "shows_stage s st" by blast
  have "cl_disk s i = node_persistent (cl_nodes s i)" for i by (rule reachable_disk [OF s(1)])
  from act_emits [OF st(2) s(2) this] obtain i n e where
    e: "emit i n e st = st'" "cluster_step s (settle i n e s)" by blast
  with s(2) have s': "shows_stage (settle i n e s) st'" using shows_emit by blast
  show thesis
  proof (rule that [OF s(1) e(2)])
    show "cl_nodes s j = m" if "node_in as j = Some m" for j m
      using that st s(2) by (simp add: node_in_def shows_stage_def)
    show "cl_nodes (settle i n e s) j = m" if "node_in (as @ [a]) j = Some m" for j m
      using that st s' by (simp add: node_in_def run_snoc shows_stage_def)
  qed
qed

text \<open>Node 2 leads term 1 and proposes \<open>[7]\<close>, which reaches nobody. Node 1 wins term 2 with the
  vote of node 3; its heartbeat makes node 2 step down and, delivered once more, is answered
  with the index of the entry of term 1. Node 1 proposes \<open>[9]\<close>. Node 2 wins term 3 with the
  vote of node 3, brings node 3 up to date and proposes \<open>[5]\<close>.\<close>

definition divergence :: "Action list" where
  "divergence =
     [ATick (NodeId 2), ADeliver 1, ADeliver 2, APropose (NodeId 2) (Command [7]),
      ATick (NodeId 1), ATick (NodeId 1), ADeliver 10, ADeliver 11, ADeliver 12, ADeliver 12,
      ADeliver 14, APropose (NodeId 1) (Command [9]),
      ATick (NodeId 2), ADeliver 18, ADeliver 19, ADeliver 21, ADeliver 22, ADeliver 23,
      ADeliver 24, APropose (NodeId 2) (Command [5]), ADeliver 26, ADeliver 27]"

end
