(* ===== verification/Raft_Progress.thy ===== *)
theory Raft_Progress
  imports Raft_Node
begin

text \<open>
  That the automaton always answers: no operation panics or runs forever. A panic or an
  endless loop is the value \<open>None\<close> of the model, so the statements say that \<open>step_event\<close> is
  never \<open>None\<close> on a node with a contiguous log and a proper range of election timeouts.
\<close>

section \<open>Timeouts\<close>

definition timeouts_ok :: "Config \<Rightarrow> bool" where
  "timeouts_ok cfg \<longleftrightarrow> fst (cfg_election_timeout cfg) < snd (cfg_election_timeout cfg)"

definition drawn_timeout :: "Core \<Rightarrow> u64" where
  "drawn_timeout c = (case cfg_election_timeout (core_config c) of (mn, mx) \<Rightarrow>
     mn + xorshift (rng c) mod (mx - mn))"

lemma random_election_timeout_eq:
  "timeouts_ok (core_config c) \<Longrightarrow>
     random_election_timeout c = Some (drawn_timeout c, c\<lparr>rng := xorshift (rng c)\<rparr>)"
  by (auto simp: timeouts_ok_def drawn_timeout_def random_election_timeout_def rand_def Let_def
      split: prod.splits)

lemma follower_new_total:
  "timeouts_ok (core_config c) \<Longrightarrow> follower_new c i \<noteq> None"
  "timeouts_ok (core_config c) \<Longrightarrow> after_leader_contact c i \<noteq> None"
  by (simp_all add: after_leader_contact_def follower_new_def random_election_timeout_eq)

lemma follower_reset_total:
  "timeouts_ok (core_config c) \<Longrightarrow> follower_reset_deadline f c =
     Some (f\<lparr>f_election_deadline := ticks c + drawn_timeout c\<rparr>, c\<lparr>rng := xorshift (rng c)\<rparr>)"
  by (simp add: follower_reset_deadline_def random_election_timeout_eq)

section \<open>Roles other than the leader\<close>

lemma follower_dispatch_total:
  assumes "timeouts_ok (core_config c)"
  shows "follower_dispatch f c m \<noteq> None"
proof (cases "msg_payload m")
  case (VoteRequest r)
  then show ?thesis
    using assms by (auto simp: follower_dispatch_def follower_handle_vote_request_def
        follower_reset_total Let_def)
next
  case (AppendRequest r)
  then show ?thesis
    using assms by (auto simp: follower_dispatch_def follower_handle_append_request_def
        follower_reset_total Let_def split: prod.splits)
next
  case (ReadIndexRequest r)
  then show ?thesis
    using assms by (auto simp: follower_dispatch_def follower_handle_read_index_request_def
        follower_reset_total)
next
  case (InstallSnapshotRequest r)
  then show ?thesis
    using assms by (auto simp: follower_dispatch_def follower_handle_install_snapshot_def
        follower_reset_total Let_def)
qed (auto simp: follower_dispatch_def)

lemma follower_on_message_total:
  assumes "timeouts_ok (core_config c)"
  shows "follower_on_message f c m \<noteq> None"
proof -
  let ?upd = "if msg_term m > core_term c then
      (case maybe_update_term c (msg_term m) of (updated, c) \<Rightarrow> do {
         (f, c) \<leftarrow> follower_reset_deadline f c;
         Some (if is_append_or_read (msg_payload m) then f\<lparr>f_leader := Some (msg_from m)\<rparr> else f,
           c, updated)
       })
    else Some (f, c, False)"
  have "\<exists>f1 c1 b. ?upd = Some (f1, c1, b) \<and> core_config c1 = core_config c"
    using assms by (auto simp: maybe_update_term_def follower_reset_total)
  then obtain f1 c1 b where upd: "?upd = Some (f1, c1, b)" "core_config c1 = core_config c" by blast
  have d: "follower_dispatch f1 c1 m \<noteq> None"
    using follower_dispatch_total [of c1] upd(2) assms by simp
  show ?thesis
    unfolding follower_on_message_def upd(1) using d
    by (cases "msg_payload m") (auto split: prod.splits)
qed

lemma follower_step_total:
  assumes "timeouts_ok (core_config c)"
  shows "follower_step f c ev \<noteq> None"
  using follower_on_message_total [OF assms]
  by (cases ev) (simp_all add: follower_step_def follower_handle_tick_def Let_def)

lemma candidate_step_total:
  assumes "timeouts_ok (core_config c)"
  shows "candidate_step s c ev \<noteq> None"
proof (cases ev)
  case (MessageEvent m)
  have "candidate_dispatch s c m \<noteq> None"
    by (auto simp: candidate_dispatch_def candidate_handle_vote_response_def
        candidate_handle_append_request_def Let_def split: Payload.splits)
  then have "candidate_on_message s c m \<noteq> None"
    by (auto simp: candidate_on_message_def step_down_def split: Payload.splits)
  with MessageEvent show ?thesis by (simp add: candidate_step_def)
qed (use assms in \<open>auto simp: candidate_step_def candidate_handle_tick_def random_election_timeout_eq
  Let_def\<close>)

lemma precandidate_step_total:
  assumes "timeouts_ok (core_config c)"
  shows "precandidate_step s c ev \<noteq> None"
proof (cases ev)
  case (MessageEvent m)
  have "precandidate_on_message s c m \<noteq> None"
    by (auto simp: precandidate_on_message_def step_down_def handle_prevote_response_def
        precandidate_handle_append_request_def Let_def split: Payload.splits)
  with MessageEvent show ?thesis by (simp add: precandidate_step_def)
qed (use assms in \<open>auto simp: precandidate_step_def precandidate_handle_tick_def
  random_election_timeout_eq Let_def\<close>)

section \<open>Replication\<close>

lemma send_append_to_total: "wf_log (core_log c) \<Longrightarrow> send_append_to l c to \<noteq> None"
  by (auto simp: send_append_to_def log_slice_eq Let_def)

lemma broadcast_append_total:
  assumes "wf_log (core_log c)"
  shows "broadcast_append l c \<noteq> None"
proof -
  have "\<exists>t. fold_opt
       (\<lambda>peer s. case s of (l, eff) \<Rightarrow>
          map_option (\<lambda>(l, e). (l, eff_merge eff e)) (send_append_to l c peer))
       (replication_peers (effective_config c) (core_id c)) (l, eff_none) = Some t \<and> True"
    by (rule fold_opt_total) (use send_append_to_total [OF assms] in \<open>auto split: prod.splits\<close>)
  then show ?thesis by (auto simp: broadcast_append_def)
qed

section \<open>The commit loop\<close>

text \<open>Entries that start a further round of the loop once committed.\<close>

definition opens_transition :: "Entry \<Rightarrow> bool" where
  "opens_transition e \<longleftrightarrow> Option.bind (as_config (entry_payload e)) transition_target \<noteq> None"

definition transitions_ahead :: "Core \<Rightarrow> nat" where
  "transitions_ahead c =
     length (filter (\<lambda>e. commit_index c < entry_index e \<and> opens_transition e) (entries (core_log c)))"

text \<open>Room for the entries that the loop may still append.\<close>

definition commit_room :: "Core \<Rightarrow> bool" where
  "commit_room c \<longleftrightarrow> wf_log (core_log c) \<and> commit_index c \<le> last_index (core_log c) \<and>
     unat (last_index (core_log c)) + transitions_ahead c < 18446744073709551615"

definition reopened :: "Core \<Rightarrow> LogIndex \<Rightarrow> Core \<Rightarrow> bool" where
  "reopened c lo c' \<longleftrightarrow> commit_index c' = commit_index c \<and>
     (\<exists>x \<in> set (entries (core_log c)). lo < entry_index x \<and> entry_index x \<le> commit_index c \<and>
        opens_transition x) \<and>
     (\<exists>t. core_log c' = log_append t (core_log c) \<and> \<not> opens_transition t \<and>
        entry_index t = last_index (core_log c) + 1)"

lemma process_config_entries_total:
  assumes "wf_log (core_log c)" "last_index (core_log c) \<noteq> u64_max"
    and "\<forall>i \<in> set idxs. lo < i \<and> i \<le> commit_index c"
  shows "\<exists>l' c' r. process_config_entries l c idxs = Some (l', c', r) \<and>
    (\<forall>e. r = Continue e \<longrightarrow> reopened c lo c')"
  using assms(3)
proof (induction idxs)
  case (Cons i idxs)
  show ?case
  proof (cases "Option.bind (log_get (core_log c) i) (\<lambda>e. as_config (entry_payload e))")
    case None
    with Cons show ?thesis by (auto split: option.splits EntryPayload.splits bind_splits)
  next
    case (Some cfg)
    then obtain x where x: "log_get (core_log c) i = Some x" "entry_payload x = ConfigEntry cfg"
      by (cases "log_get (core_log c) i"; cases "entry_payload (the (log_get (core_log c) i))") auto
    show ?thesis
    proof (cases "is_voter cfg (core_id c) \<and> transition_target cfg \<noteq> None")
      case False
      with x Cons show ?thesis by auto
    next
      case True
      then obtain target where t: "transition_target cfg = Some target" by auto
      let ?t = "\<lparr>entry_term = core_term c, entry_index = last_index (core_log c) + 1,
        entry_payload = ConfigEntry target\<rparr>"
      let ?c = "log_mut (log_append ?t) c"
      have "wf_log (core_log ?c)" using assms(1,2) by (simp add: wf_log_append)
      then obtain l' e where app: "append_transition_target l c target = Some (l', ?c, with_persist e)"
        using broadcast_append_total [of ?c "reinit_progress l ?c"]
        by (auto simp: append_transition_target_def Let_def)
      have "x \<in> set (entries (core_log c))" "entry_index x = i"
        using x(1) log_get_iff_mem [OF assms(1)] by blast+
      moreover have "opens_transition x" by (simp add: opens_transition_def x(2) t)
      moreover have "transition_target target = None" using t by (cases cfg) auto
      then have "\<not> opens_transition ?t" by (simp add: opens_transition_def)
      ultimately have "reopened c lo ?c"
        using Cons.prems by (auto simp: reopened_def)
      with x t True app show ?thesis by auto
    qed
  qed
qed simp

lemma reopened_measure:
  assumes "reopened c1 (commit_index c) c2" "core_log c1 = core_log c"
    and "commit_index c \<le> commit_index c1" "commit_index c1 \<le> last_index (core_log c)" "commit_room c"
  shows "transitions_ahead c2 < transitions_ahead c \<and> commit_room c2"
proof -
  let ?l = "core_log c"
  let ?P = "\<lambda>e. commit_index c1 < entry_index e \<and> opens_transition e"
  let ?Q = "\<lambda>e. commit_index c < entry_index e \<and> opens_transition e"
  from assms(1,2) obtain x t where x: "x \<in> set (entries ?l)" "?Q x" "\<not> ?P x"
    and t: "core_log c2 = log_append t ?l" "\<not> opens_transition t" "entry_index t = last_index ?l + 1"
    and c2: "commit_index c2 = commit_index c1"
    by (auto simp: reopened_def not_less)
  have "transitions_ahead c2 = length (filter ?P (entries ?l))"
    by (simp add: transitions_ahead_def t c2)
  also have "filter ?P (entries ?l) = filter ?P (filter ?Q (entries ?l))"
    using assms(3) by (auto intro!: filter_cong)
  also have "length \<dots> < transitions_ahead c"
    unfolding transitions_ahead_def by (rule length_filter_less [of x]) (use x in auto)
  finally have less: "transitions_ahead c2 < transitions_ahead c" .
  have room: "wf_log ?l" "unat (last_index ?l) + transitions_ahead c < 18446744073709551615"
    using assms(5) by (simp_all add: commit_room_def)
  then have "last_index ?l \<noteq> u64_max" by (auto simp: u64_neq_max_iff)
  then have "wf_log (core_log c2)" "unat (last_index (core_log c2)) = Suc (unat (last_index ?l))"
    using room(1) t by (simp_all add: wf_log_append unat_inc)
  with less room(2) assms(4) c2 show ?thesis
    by (simp add: commit_room_def word_le_nat_alt)
qed

lemma advance_commit_index_moves:
  assumes "commit_index c \<noteq> u64_max" "commit_index (advance_commit_index l c) \<noteq> commit_index c"
  shows "commit_index c < commit_index (advance_commit_index l c) \<and>
    commit_index (advance_commit_index l c) \<le> last_index (core_log c)"
  using assms(1)
proof (cases rule: advance_commit_index_cases [where l = l])
  case none
  with assms(2) show ?thesis by simp
next
  case (some k)
  then show ?thesis by (simp add: committable_def)
qed

lemma maybe_commit_loop_total:
  assumes "commit_room c"
  shows "maybe_commit_loop l c e \<noteq> None"
  using assms
proof (induction "transitions_ahead c" arbitrary: l c e rule: less_induct)
  case less
  let ?c = "advance_commit_index l c"
  have room: "wf_log (core_log c)" "last_index (core_log c) \<noteq> u64_max" "commit_index c \<noteq> u64_max"
    using less.prems by (auto simp: commit_room_def u64_neq_max_iff word_le_nat_alt)
  show ?case
  proof (cases "commit_index ?c = commit_index c")
    case True
    then show ?thesis by (subst maybe_commit_loop.simps) (simp add: Let_def)
  next
    case False
    then have up: "commit_index c < commit_index ?c" "commit_index ?c \<le> last_index (core_log c)"
      using advance_commit_index_moves [OF room(3)] by blast+
    obtain l' c' r where p: "process_committed_configs l ?c (commit_index c) = Some (l', c', r)"
      and cont: "\<And>e. r = Continue e \<Longrightarrow> reopened ?c (commit_index c) c'"
      using process_config_entries_total [of ?c "range_incl (commit_index c + 1) (commit_index ?c)"
          "commit_index c" l] room u64_inc_le_iff [OF room(3)]
      by (auto simp: process_committed_configs_def)
    have "maybe_commit_loop l' c' e' \<noteq> None" if "r = Continue e1" for e1 e'
      using less.hyps reopened_measure [OF cont [OF that]] up less.prems by auto
    with False p show ?thesis
      by (subst maybe_commit_loop.simps) (auto simp: Let_def split: ConfigCommitResult.splits)
  qed
qed

text \<open>What the handlers of the leader need: a contiguous log and a commit loop that ends.\<close>

definition commits :: "Core \<Rightarrow> bool" where
  "commits c \<longleftrightarrow> wf_log (core_log c) \<and> (\<forall>l. maybe_commit l c \<noteq> None)"

lemma commit_room_commits: "commit_room c \<Longrightarrow> commits c"
  using maybe_commit_loop_total [of c] by (simp add: commits_def commit_room_def maybe_commit_def)

lemma after_commit_total: "commits c \<Longrightarrow> after_commit l c \<noteq> None"
  by (simp add: after_commit_def commits_def split: bind_splits prod.splits del: not_None_eq)

section \<open>The leader\<close>

lemma leader_dispatch_total:
  assumes "commits c"
  shows "leader_dispatch l c m \<noteq> None"
proof -
  have wf: "wf_log (core_log c)" using assms by (simp add: commits_def)
  note tot = after_commit_total [OF assms] send_append_to_total [OF wf]
  show ?thesis
  proof (cases "msg_payload m")
    case (AppendResponse r)
    then show ?thesis
      by (simp add: leader_dispatch_def handle_append_response_def Let_def tot split: bind_splits
          prod.splits del: not_None_eq)
  next
    case (InstallSnapshotResponse r)
    then show ?thesis
      using tot by (auto simp: leader_dispatch_def handle_install_snapshot_response_def)
  qed (auto simp: leader_dispatch_def split: prod.splits)
qed

lemma leader_step_total:
  assumes "commits c"
  shows "leader_step l c ev \<noteq> None"
proof (cases ev)
  case Tick
  have "wf_log (core_log (c\<lparr>ticks := ticks c + 1\<rparr>))" using assms by (simp add: commits_def)
  from broadcast_append_total [OF this] show ?thesis
    by (simp add: Tick leader_step_def leader_handle_tick_def Let_def split: bind_splits prod.splits
        del: not_None_eq)
next
  case (MessageEvent m)
  then show ?thesis
    using leader_dispatch_total [OF assms, of l m]
    by (auto simp: leader_step_def leader_on_message_def step_down_def split: Payload.splits)
next
  case (DiskWriteComplete i)
  then show ?thesis
    using after_commit_total [OF assms] by (auto simp: leader_step_def handle_disk_write_complete_def)
qed

section \<open>Transitions\<close>

lemma become_leader_total: "wf_log (core_log c) \<Longrightarrow> become_leader c \<noteq> None"
  by (simp add: become_leader_def leader_new_def Let_def broadcast_append_total
      split: bind_splits prod.splits del: not_None_eq)

lemma become_candidate_total:
  assumes "timeouts_ok (core_config c)" "wf_log (core_log c)"
  shows "become_candidate c \<noteq> None"
proof -
  have "candidate_new c \<noteq> None"
    using assms(1) by (auto simp: candidate_new_def random_election_timeout_eq Let_def)
  then obtain s c1 e where new: "candidate_new c = Some (s, c1, e)" by auto
  have "core_log c1 = core_log c" unfolding candidate_new_SomeD(1) [OF new] by simp
  with become_leader_total [of c1] assms(2) new show ?thesis
    by (auto simp: become_candidate_def)
qed

lemma become_precandidate_total:
  assumes "timeouts_ok (core_config c)" "wf_log (core_log c)"
  shows "become_precandidate c \<noteq> None"
proof -
  have "precandidate_new c \<noteq> None"
    using assms(1) by (auto simp: precandidate_new_def random_election_timeout_eq Let_def)
  then obtain s c1 e where new: "precandidate_new c = Some (s, c1, e)" by auto
  have "core_log c1 = core_log c" "core_config c1 = core_config c"
    unfolding precandidate_new_SomeD(1) [OF new] by simp_all
  with become_candidate_total [of c1] assms new show ?thesis
    by (auto simp: become_precandidate_def)
qed

lemma apply_transition_total:
  assumes "timeouts_ok (core_config (node_core n))"
    and "tr \<in> {ToPreCandidate, ToCandidate, ToLeader} \<Longrightarrow> wf_log (core_log (node_core n))"
  shows "apply_transition n tr \<noteq> None"
  using assms
  by (cases tr) (simp_all add: apply_transition_def become_follower_def follower_new_total
      become_leader_total become_candidate_total become_precandidate_total
      split: bind_splits prod.splits del: not_None_eq)

text \<open>A leader either stays or steps down.\<close>

lemma after_commit_transition:
  "after_commit l c = Some (l', c', r) \<Longrightarrow> sr_transition r \<in> insert Stay (range ToFollower)"
  by (auto simp: after_commit_def bind_eq_Some_conv)

lemma leader_dispatch_transition:
  assumes "leader_dispatch l c m = Some (l', c', r)"
  shows "sr_transition r \<in> insert Stay (range ToFollower)"
  using assms
  by (cases "msg_payload m")
    (auto simp: leader_dispatch_def handle_append_response_def handle_install_snapshot_response_def
      leader_handle_vote_request_def Let_def bind_eq_Some_conv
      dest: after_commit_transition handle_read_index_response_stays split: if_splits prod.splits)

lemma leader_step_transition:
  assumes "leader_step l c ev = Some (l', c', r)"
  shows "sr_transition r \<in> insert Stay (range ToFollower)"
proof (cases ev)
  case (MessageEvent m)
  with assms have "leader_on_message l c m = Some (l', c', r)" by (simp add: leader_step_def)
  then show ?thesis
    by (cases rule: leader_on_message_cases) (auto simp: step_down_def dest: leader_dispatch_transition)
qed (use assms in \<open>auto simp: leader_step_def leader_handle_tick_def handle_disk_write_complete_def
    bind_eq_Some_conv Let_def dest: after_commit_transition split: if_splits\<close>)

text \<open>A campaign leaves the log as it was.\<close>

lemma follower_campaign_log:
  assumes "follower_step f c ev = Some (f', c', r)" "sr_transition r \<noteq> Stay"
  shows "core_log c' = core_log c"
proof (cases ev)
  case (MessageEvent m)
  with assms(1) have "follower_on_message f c m = Some (f', c', r)" by (simp add: follower_step_def)
  then show ?thesis
  proof (cases rule: follower_on_message_cases)
    case (refuse e)
    then show ?thesis by simp
  next
    case (dispatch f1 r1)
    have "c' = adopt_term c (msg_term m)"
      using dispatch(2,3) assms(2)
      by (cases "msg_payload m")
        (auto simp: follower_dispatch_def follower_handle_vote_request_def
          follower_handle_append_request_def follower_handle_read_index_request_def
          follower_handle_install_snapshot_def Let_def bind_eq_Some_conv split: if_splits prod.splits)
    then show ?thesis by simp
  qed
qed (use assms in \<open>auto simp: follower_step_def follower_handle_tick_def Let_def\<close>)

lemma role_campaign_log:
  assumes "role_step n ev = Some (n', r)" "sr_transition r \<in> {ToPreCandidate, ToCandidate, ToLeader}"
  shows "core_log (node_core n') = core_log (node_core n)"
  using assms(1)
proof (cases rule: role_step_cases)
  case (follower f f')
  then show ?thesis using follower_campaign_log assms(2) by fastforce
next
  case (precandidate p p')
  from precandidate(3) show ?thesis
  proof (cases rule: precandidate_step_cases)
    case keep
    then show ?thesis by (simp add: core_log_def)
  qed simp
next
  case (candidate s s')
  then show ?thesis using candidate_step_votes by blast
next
  case (leader l l')
  then show ?thesis using leader_step_transition [OF leader(3)] assms(2) by auto
qed

section \<open>Every event is answered\<close>

definition node_ready :: "RaftNode \<Rightarrow> bool" where
  "node_ready n \<longleftrightarrow> timeouts_ok (core_config (node_core n)) \<and> commits (node_core n)"

lemma role_step_total:
  assumes "node_ready n"
  shows "role_step n ev \<noteq> None"
  using assms follower_step_total candidate_step_total precandidate_step_total leader_step_total
  by (cases "node_role n") (auto simp: node_ready_def role_step_def)

lemma step_event_total:
  assumes "node_ready n"
  shows "step_event n ev \<noteq> None"
proof -
  obtain n1 r where r: "role_step n ev = Some (n1, r)" using role_step_total [OF assms, of ev] by auto
  then have "step_ok (node_core n) (node_core n1) r"
    using any_role.role_step_ok dispatch_role_iff [of n ev "node_role n1" "node_core n1" r] by simp
  then have "core_config (node_core n1) = core_config (node_core n)"
    by (simp add: step_ok_def core_evolves_def)
  moreover have "wf_log (core_log (node_core n1))"
    if "sr_transition r \<in> {ToPreCandidate, ToCandidate, ToLeader}"
    using role_campaign_log [OF r that] assms by (simp add: node_ready_def commits_def)
  ultimately have "apply_transition n1 (sr_transition r) \<noteq> None"
    using assms by (intro apply_transition_total) (simp_all add: node_ready_def)
  with r show ?thesis by (auto simp: step_event_def split: Transition.splits)
qed

section \<open>Properties\<close>

text \<open>The commit loop ends. \<open>maybe_commit\<close> repeats while committed configurations open
  further transitions; it always returns, since each round consumes one such entry, as long as
  the log has room for one new entry per transition ahead.\<close>

theorem commit_loop_terminates:
  assumes "commit_room c"
  shows "\<exists>l' c' e down. maybe_commit l c = Some (l', c', e, down)"
  using maybe_commit_loop_total [OF assms, of l eff_none] by (auto simp: maybe_commit_def)

definition sample_joint_core :: Core where
  "sample_joint_core = log_mut (log_append \<lparr>entry_term = 2, entry_index = 9, entry_payload =
     ConfigEntry (config_joint [NodeId 1, NodeId 2, NodeId 3] [NodeId 1, NodeId 2])\<rparr>) sample_core"

theorem commit_loop_terminates_witness:
  "transitions_ahead sample_joint_core = 1 \<and>
   (\<exists>l' c' e down. maybe_commit (sample_leader\<lparr>match_index := [NodeId 1 \<mapsto> 9, NodeId 2 \<mapsto> 9]\<rparr>)
      sample_joint_core = Some (l', c', e, down))"
proof -
  have "wf_log (core_log sample_joint_core)"
    "commit_index sample_joint_core \<le> last_index (core_log sample_joint_core)"
    "last_index (core_log sample_joint_core) = 9" "transitions_ahead sample_joint_core = 1"
    by code_simp+
  moreover from this have "commit_room sample_joint_core" by (simp add: commit_room_def)
  ultimately show ?thesis using commit_loop_terminates by blast
qed

text \<open>C23: no event is left without an answer. On a node with a contiguous log that covers the
  commit index, room for the pending transitions and a non-empty range of election timeouts,
  every event is processed to the end: no slice is out of range, no remainder is taken by zero
  and no loop runs on.\<close>

theorem every_event_is_answered:
  assumes "timeouts_ok (core_config (node_core n))" "commit_room (node_core n)"
  shows "\<exists>n' e. step_event n ev = Some (n', e)"
  using step_event_total [of n ev] commit_room_commits [OF assms(2)] assms(1)
  by (auto simp: node_ready_def)

theorem every_event_is_answered_witness:
  "\<exists>n' e. step_event \<lparr>node_core = sample_joint_core, node_role = RLeader sample_leader\<rparr>
     (MessageEvent \<lparr>msg_from = NodeId 2, msg_to = NodeId 1, msg_term = 2, msg_payload =
        AppendResponse \<lparr>aresp_success = True, aresp_last_log_index = 9\<rparr>\<rparr>) = Some (n', e)"
proof -
  have "wf_log (core_log sample_joint_core)" "timeouts_ok (core_config sample_joint_core)"
    "commit_index sample_joint_core \<le> last_index (core_log sample_joint_core)"
    "last_index (core_log sample_joint_core) = 9" "transitions_ahead sample_joint_core = 1"
    by code_simp+
  then show ?thesis by (intro every_event_is_answered) (simp_all add: commit_room_def)
qed

section \<open>A retry that repeats itself\<close>

text \<open>The exchange after a rejected \<open>AppendRequest\<close>: the leader reacts to the rejection, which
  carries the follower's last index, and the follower answers the new request. The function
  yields a value only as long as every answer is again a rejection with that index.\<close>

definition rejection :: "Core \<Rightarrow> AppendResponse" where
  "rejection c = \<lparr>aresp_success = False, aresp_last_log_index = last_index (core_log c)\<rparr>"

fun rejected_rounds ::
  "nat \<Rightarrow> Leader \<Rightarrow> Core \<Rightarrow> Follower \<Rightarrow> Core \<Rightarrow> (Leader \<times> Core \<times> Follower \<times> Core) option" where
  "rejected_rounds 0 l lc f fc = Some (l, lc, f, fc)"
| "rejected_rounds (Suc n) l lc f fc =
     (case handle_append_response l lc (core_id fc) (rejection fc) of
        None \<Rightarrow> None
      | Some (l', lc', r) \<Rightarrow>
          (case map msg_payload (eff_messages (sr_effects r)) of
             [AppendRequest req] \<Rightarrow>
               (case follower_handle_append_request f fc (core_id lc) req of
                  None \<Rightarrow> None
                | Some (f', fc', r') \<Rightarrow>
                    if map msg_payload (eff_messages (sr_effects r')) = [AppendResponse (rejection fc)]
                    then rejected_rounds n l' lc' f' fc' else None)
           | _ \<Rightarrow> None))"

text \<open>The follower's last entry conflicts with the leader's log.\<close>

definition last_conflicts :: "Leader \<Rightarrow> Core \<Rightarrow> Core \<Rightarrow> bool" where
  "last_conflicts l lc fc \<longleftrightarrow>
     (let last = last_index (core_log fc) in
      wf_log (core_log lc) \<and> timeouts_ok (core_config fc) \<and>
      is_member (effective_config lc) (core_id fc) \<and> last \<noteq> 0 \<and> last \<noteq> u64_max \<and>
      matched l (core_id fc) \<le> last \<and> snapshot_index (core_log lc) \<le> last \<and>
      term_at (core_log lc) last \<noteq> term_at (core_log fc) last)"

lemma retry_request:
  assumes "last_conflicts l lc fc"
  obtains l' req e where
    "handle_append_response l lc (core_id fc) (rejection fc) = Some (l', lc, stay e)"
    "map msg_payload (eff_messages e) = [AppendRequest req]" "match_index l' = match_index l"
    "areq_prev_log_index req = last_index (core_log fc)"
    "areq_prev_log_term req = term_at (core_log lc) (last_index (core_log fc))"
proof -
  let ?i = "core_id fc" and ?n = "last_index (core_log fc) + 1"
  have h: "wf_log (core_log lc)" "is_member (effective_config lc) ?i" "matched l ?i \<le> last_index (core_log fc)"
    "last_index (core_log fc) \<noteq> u64_max" "snapshot_index (core_log lc) \<le> last_index (core_log fc)"
    using assms by (simp_all add: last_conflicts_def Let_def)
  have "matched l ?i \<noteq> u64_max" 
    using h(3,4) unfolding u64_neq_max_iff word_le_nat_alt by (rule le_less_trans)
  then have "matched l ?i + 1 \<le> ?n" "1 \<le> ?n"
    using h(3) unat_inc [OF h(4)] by (simp_all add: word_le_nat_alt unat_inc)
  then have nxt: "max ?n (matched l ?i + 1) = ?n" "max ?n 1 = ?n" by (simp_all only: max.absorb1)
  let ?l = "l\<lparr>next_index := (next_index l)(?i \<mapsto> ?n)\<rparr>"
  have "snapshot_index (core_log lc) < unwrap_or (next_index ?l ?i) 1"
    using h(5) by (simp add: u64_less_inc_iff [OF h(4)])
  from send_append_to_eq [OF h(1) this] obtain l' req where s:
    "send_append_to ?l lc ?i = Some (l', with_message eff_none (reply lc ?i (AppendRequest req)))"
    "match_index l' = match_index l" "areq_prev_log_index req = last_index (core_log fc)"
    "areq_prev_log_term req = term_at (core_log lc) (last_index (core_log fc))"
    by auto
  have "handle_append_response l lc ?i (rejection fc) =
      Some (l', lc, stay (with_message eff_none (reply lc ?i (AppendRequest req))))"
    using h(2) s(1) by (simp add: handle_append_response_def rejection_def nxt Let_def)
  with s that show thesis by simp
qed

lemma retry_rejected:
  assumes "last_conflicts l lc fc" "areq_prev_log_index req = last_index (core_log fc)"
    "areq_prev_log_term req = term_at (core_log lc) (last_index (core_log fc))"
  obtains f' fc' r where "follower_handle_append_request f fc i req = Some (f', fc', r)"
    "map msg_payload (eff_messages (sr_effects r)) = [AppendResponse (rejection fc)]"
    "core_log fc' = core_log fc" "core_config fc' = core_config fc"
proof -
  have h: "timeouts_ok (core_config fc)" "\<not> prev_matches (core_log fc) req"
    using assms by (auto simp: last_conflicts_def prev_matches_def Let_def)
  have "follower_handle_append_request f fc i req \<noteq> None"
    using h(1) by (auto simp: follower_handle_append_request_def follower_reset_total Let_def
        split: prod.splits)
  then obtain f' fc' r where st: "follower_handle_append_request f fc i req = Some (f', fc', r)" by auto
  from st show thesis
  proof (cases rule: follower_append_request_cases)
    case reject
    with that [OF st] show thesis by (simp add: rejection_def)
  next
    case accept
    with h(2) show thesis by simp
  qed
qed

text \<open>C6: replication can stall. When the last entry of a follower conflicts with the leader's log,
  every rejection makes the leader ask again at the same index, which the follower rejects in
  the same way: however many rounds pass, the log of the follower never changes and the next
  request is again refused.\<close>

theorem rejected_append_repeats:
  assumes "last_conflicts l lc fc"
  shows "\<exists>l' f' fc'. rejected_rounds n l lc f fc = Some (l', lc, f', fc') \<and>
    core_log fc' = core_log fc \<and> last_conflicts l' lc fc'"
  using assms
proof (induction n arbitrary: l f fc)
  case (Suc n)
  from retry_request [OF Suc.prems] obtain l1 req e where req:
    "handle_append_response l lc (core_id fc) (rejection fc) = Some (l1, lc, stay e)"
    "map msg_payload (eff_messages e) = [AppendRequest req]" "match_index l1 = match_index l"
    "areq_prev_log_index req = last_index (core_log fc)"
    "areq_prev_log_term req = term_at (core_log lc) (last_index (core_log fc))" .
  from retry_rejected [OF Suc.prems req(4,5), of f "core_id lc"] obtain f1 fc1 r where rej:
    "follower_handle_append_request f fc (core_id lc) req = Some (f1, fc1, r)"
    "map msg_payload (eff_messages (sr_effects r)) = [AppendResponse (rejection fc)]"
    "core_log fc1 = core_log fc" "core_config fc1 = core_config fc" .
  have "last_conflicts l1 lc fc1"
    using Suc.prems req(3) rej(3,4) by (simp add: last_conflicts_def core_id_def Let_def)
  from Suc.IH [OF this, of f1] rej(3) show ?case by (simp add: req(1,2) rej(1,2))
qed auto

definition sample_stale_core :: Core where
  "sample_stale_core = log_mut (\<lambda>lg. lg\<lparr>entries :=
       [\<lparr>entry_term = 1, entry_index = 1, entry_payload = CommandEntry (Command [7])\<rparr>,
        \<lparr>entry_term = 1, entry_index = 2, entry_payload = CommandEntry (Command [8])\<rparr>]\<rparr>)
     (core_new (config_new (NodeId 2)) [NodeId 1, NodeId 2, NodeId 3])"

definition sample_newer_core :: Core where
  "sample_newer_core = log_mut (\<lambda>lg. lg\<lparr>entries :=
       [\<lparr>entry_term = 2, entry_index = 1, entry_payload = CommandEntry (Command [9])\<rparr>]\<rparr>)
     (core_new (config_new (NodeId 1)) [NodeId 1, NodeId 2, NodeId 3])"

theorem rejected_append_repeats_witness:
  "\<exists>l' f' fc'. rejected_rounds 1000000 (sample_leader\<lparr>match_index := Map.empty\<rparr>) sample_newer_core
      sample_follower sample_stale_core = Some (l', sample_newer_core, f', fc') \<and>
     core_log fc' = core_log sample_stale_core"
proof -
  have "last_conflicts (sample_leader\<lparr>match_index := Map.empty\<rparr>) sample_newer_core sample_stale_core"
    by code_simp
  from rejected_append_repeats [OF this] show ?thesis by blast
qed

end
