(* ===== verification/Exactly_Once.thy ===== *)
theory Exactly_Once
  imports C9_Prelude
begin

text \<open>
  The contract of a service that executes a repeated request only once. Two components give it: the
  sessions of the key-value state machine, \<open>cloud9-node/src/command.rs\<close>, and the session tracker of
  \<open>consensus/cloud9-raft-io/src/session.rs\<close>. That a retry has no effect, however much happens in
  between, is proved here once for both.
\<close>

text \<open>A condition holds before each step of a run.\<close>

fun along :: "('o \<Rightarrow> 's \<Rightarrow> bool) \<Rightarrow> ('o \<Rightarrow> 's \<Rightarrow> 's) \<Rightarrow> 'o list \<Rightarrow> 's \<Rightarrow> bool" where
  "along P step [] s = True"
| "along P step (x # xs) s = (P x s \<and> along P step xs (step x s))"

lemma along_True [simp]: "along (\<lambda>_ _. True) step xs s"
  by (induction xs arbitrary: s) simp_all

text \<open>A request is \<open>seen\<close> with the answer it got. No \<open>harmless\<close> operation makes the service forget
  it, and a request that has been seen is answered as before or as outdated.\<close>

locale exactly_once =
  fixes good :: "'s \<Rightarrow> bool"
    and step :: "'o \<Rightarrow> 's \<Rightarrow> 's"
    and request :: "'q \<Rightarrow> 's \<Rightarrow> 'a \<times> 's"
    and accepted :: "'q \<Rightarrow> 's \<Rightarrow> bool"
    and seen :: "'q \<Rightarrow> 'a \<Rightarrow> 's \<Rightarrow> bool"
    and harmless :: "'q \<Rightarrow> 'o \<Rightarrow> 's \<Rightarrow> bool"
    and outdated :: 'a
  assumes good_step: "good s \<Longrightarrow> good (step x s)"
    and good_request: "good s \<Longrightarrow> good (snd (request q s))"
    and request_seen: "good s \<Longrightarrow> accepted q s \<Longrightarrow> seen q (fst (request q s)) (snd (request q s))"
    and seen_kept: "good s \<Longrightarrow> seen q a s \<Longrightarrow> harmless q x s \<Longrightarrow> seen q a (step x s)"
    and seen_repeats: "good s \<Longrightarrow> seen q a s \<Longrightarrow>
      snd (request q s) = s \<and> fst (request q s) \<in> {a, outdated}"
begin

lemma good_run: "good s \<Longrightarrow> good (fold step xs s)"
  by (induction xs arbitrary: s) (simp_all add: good_step)

lemma seen_run: "good s \<Longrightarrow> seen q a s \<Longrightarrow> along (harmless q) step xs s \<Longrightarrow> seen q a (fold step xs s)"
  by (induction xs arbitrary: s) (simp_all add: good_step seen_kept)

lemma retry_has_no_effect:
  assumes "good s" "accepted q s" "request q s = (a, s1)"
    and "along (harmless q) step xs s1" "s2 = fold step xs s1"
  shows "snd (request q s2) = s2 \<and> fst (request q s2) \<in> {a, outdated}"
proof -
  have "good s1" "seen q a s1"
    using good_request [OF assms(1), of q] request_seen [OF assms(1,2)] assms(3) by simp_all
  then show ?thesis
    using assms(4,5) by (intro seen_repeats) (simp_all add: good_run seen_run)
qed

end

text \<open>A request whose answer is \<open>cached\<close> gets that very answer again. Only a \<open>newer\<close> operation may end
  that.\<close>

locale cached_answers = exactly_once good step request accepted seen harmless outdated
  for good :: "'s \<Rightarrow> bool"
    and step :: "'o \<Rightarrow> 's \<Rightarrow> 's"
    and request :: "'q \<Rightarrow> 's \<Rightarrow> 'a \<times> 's"
    and accepted seen harmless outdated +
  fixes cached :: "'q \<Rightarrow> 'a \<Rightarrow> 's \<Rightarrow> bool"
    and newer :: "'q \<Rightarrow> 'o \<Rightarrow> bool"
  assumes request_cached: "good s \<Longrightarrow> accepted q s \<Longrightarrow> cached q (fst (request q s)) (snd (request q s))"
    and cached_kept: "good s \<Longrightarrow> cached q a s \<Longrightarrow> harmless q x s \<Longrightarrow> \<not> newer q x \<Longrightarrow> cached q a (step x s)"
    and cached_repeats: "good s \<Longrightarrow> cached q a s \<Longrightarrow> fst (request q s) = a"
begin

lemma cached_run:
  assumes "good s" "cached q a s" "along (harmless q) step xs s" "\<forall>x \<in> set xs. \<not> newer q x"
  shows "cached q a (fold step xs s)"
  using assms by (induction xs arbitrary: s) (simp_all add: good_step cached_kept)

lemma retry_answered_alike:
  assumes "good s" "accepted q s" "request q s = (a, s1)"
    and "along (harmless q) step xs s1" "s2 = fold step xs s1"
  shows "snd (request q s2) = s2 \<and> fst (request q s2) \<in> {a, outdated} \<and>
    ((\<exists>x \<in> set xs. newer q x) \<or> fst (request q s2) = a)"
proof -
  have "good s1" "cached q a s1"
    using good_request [OF assms(1), of q] request_cached [OF assms(1,2)] assms(3) by simp_all
  then have "fst (request q s2) = a" if "\<forall>x \<in> set xs. \<not> newer q x"
    using that assms(4,5) by (intro cached_repeats) (simp_all add: good_run cached_run)
  then show ?thesis using retry_has_no_effect [OF assms] by blast
qed

end

end
