(* ===== verification/Client_Session.thy ===== *)
theory Client_Session
  imports Exactly_Once
begin

text \<open>
  \<open>consensus/cloud9-raft-io/src/session.rs\<close>: the \<open>SessionTracker\<close> that an application embeds in
  its replicated state to detect repeated client requests. The identifier counter is the source's
  \<open>u64\<close> with its unchecked increment, so it wraps. The tracker is polymorphic in the response type
  as in the source, and the application behind it is an arbitrary function \<open>exec\<close>.
\<close>

section \<open>The tracker\<close>

datatype ClientId = ClientId (client_raw: u64)

type_synonym SequenceNum = u64

record 'p SessionRequest =
  sr_client_id :: ClientId
  sr_sequence :: SequenceNum
  sr_payload :: 'p

definition session_request_new :: "ClientId \<Rightarrow> SequenceNum \<Rightarrow> 'p \<Rightarrow> 'p SessionRequest" where
  "session_request_new client_id sequence payload =
     \<lparr>sr_client_id = client_id, sr_sequence = sequence, sr_payload = payload\<rparr>"

record 'r ClientSession =
  last_sequence :: SequenceNum
  last_response :: "'r option"

definition client_session_default :: "'r ClientSession" where
  "client_session_default = \<lparr>last_sequence = 0, last_response = None\<rparr>"

datatype 'r DuplicateCheck = New | Duplicate 'r | Stale

record 'r SessionTracker =
  st_sessions :: "ClientId \<rightharpoonup> 'r ClientSession"
  st_next_client_id :: u64

definition tracker_new :: "'r SessionTracker" where
  "tracker_new = \<lparr>st_sessions = Map.empty, st_next_client_id = 1\<rparr>"

definition register_client :: "'r SessionTracker \<Rightarrow> ClientId \<times> 'r SessionTracker" where
  "register_client t =
     (let ident = ClientId (st_next_client_id t) in
      (ident, t\<lparr>st_next_client_id := st_next_client_id t + 1,
              st_sessions := (st_sessions t)(ident \<mapsto> client_session_default)\<rparr>))"

definition check_duplicate ::
    "'r SessionTracker \<Rightarrow> ClientId \<Rightarrow> SequenceNum \<Rightarrow> 'r DuplicateCheck" where
  "check_duplicate t client_id sequence =
     (case st_sessions t client_id of
        None \<Rightarrow> New
      | Some session \<Rightarrow>
          if sequence > last_sequence session then New
          else if sequence = last_sequence session
          then (case last_response session of Some resp \<Rightarrow> Duplicate resp | None \<Rightarrow> New)
          else Stale)"

definition record_completion ::
    "ClientId \<Rightarrow> SequenceNum \<Rightarrow> 'r \<Rightarrow> 'r SessionTracker \<Rightarrow> 'r SessionTracker" where
  "record_completion client_id sequence response t =
     (let session = unwrap_or (st_sessions t client_id) client_session_default;
          session' = (if sequence > last_sequence session
            then session\<lparr>last_sequence := sequence, last_response := Some response\<rparr>
            else session)
      in t\<lparr>st_sessions := (st_sessions t)(client_id \<mapsto> session')\<rparr>)"

definition expire_session :: "ClientId \<Rightarrow> 'r SessionTracker \<Rightarrow> bool \<times> 'r SessionTracker" where
  "expire_session client_id t =
     (st_sessions t client_id \<noteq> None,
      t\<lparr>st_sessions := (st_sessions t)(client_id := None)\<rparr>)"

definition is_registered :: "'r SessionTracker \<Rightarrow> ClientId \<Rightarrow> bool" where
  "is_registered t client_id \<longleftrightarrow> st_sessions t client_id \<noteq> None"

definition session_count :: "'r SessionTracker \<Rightarrow> nat" where
  "session_count t = card (dom (st_sessions t))"

definition tracker_last_sequence :: "'r SessionTracker \<Rightarrow> ClientId \<Rightarrow> SequenceNum option" where
  "tracker_last_sequence t client_id = map_option last_sequence (st_sessions t client_id)"

section \<open>A state machine behind the tracker\<close>

text \<open>
  The lifecycle that the documentation of \<open>SessionTracker\<close> prescribes: a request is executed if
  the check says it is new, and its completion recorded; a duplicate is answered from the cache; a
  stale one is not executed. The application state is of any type.
\<close>

definition session_apply ::
    "('p \<Rightarrow> 'a \<Rightarrow> 'r \<times> 'a) \<Rightarrow> 'p SessionRequest \<Rightarrow> 'r SessionTracker \<times> 'a
      \<Rightarrow> 'r option \<times> ('r SessionTracker \<times> 'a)" where
  "session_apply exec request state =
     (let (t, app) = state in
      case check_duplicate t (sr_client_id request) (sr_sequence request) of
        New \<Rightarrow>
          (let (response, app') = exec (sr_payload request) app in
           (Some response,
            (record_completion (sr_client_id request) (sr_sequence request) response t, app')))
      | Duplicate response \<Rightarrow> (Some response, state)
      | Stale \<Rightarrow> (None, state))"

datatype 'p SessionOp = Register | Request "'p SessionRequest" | Expire ClientId

definition session_op ::
    "('p \<Rightarrow> 'a \<Rightarrow> 'r \<times> 'a) \<Rightarrow> 'p SessionOp \<Rightarrow> 'r SessionTracker \<times> 'a
      \<Rightarrow> 'r SessionTracker \<times> 'a" where
  "session_op exec op state = (case op of
     Register \<Rightarrow> (snd (register_client (fst state)), snd state)
   | Request request \<Rightarrow> snd (session_apply exec request state)
   | Expire client_id \<Rightarrow> (snd (expire_session client_id (fst state)), snd state))"

definition session_run where
  "session_run exec = fold (session_op exec)"

text \<open>A session without a cached response has completed nothing.\<close>

definition tracker_ok :: "'r SessionTracker \<Rightarrow> bool" where
  "tracker_ok t \<longleftrightarrow> (\<forall>c session. st_sessions t c = Some session \<longrightarrow>
     last_response session = None \<longrightarrow> last_sequence session = 0)"

text \<open>The tracker remembers request \<open>n\<close> of client \<open>c\<close>: as the last one, with its response, or as
  an older one.\<close>

definition remembers :: "ClientId \<Rightarrow> SequenceNum \<Rightarrow> 'r option \<Rightarrow> 'r SessionTracker \<Rightarrow> bool" where
  "remembers c n answer t \<longleftrightarrow> (\<exists>session. st_sessions t c = Some session \<and>
     (n < last_sequence session \<or>
      n = last_sequence session \<and> last_response session = answer \<and> answer \<noteq> None))"

lemma tracker_ok_new [simp]: "tracker_ok tracker_new"
  by (simp add: tracker_ok_def tracker_new_def)

lemma tracker_ok_record [simp]:
  "tracker_ok t \<Longrightarrow> tracker_ok (record_completion c n r t)"
  by (cases "st_sessions t c")
    (auto simp: tracker_ok_def record_completion_def client_session_default_def Let_def)

lemma tracker_ok_op:
  assumes "tracker_ok (fst state)"
  shows "tracker_ok (fst (session_op exec op state))"
  using assms
  by (cases op; cases state)
    (auto simp: session_op_def session_apply_def register_client_def expire_session_def Let_def
      split: DuplicateCheck.splits prod.splits,
     auto simp: tracker_ok_def client_session_default_def)

lemma remembers_record:
  "remembers c n answer t \<Longrightarrow> remembers c n answer (record_completion c' n' r t)"
  by (auto simp: remembers_def record_completion_def Let_def)

lemma remembers_op:
  assumes "remembers c n answer (fst state)" "op \<noteq> Expire c"
    and "client_raw c < st_next_client_id (fst state)"
  shows "remembers c n answer (fst (session_op exec op state))"
proof (cases op)
  case Register
  moreover have "ClientId (st_next_client_id (fst state)) \<noteq> c" using assms(3) by auto
  ultimately show ?thesis
    using assms(1) by (auto simp: session_op_def register_client_def remembers_def Let_def)
next
  case (Request request)
  then show ?thesis
    using assms(1)
    by (cases state) (auto simp: session_op_def session_apply_def Let_def remembers_record
        split: DuplicateCheck.splits prod.splits)
next
  case (Expire c')
  then show ?thesis using assms(1,2) by (auto simp: session_op_def expire_session_def remembers_def)
qed

lemma next_id_op:
  assumes "unat (st_next_client_id (fst state)) + 1 < 18446744073709551616"
  shows "st_next_client_id (fst state) \<le> st_next_client_id (fst (session_op exec op state))"
    and "unat (st_next_client_id (fst (session_op exec op state)))
          \<le> unat (st_next_client_id (fst state)) + 1"
proof -
  have "st_next_client_id (fst state) \<noteq> u64_max" using assms by auto
  then have "st_next_client_id (fst (session_op exec op state)) \<in>
      {st_next_client_id (fst state), st_next_client_id (fst state) + 1} \<and>
      unat (st_next_client_id (fst state) + 1) = unat (st_next_client_id (fst state)) + 1"
    by (cases op; cases state)
      (auto simp: session_op_def session_apply_def register_client_def expire_session_def
        record_completion_def Let_def unat_inc split: DuplicateCheck.splits prod.splits)
  then show "st_next_client_id (fst state) \<le> st_next_client_id (fst (session_op exec op state))"
    and "unat (st_next_client_id (fst (session_op exec op state)))
          \<le> unat (st_next_client_id (fst state)) + 1"
    by (auto simp: word_le_nat_alt)
qed

lemma remembered_request:
  assumes "remembers (sr_client_id request) (sr_sequence request) answer (fst state)"
  shows "snd (session_apply exec request state) = state \<and>
    fst (session_apply exec request state) \<in> {answer, None}"
  using assms
  by (cases state)
    (auto simp: remembers_def session_apply_def check_duplicate_def split: option.splits)

lemma applied_is_remembered:
  assumes "tracker_ok (fst state)" "sr_sequence request \<noteq> 0"
    and "session_apply exec request state = (answer, state')"
  shows "remembers (sr_client_id request) (sr_sequence request) answer (fst state')"
proof (cases "st_sessions (fst state) (sr_client_id request)")
  case None
  then show ?thesis
    using assms(2,3)
    by (cases state) (auto simp: session_apply_def check_duplicate_def record_completion_def
        remembers_def client_session_default_def word_gt_0 split: prod.splits)
next
  case (Some session)
  with assms(1,2) have "last_sequence session = sr_sequence request \<Longrightarrow>
      last_response session \<noteq> None"
    unfolding tracker_ok_def by metis
  then show ?thesis
    using Some assms(3)
    by (cases state)
      (auto simp: session_apply_def check_duplicate_def record_completion_def remembers_def Let_def
        split: prod.splits if_splits option.splits, metis)
qed

text \<open>No operation but the end of its own session, or an identifier handed out twice, makes the
  tracker forget a request.\<close>

definition keeps_session :: "'p SessionRequest \<Rightarrow> 'p SessionOp \<Rightarrow> 'r SessionTracker \<times> 'a \<Rightarrow> bool" where
  "keeps_session request op state \<longleftrightarrow> op \<noteq> Expire (sr_client_id request) \<and>
     client_raw (sr_client_id request) < st_next_client_id (fst state)"

text \<open>As long as the client completes no later request, the answer is the first one.\<close>

definition later_request :: "'p SessionRequest \<Rightarrow> 'p SessionOp \<Rightarrow> bool" where
  "later_request request op = (case op of
     Request other \<Rightarrow> sr_client_id other = sr_client_id request \<and> sr_sequence request < sr_sequence other
   | _ \<Rightarrow> False)"

definition recalls :: "'p SessionRequest \<Rightarrow> 'r option \<Rightarrow> 'r SessionTracker \<Rightarrow> bool" where
  "recalls request answer t \<longleftrightarrow> (\<exists>session. st_sessions t (sr_client_id request) = Some session \<and>
     (if answer = None then sr_sequence request < last_sequence session
      else sr_sequence request = last_sequence session \<and> last_response session = answer))"

lemma recalled_answer:
  assumes "recalls request answer (fst state)"
  shows "fst (session_apply exec request state) = answer"
  using assms
  by (cases state)
    (auto simp: recalls_def session_apply_def check_duplicate_def split: option.splits if_splits)

lemma recalls_record:
  assumes "recalls request answer t" "\<not> (c = sr_client_id request \<and> sr_sequence request < n)"
  shows "recalls request answer (record_completion c n r t)"
  using assms
  by (cases "c = sr_client_id request") (auto simp: recalls_def record_completion_def Let_def split: if_splits)

lemma recalls_op:
  assumes "recalls request answer (fst state)" "keeps_session request op state" "\<not> later_request request op"
  shows "recalls request answer (fst (session_op exec op state))"
proof (cases op)
  case Register
  moreover have "ClientId (st_next_client_id (fst state)) \<noteq> sr_client_id request"
    using assms(2) by (cases "sr_client_id request") (auto simp: keeps_session_def)
  ultimately show ?thesis
    using assms(1) by (auto simp: session_op_def register_client_def recalls_def Let_def)
next
  case (Request other)
  then have "\<not> (sr_client_id other = sr_client_id request \<and> sr_sequence request < sr_sequence other)"
    using assms(3) by (simp add: later_request_def)
  then show ?thesis
    using assms(1) Request
    by (cases state) (auto simp: session_op_def session_apply_def Let_def intro: recalls_record
        split: DuplicateCheck.splits prod.splits)
next
  case (Expire c)
  then show ?thesis
    using assms(1,2) by (auto simp: session_op_def expire_session_def recalls_def keeps_session_def)
qed

lemma applied_is_recalled:
  assumes "tracker_ok (fst state)" "sr_sequence request \<noteq> 0"
    and "session_apply exec request state = (answer, state')"
  shows "recalls request answer (fst state')"
proof (cases "st_sessions (fst state) (sr_client_id request)")
  case None
  then show ?thesis
    using assms(2,3)
    by (cases state) (auto simp: session_apply_def check_duplicate_def record_completion_def
        recalls_def client_session_default_def word_gt_0 split: prod.splits)
next
  case (Some session)
  with assms(1,2) have "last_sequence session = sr_sequence request \<Longrightarrow>
      last_response session \<noteq> None"
    unfolding tracker_ok_def by metis
  then show ?thesis
    using Some assms(3)
    by (cases state)
      (auto simp: session_apply_def check_duplicate_def record_completion_def recalls_def Let_def
        split: prod.splits if_splits option.splits)
qed

interpretation tracker: cached_answers "\<lambda>state. tracker_ok (fst state)" "session_op exec" "session_apply exec"
    "\<lambda>request _. sr_sequence request \<noteq> 0"
    "\<lambda>request answer state. remembers (sr_client_id request) (sr_sequence request) answer (fst state)"
    keeps_session None "\<lambda>request answer state. recalls request answer (fst state)" later_request for exec
proof
  show "tracker_ok (fst (snd (session_apply exec request state)))" if "tracker_ok (fst state)" for state request
    using tracker_ok_op [OF that, of exec "Request request"] by (simp add: session_op_def)
  show "snd (session_apply exec request state) = state \<and> fst (session_apply exec request state) \<in> {answer, None}"
    if "remembers (sr_client_id request) (sr_sequence request) answer (fst state)" for state request answer
    using that by (rule remembered_request)
  show "fst (session_apply exec request state) = answer" if "recalls request answer (fst state)"
    for state request answer using that by (rule recalled_answer)
qed (auto simp: keeps_session_def recalls_op
    intro: tracker_ok_op remembers_op applied_is_remembered [OF _ _ prod.collapse [symmetric]]
      applied_is_recalled [OF _ _ prod.collapse [symmetric]])

lemma keeps_session_along:
  assumes "client_raw (sr_client_id request) < st_next_client_id (fst state)"
    and "Expire (sr_client_id request) \<notin> set ops"
    and "unat (st_next_client_id (fst state)) + length ops < 18446744073709551616"
  shows "along (keeps_session request) (session_op exec) ops state"
  using assms
proof (induction ops arbitrary: state)
  case (Cons op ops)
  have "unat (st_next_client_id (fst state)) + 1 < 18446744073709551616"
    using Cons.prems(3) by simp
  from next_id_op [OF this, of exec op] Cons.prems Cons.IH [of "session_op exec op state"] show ?case
    by (auto simp: keeps_session_def)
qed simp

text \<open>
  C38: The session tracker gives exactly-once execution. Whatever the application, after a request
  of a registered client with a positive sequence number has been applied, and any other
  operations of the tracker and requests of any clients in between, applying the same request
  again does not execute it: tracker and application stay as they are, and the answer is the first
  one. Only if the client has sent a later request in between, there may be none. The session must not be
  expired in between, and the client identifiers must not wrap around.
\<close>

theorem tracker_exactly_once:
  assumes "state = session_run exec history (tracker_new, app)"
    and "sr_sequence request \<noteq> 0"
    and "session_apply exec request state = (answer, state1)"
    and "client_raw (sr_client_id request) < st_next_client_id (fst state1)"
    and "Expire (sr_client_id request) \<notin> set ops"
    and "unat (st_next_client_id (fst state1)) + length ops < 18446744073709551616"
    and "state2 = session_run exec ops state1"
  shows "snd (session_apply exec request state2) = state2 \<and>
    fst (session_apply exec request state2) \<in> {answer, None} \<and>
    ((\<exists>op \<in> set ops. later_request request op) \<or> fst (session_apply exec request state2) = answer)"
proof (rule tracker.retry_answered_alike)
  show "tracker_ok (fst state)"
    using assms(1) tracker.good_run [of "(tracker_new, app)"] by (simp add: session_run_def)
  show "along (keeps_session request) (session_op exec) ops state1"
    using assms(4-6) by (rule keeps_session_along)
qed (use assms in \<open>simp_all add: session_run_def\<close>)

text \<open>A counter as the application: a request adds its payload and answers the new total.\<close>

definition add_exec :: "nat \<Rightarrow> nat \<Rightarrow> nat \<times> nat" where
  "add_exec payload app = (app + payload, app + payload)"

definition sample_request :: "SequenceNum \<Rightarrow> nat \<Rightarrow> nat SessionRequest" where
  "sample_request n payload = session_request_new (ClientId 1) n payload"

theorem tracker_exactly_once_witness:
  "\<exists>answer state1.
     session_apply add_exec (sample_request 1 5)
       (session_run add_exec [Register] (tracker_new, 0)) = (answer, state1) \<and> answer = Some 5 \<and>
     snd (session_apply add_exec (sample_request 1 5) (session_run add_exec [Register] state1)) =
       session_run add_exec [Register] state1 \<and>
     fst (session_apply add_exec (sample_request 1 5) (session_run add_exec [Register] state1)) = Some 5"
proof -
  let ?state = "session_run add_exec [Register] (tracker_new, 0)"
  obtain answer state1 where first:
      "session_apply add_exec (sample_request 1 5) ?state = (answer, state1)"
    by (cases "session_apply add_exec (sample_request 1 5) ?state")
  have eval: "fst (session_apply add_exec (sample_request 1 5) ?state) = Some 5"
    "st_next_client_id (fst (snd (session_apply add_exec (sample_request 1 5) ?state))) = 2"
    by code_simp+
  show ?thesis
    using tracker_exactly_once [OF refl _ first _ _ _ refl, of "[Register]"] eval first
    by (simp add: sample_request_def session_request_new_def later_request_def)
qed

text \<open>
  The two ways in which the tracker forgets. An expired session is not remembered as expired: a
  retry of a completed request counts as new. And a completion recorded for an identifier that was
  never handed out creates a session, which the registration that later hands out this identifier
  resets.
\<close>

lemma expired_session_is_new: "check_duplicate (snd (expire_session c t)) c n = New"
  by (simp add: check_duplicate_def expire_session_def)

lemma registration_resets_session:
  assumes "n \<noteq> 0" "c = ClientId (st_next_client_id t)" "t' = record_completion c n response t"
  shows "fst (register_client t') = c \<and> check_duplicate (snd (register_client t')) c n = New"
  using assms
  by (simp add: register_client_def record_completion_def check_duplicate_def Let_def
      client_session_default_def word_gt_0)

end
