(* ===== verification/Read_Coordinator.thy ===== *)
theory Read_Coordinator
  imports Membership
begin

text \<open>
  \<open>consensus/cloud9-raft-io/src/read_index.rs\<close>: the \<open>ReadIndexCoordinator\<close>, which holds back
  linearizable reads until a round of heartbeats has been acknowledged by a quorum. \<open>pending\<close> is a
  \<open>BTreeMap\<close> that is iterated in key order, so it is the list of its pairs in ascending order;
  \<open>completed\<close> is a \<open>VecDeque\<close> and \<open>round_acks\<close> a \<open>Vec\<close>, both lists. Counters are \<open>u64\<close> and wrap.
\<close>

section \<open>The coordinator\<close>

type_synonym ReadId = u64

record PendingRead =
  pr_read_index :: LogIndex
  pr_round :: u64

record ReadIndexResult =
  rr_id :: ReadId
  rr_read_index :: LogIndex

record ReadIndexCoordinator =
  co_voters :: "NodeId list"
  co_me :: NodeId
  co_next_read_id :: ReadId
  co_current_round :: u64
  co_round_acks :: "NodeId list"
  co_pending :: "(ReadId \<times> PendingRead) list"
  co_completed :: "ReadIndexResult list"

definition co_new :: "NodeId \<Rightarrow> NodeId list \<Rightarrow> ReadIndexCoordinator" where
  "co_new me vs =
     \<lparr>co_voters = vs, co_me = me, co_next_read_id = 0, co_current_round = 0,
      co_round_acks = [], co_pending = [], co_completed = []\<rparr>"

definition request_read :: "LogIndex \<Rightarrow> ReadIndexCoordinator \<Rightarrow> ReadId \<times> ReadIndexCoordinator" where
  "request_read read_index rc =
     (let ident = co_next_read_id rc in
      (ident, rc\<lparr>co_next_read_id := ident + 1,
         co_pending := btree_insert ident
           \<lparr>pr_read_index = read_index, pr_round = co_current_round rc\<rparr> (co_pending rc)\<rparr>))"

definition check_quorum :: "ReadIndexCoordinator \<Rightarrow> ReadIndexCoordinator" where
  "check_quorum rc =
     (let quorum = length (co_voters rc) div 2 + 1 in
      if length (co_round_acks rc) \<ge> quorum
      then (let to_complete = map (\<lambda>(ident, p). (ident, pr_read_index p))
                  (filter (\<lambda>(_, p). pr_round p \<le> co_current_round rc) (co_pending rc))
            in fold (\<lambda>(ident, read_index) rc.
                  rc\<lparr>co_pending := filter (\<lambda>(k, _). k \<noteq> ident) (co_pending rc),
                     co_completed := co_completed rc @
                       [\<lparr>rr_id = ident, rr_read_index = read_index\<rparr>]\<rparr>)
                to_complete rc)
      else rc)"

definition begin_heartbeat_round :: "ReadIndexCoordinator \<Rightarrow> ReadIndexCoordinator" where
  "begin_heartbeat_round rc =
     (let round = co_current_round rc + 1 in
      check_quorum (rc\<lparr>co_current_round := round, co_round_acks := [co_me rc],
        co_pending := map (\<lambda>(ident, p). (ident, p\<lparr>pr_round := round\<rparr>)) (co_pending rc)\<rparr>))"

definition record_ack :: "NodeId \<Rightarrow> ReadIndexCoordinator \<Rightarrow> ReadIndexCoordinator" where
  "record_ack from_node rc =
     (if from_node \<notin> set (co_round_acks rc) \<and> from_node \<in> set (co_voters rc)
      then check_quorum (rc\<lparr>co_round_acks := co_round_acks rc @ [from_node]\<rparr>)
      else rc)"

text \<open>One call of the iterator that \<open>poll_completed\<close> returns.\<close>

definition poll_next :: "ReadIndexCoordinator \<Rightarrow> ReadIndexResult option \<times> ReadIndexCoordinator" where
  "poll_next rc = (case co_completed rc of
     [] \<Rightarrow> (None, rc)
   | result # rest \<Rightarrow> (Some result, rc\<lparr>co_completed := rest\<rparr>))"

definition pending_count :: "ReadIndexCoordinator \<Rightarrow> nat" where
  "pending_count rc = length (co_pending rc)"

definition has_pending :: "ReadIndexCoordinator \<Rightarrow> bool" where
  "has_pending rc \<longleftrightarrow> co_pending rc \<noteq> []"

definition co_clear :: "ReadIndexCoordinator \<Rightarrow> nat \<times> ReadIndexCoordinator" where
  "co_clear rc = (length (co_pending rc), rc\<lparr>co_pending := [], co_round_acks := []\<rparr>)"

section \<open>Sequences of calls\<close>

datatype RcOp = RequestRead LogIndex | BeginRound | Ack NodeId | Poll | ClearReads

definition co_step :: "RcOp \<Rightarrow> ReadIndexCoordinator \<Rightarrow> ReadIndexCoordinator" where
  "co_step op rc = (case op of
     RequestRead read_index \<Rightarrow> snd (request_read read_index rc)
   | BeginRound \<Rightarrow> begin_heartbeat_round rc
   | Ack from_node \<Rightarrow> record_ack from_node rc
   | Poll \<Rightarrow> snd (poll_next rc)
   | ClearReads \<Rightarrow> snd (co_clear rc))"

definition co_run :: "RcOp list \<Rightarrow> ReadIndexCoordinator \<Rightarrow> ReadIndexCoordinator" where
  "co_run = fold co_step"

text \<open>The nodes that have acknowledged since the last round was begun, the leader among them.\<close>

definition ack_step :: "NodeId \<Rightarrow> RcOp \<Rightarrow> NodeId set \<Rightarrow> NodeId set" where
  "ack_step me op acks = (case op of
     BeginRound \<Rightarrow> {me} | Ack from_node \<Rightarrow> insert from_node acks | ClearReads \<Rightarrow> {} | _ \<Rightarrow> acks)"

definition round_acks :: "NodeId \<Rightarrow> RcOp list \<Rightarrow> NodeId set" where
  "round_acks me ops = fold (ack_step me) ops {}"

lemma round_acks_snoc: "round_acks me (ops @ [op]) = ack_step me op (round_acks me ops)"
  by (simp add: round_acks_def)

section \<open>Completion\<close>

definition pending_results :: "ReadIndexCoordinator \<Rightarrow> ReadIndexResult list" where
  "pending_results rc =
     map (\<lambda>(ident, p). \<lparr>rr_id = ident, rr_read_index = pr_read_index p\<rparr>) (co_pending rc)"

text \<open>All pending reads wait for the current round, and only voters are counted.\<close>

definition co_inv :: "NodeId \<Rightarrow> NodeId list \<Rightarrow> ReadIndexCoordinator \<Rightarrow> bool" where
  "co_inv me vs rc \<longleftrightarrow> co_me rc = me \<and> co_voters rc = vs \<and> distinct (co_round_acks rc) \<and>
     set (co_round_acks rc) \<subseteq> set vs \<and>
     (\<forall>(ident, p) \<in> set (co_pending rc). pr_round p = co_current_round rc)"

lemma complete_all:
  "fold (\<lambda>(ident, read_index) rc.
       rc\<lparr>co_pending := filter (\<lambda>(k, _). k \<noteq> ident) (co_pending rc),
          co_completed := co_completed rc @ [\<lparr>rr_id = ident, rr_read_index = read_index\<rparr>]\<rparr>) reads rc =
   rc\<lparr>co_pending := filter (\<lambda>(k, _). k \<notin> fst ` set reads) (co_pending rc),
      co_completed := co_completed rc @
        map (\<lambda>(ident, read_index). \<lparr>rr_id = ident, rr_read_index = read_index\<rparr>) reads\<rparr>"
  by (induction reads arbitrary: rc) (simp_all add: case_prod_unfold conj_commute)

lemma check_quorum_eq:
  assumes "co_inv me vs rc"
  shows "check_quorum rc =
    (if length vs div 2 + 1 \<le> length (co_round_acks rc)
     then rc\<lparr>co_pending := [], co_completed := co_completed rc @ pending_results rc\<rparr> else rc)"
proof -
  have all: "filter (\<lambda>(_, p). pr_round p \<le> co_current_round rc) (co_pending rc) = co_pending rc"
    using assms by (auto simp: co_inv_def intro!: filter_True)
  have none: "filter (\<lambda>(k, _). k \<notin> fst ` set (co_pending rc)) (co_pending rc) = []"
    by (auto intro!: filter_False rev_image_eqI)
  show ?thesis
    using assms none
    by (simp add: check_quorum_def complete_all Let_def all pending_results_def co_inv_def
        split_beta image_image comp_def)
qed

definition opened :: "ReadIndexCoordinator \<Rightarrow> ReadIndexCoordinator" where
  "opened rc = rc\<lparr>co_current_round := co_current_round rc + 1, co_round_acks := [co_me rc],
     co_pending := map (\<lambda>(ident, p). (ident, p\<lparr>pr_round := co_current_round rc + 1\<rparr>))
       (co_pending rc)\<rparr>"

lemma begin_eq: "begin_heartbeat_round rc = check_quorum (opened rc)"
  by (simp add: begin_heartbeat_round_def opened_def Let_def)

lemma co_inv_opened: "me \<in> set vs \<Longrightarrow> co_inv me vs rc \<Longrightarrow> co_inv me vs (opened rc)"
  by (auto simp: co_inv_def opened_def)

lemma pending_results_opened [simp]: "pending_results (opened rc) = pending_results rc"
  by (simp add: pending_results_def opened_def split_beta)

lemma co_inv_acked:
  "\<lbrakk>co_inv me vs rc; n \<notin> set (co_round_acks rc); n \<in> set vs\<rbrakk> \<Longrightarrow>
   co_inv me vs (rc\<lparr>co_round_acks := co_round_acks rc @ [n]\<rparr>)"
  by (auto simp: co_inv_def)

lemma co_inv_check_quorum: "co_inv me vs rc \<Longrightarrow> co_inv me vs (check_quorum rc)"
  using check_quorum_eq [of me vs rc] by (simp add: co_inv_def)

lemma co_inv_step:
  assumes "me \<in> set vs" "co_inv me vs rc"
  shows "co_inv me vs (co_step op rc)"
proof (cases op)
  case (RequestRead i)
  then show ?thesis
    using assms(2) set_btree_insert [of "co_next_read_id rc"
        "\<lparr>pr_read_index = i, pr_round = co_current_round rc\<rparr>" "co_pending rc"]
    by (fastforce simp: co_step_def request_read_def Let_def co_inv_def)
next
  case BeginRound
  then show ?thesis
    using assms by (simp add: co_step_def begin_eq co_inv_check_quorum co_inv_opened)
next
  case (Ack n)
  then show ?thesis
    using assms co_inv_check_quorum [OF co_inv_acked [OF assms(2), of n]]
    by (auto simp: co_step_def record_ack_def co_inv_def)
next
  case Poll
  then show ?thesis
    using assms(2) by (simp add: co_step_def poll_next_def co_inv_def split: list.splits)
next
  case ClearReads
  then show ?thesis using assms(2) by (simp add: co_step_def co_clear_def co_inv_def)
qed

lemma round_acks_of_check_quorum [simp]: 
  "co_inv me vs rc \<Longrightarrow> co_round_acks (check_quorum rc) = co_round_acks rc"
  by (simp add: check_quorum_eq)

lemma acks_of_record_ack:
  assumes "co_inv me vs rc"
  shows "co_round_acks (record_ack n rc) =
    (if n \<notin> set (co_round_acks rc) \<and> n \<in> set vs then co_round_acks rc @ [n]
     else co_round_acks rc)"
  using assms round_acks_of_check_quorum [OF co_inv_acked [OF assms, of n]]
  by (auto simp: record_ack_def co_inv_def)

lemma acks_of_begin:
  "\<lbrakk>me \<in> set vs; co_inv me vs rc\<rbrakk> \<Longrightarrow> co_round_acks (begin_heartbeat_round rc) = [me]"
  using round_acks_of_check_quorum [OF co_inv_opened, of me vs rc]
  by (simp add: begin_eq opened_def co_inv_def)

lemma acks_step:
  assumes "me \<in> set vs" "co_inv me vs rc" "set (co_round_acks rc) = acks \<inter> set vs"
  shows "set (co_round_acks (co_step op rc)) = ack_step me op acks \<inter> set vs"
  using assms
  by (cases op)
    (auto simp: co_step_def ack_step_def acks_of_record_ack acks_of_begin request_read_def
      poll_next_def co_clear_def Let_def split: list.splits)

lemma co_run_inv:
  assumes "me \<in> set vs"
  shows "co_inv me vs (co_run ops (co_new me vs)) \<and>
    set (co_round_acks (co_run ops (co_new me vs))) = round_acks me ops \<inter> set vs"
proof (induction ops rule: rev_induct)
  case Nil
  show ?case by (simp add: co_run_def co_new_def co_inv_def round_acks_def)
next
  case (snoc op ops)
  then show ?case
    using co_inv_step [OF assms] acks_step [OF assms] by (simp add: co_run_def round_acks_snoc)
qed

lemma quorum_of_acks:
  assumes "distinct vs" "me \<in> set vs" "co_inv me vs rc"
    and "set (co_round_acks rc) = acks \<inter> set vs"
  shows "length vs div 2 + 1 \<le> length (co_round_acks rc) \<longleftrightarrow>
    has_quorum (config_simple vs) (\<lambda>v. v \<in> acks)"
proof -
  have "length (co_round_acks rc) = card {v \<in> set vs. v \<in> acks}"
    using assms(3,4) by (simp add: co_inv_def Int_def conj_commute flip: distinct_card)
  then show ?thesis
    using assms(1) by (simp add: config_simple_def has_quorum_Simple distinct_card less_eq_Suc_le)
qed

text \<open>
  C39: Reads are released by quorums. For a leader that is one of its distinct voters, after any
  sequence of calls: the next call appends to the released reads either nothing, or all pending
  reads in the order of their identifiers, each at the read index it was requested with. The latter
  happens exactly when the call begins a round or brings an acknowledgment that is counted, and the
  nodes that have acknowledged since the last round was begun are a quorum of the voters in the
  sense of the Raft configuration.
\<close>

theorem reads_released_by_quorum:
  assumes "distinct vs" "me \<in> set vs" and "rc = co_run ops (co_new me vs)" "op \<noteq> Poll"
  shows "co_completed (co_step op rc) = co_completed rc @
    (if (op = BeginRound \<or> (\<exists>v \<in> set vs - round_acks me ops. op = Ack v)) \<and>
        has_quorum (config_simple vs) (\<lambda>v. v \<in> round_acks me (ops @ [op]))
     then pending_results rc else [])"
proof -
  have inv: "co_inv me vs rc" and acks: "set (co_round_acks rc) = round_acks me ops \<inter> set vs"
    using co_run_inv [OF assms(2), of ops] assms(3) by auto
  note inv' = co_inv_step [OF assms(2) inv, of op]
  have quorum: "length vs div 2 + 1 \<le> length (co_round_acks (co_step op rc)) \<longleftrightarrow>
      has_quorum (config_simple vs) (\<lambda>v. v \<in> round_acks me (ops @ [op]))"
    using quorum_of_acks [OF assms(1,2) inv'] acks_step [OF assms(2) inv acks]
    by (simp add: round_acks_snoc)
  show ?thesis
  proof (cases op)
    case BeginRound
    moreover have "co_round_acks (opened rc) = [me]" "co_completed (opened rc) = co_completed rc"
      using inv by (auto simp: opened_def co_inv_def)
    ultimately show ?thesis
      using quorum check_quorum_eq [OF co_inv_opened [OF assms(2) inv]] acks_of_begin [OF assms(2) inv]
      by (simp add: co_step_def begin_eq)
  next
    case (Ack n)
    then show ?thesis
      using quorum check_quorum_eq [OF co_inv_acked [OF inv, of n]] acks acks_of_record_ack [OF inv]
        inv
      by (auto simp: co_step_def record_ack_def pending_results_def co_inv_def)
  qed (use assms(4) in \<open>auto simp: co_step_def request_read_def co_clear_def Let_def\<close>)
qed

definition three :: "NodeId list" where
  "three = [NodeId 0, NodeId 1, NodeId 2]"

theorem reads_released_by_quorum_witness:
  "co_completed (co_step (Ack (NodeId 1))
      (co_run [RequestRead 42, BeginRound] (co_new (NodeId 0) three))) =
     [\<lparr>rr_id = 0, rr_read_index = 42\<rparr>] \<and>
   has_quorum (config_simple three)
     (\<lambda>v. v \<in> round_acks (NodeId 0) [RequestRead 42, BeginRound, Ack (NodeId 1)])"
proof -
  let ?ops = "[RequestRead 42, BeginRound]"
  let ?rc = "co_run ?ops (co_new (NodeId 0) three)"
  have eval: "co_completed ?rc = []" "pending_results ?rc = [\<lparr>rr_id = 0, rr_read_index = 42\<rparr>]"
    "co_completed (co_step (Ack (NodeId 1)) ?rc) = [\<lparr>rr_id = 0, rr_read_index = 42\<rparr>]"
    by code_simp+
  have "distinct three" "NodeId 0 \<in> set three" by code_simp+
  from reads_released_by_quorum [OF this refl, of "Ack (NodeId 1)" ?ops] eval show ?thesis
    by (auto split: if_splits)
qed

text \<open>
  Acknowledgments carry no round, and a read that is requested while a round is under way is put
  into that round. So a read can be released although no heartbeat was sent after it was requested:
  here the acknowledgment of a round that was begun, and had its quorum, before the read; and here
  acknowledgments alone, with no round begun at all.
\<close>

lemma read_released_by_earlier_round:
  "co_completed (co_run [BeginRound, Ack (NodeId 1), RequestRead 42, Ack (NodeId 2)]
     (co_new (NodeId 0) three)) = [\<lparr>rr_id = 0, rr_read_index = 42\<rparr>] \<and>
   co_completed (co_run [RequestRead 42, Ack (NodeId 1), Ack (NodeId 2)]
     (co_new (NodeId 0) three)) = [\<lparr>rr_id = 0, rr_read_index = 42\<rparr>]"
  by code_simp

end
