(* ===== verification/Wal_Format.thy ===== *)
theory Wal_Format
  imports C9_Prelude
begin

text \<open>
  The record format of the write-ahead log: \<open>cloud9-wal/src/record.rs\<close>, \<open>error.rs\<close> and
  \<open>format.rs\<close>. A record is a header of 32 bytes, with two checksums, and its payload. The checksum
  function of the crate \<open>crc32fast\<close> is the parameter \<open>crc\<close> of the definitions; nothing is assumed
  of it. A file is its list of bytes and a reader the bytes that are still to be read: reading is
  modelled without operating system errors, so this theory never raises \<open>WalError::Io\<close>.
\<close>

unbundle bit_operations_syntax

section \<open>Records and errors\<close>

type_synonym bytes = "u8 list"

record Lsn =
  lsn_segment_id :: u64
  lsn_offset :: u64

datatype RecordKind = RecordKind (kind_get: u16)

record WalRecord =
  wr_kind :: RecordKind
  wr_payload :: bytes

record StoredRecord =
  sr_lsn :: Lsn
  sr_record :: WalRecord

datatype Corruption =
    BadMagic u32
  | UnsupportedVersion u16
  | CorruptReservedRecordKind
  | HeaderChecksum
  | PayloadChecksum
  | CorruptRecordTooLarge u64 u64
  | SegmentTooLarge u64 u64
  | IncompleteRecord

datatype WalError =
    Io string
  | ReservedRecordKind
  | SegmentTooSmall u64 nat
  | RecordTooLarge u64 u64
  | WalFull u64 u64
  | PayloadTooLarge nat
  | SegmentIdExhausted
  | CorruptRecord Lsn Corruption
  | BadSegmentName string
  | MissingSegment u64 u64
  | Locked string
  | Poisoned

definition record_kind_new :: "u16 \<Rightarrow> WalError + RecordKind" where
  "record_kind_new v =
     (if v = 0 then Inl ReservedRecordKind else Inr (RecordKind v))"

section \<open>Little-endian integers\<close>

definition u16_to_le :: "u16 \<Rightarrow> bytes" where
  "u16_to_le w = [ucast w, ucast (drop_bit 8 w)]"

definition u32_to_le :: "u32 \<Rightarrow> bytes" where
  "u32_to_le w = [ucast w, ucast (drop_bit 8 w), ucast (drop_bit 16 w), ucast (drop_bit 24 w)]"

definition read_u16 :: "bytes \<Rightarrow> nat \<Rightarrow> u16" where
  "read_u16 bytes start =
     ucast (bytes ! start) OR push_bit 8 (ucast (bytes ! (start + 1)))"

definition read_u32 :: "bytes \<Rightarrow> nat \<Rightarrow> u32" where
  "read_u32 bytes start =
     ucast (bytes ! start) OR push_bit 8 (ucast (bytes ! (start + 1))) OR
     push_bit 16 (ucast (bytes ! (start + 2))) OR push_bit 24 (ucast (bytes ! (start + 3)))"

definition u32_try_from :: "nat \<Rightarrow> u32 option" where
  "u32_try_from n = (if int n < 4294967296 then Some (of_nat n) else None)"

section \<open>Encoding\<close>

definition MAGIC :: u32 where "MAGIC = 0x4339574c"
definition VERSION :: u16 where "VERSION = 1"
definition HEADER_LEN :: nat where "HEADER_LEN = 32"
definition HEADER_LEN_U64 :: u64 where "HEADER_LEN_U64 = 32"
definition HEADER_CRC_END :: nat where "HEADER_CRC_END = 28"

definition encoded_len :: "nat \<Rightarrow> WalError + nat" where
  "encoded_len payload_len =
     res_bind (ok_or (PayloadTooLarge payload_len) (u32_try_from payload_len)) (\<lambda>_.
       if int HEADER_LEN + int payload_len < 2 ^ 64 then Inr (HEADER_LEN + payload_len)
       else Inl (PayloadTooLarge payload_len))"

definition header_fields :: "(bytes \<Rightarrow> u32) \<Rightarrow> RecordKind \<Rightarrow> u32 \<Rightarrow> bytes \<Rightarrow> bytes" where
  "header_fields crc kind payload_len payload =
     u32_to_le MAGIC @ u16_to_le VERSION @ u16_to_le (kind_get kind) @ u32_to_le payload_len @
     u32_to_le (crc payload) @ replicate 12 0"

definition encode_record ::
    "(bytes \<Rightarrow> u32) \<Rightarrow> RecordKind \<Rightarrow> bytes \<Rightarrow> WalError + bytes" where
  "encode_record crc kind payload =
     res_bind (encoded_len (length payload)) (\<lambda>_.
     res_bind (ok_or (PayloadTooLarge (length payload)) (u32_try_from (length payload)))
       (\<lambda>payload_len.
          let fields = header_fields crc kind payload_len payload;
              header_crc = crc (take HEADER_CRC_END fields)
          in Inr (fields @ u32_to_le header_crc @ payload)))"

section \<open>Decoding\<close>

datatype ReadExact = Complete bytes bytes | ReadEof | ReadIncomplete

text \<open>\<open>read_exact_or_tail\<close> fills a buffer of \<open>n\<close> bytes; \<open>Complete\<close> carries the buffer and what
  is left to read.\<close>

definition read_exact_or_tail :: "nat \<Rightarrow> bytes \<Rightarrow> ReadExact" where
  "read_exact_or_tail n reader =
     (if n \<le> length reader then Complete (take n reader) (drop n reader)
      else if reader = [] then ReadEof else ReadIncomplete)"

definition decode_header :: "(bytes \<Rightarrow> u32) \<Rightarrow> bytes \<Rightarrow> Lsn \<Rightarrow> WalError + RecordKind" where
  "decode_header crc header lsn =
     (let magic = read_u32 header 0; version = read_u16 header 4 in
      if magic \<noteq> MAGIC then Inl (CorruptRecord lsn (BadMagic magic))
      else if version \<noteq> VERSION then Inl (CorruptRecord lsn (UnsupportedVersion version))
      else if crc (take HEADER_CRC_END header) \<noteq> read_u32 header 28
      then Inl (CorruptRecord lsn HeaderChecksum)
      else map_err (\<lambda>_. CorruptRecord lsn CorruptReservedRecordKind)
             (record_kind_new (read_u16 header 6)))"

datatype ReadOne =
    RecordRead WalRecord u64 bytes
  | Eof
  | Incomplete

definition read_one ::
    "(bytes \<Rightarrow> u32) \<Rightarrow> bytes \<Rightarrow> Lsn \<Rightarrow> u64 \<Rightarrow> u64 \<Rightarrow> WalError + ReadOne" where
  "read_one crc reader lsn segment_size physical_len =
     (case read_exact_or_tail HEADER_LEN reader of
        ReadEof \<Rightarrow> Inr Eof
      | ReadIncomplete \<Rightarrow> Inr Incomplete
      | Complete header reader1 \<Rightarrow>
          res_bind (decode_header crc header lsn) (\<lambda>kind.
          let payload_len = ucast (read_u32 header 8) in
          res_bind (ok_or (CorruptRecord lsn (CorruptRecordTooLarge u64_max segment_size))
            (checked_add HEADER_LEN_U64 payload_len)) (\<lambda>record_len.
          if record_len > segment_size
          then Inl (CorruptRecord lsn (CorruptRecordTooLarge record_len segment_size))
          else
            res_bind (ok_or (CorruptRecord lsn (SegmentTooLarge u64_max segment_size))
              (checked_add (lsn_offset lsn) record_len)) (\<lambda>next_offset.
            if next_offset > segment_size
            then Inl (CorruptRecord lsn (SegmentTooLarge next_offset segment_size))
            else if next_offset > physical_len then Inr Incomplete
            else (case read_exact_or_tail (unat payload_len) reader1 of
                    ReadEof \<Rightarrow> Inr Incomplete
                  | ReadIncomplete \<Rightarrow> Inr Incomplete
                  | Complete payload reader2 \<Rightarrow>
                      if crc payload \<noteq> read_u32 header 12
                      then Inl (CorruptRecord lsn PayloadChecksum)
                      else Inr (RecordRead \<lparr>wr_kind = kind, wr_payload = payload\<rparr>
                             next_offset reader2))))))"

section \<open>Properties of the format\<close>

lemma length_le [simp]: "length (u16_to_le w) = 2" "length (u32_to_le w') = 4"
  by (simp_all add: u16_to_le_def u32_to_le_def)

lemma length_header_fields [simp]: "length (header_fields crc kind n payload) = 28"
  by (simp add: header_fields_def)

lemma u16_le_roundtrip:
  "ucast (ucast w :: u8) OR push_bit 8 (ucast (ucast (drop_bit 8 w) :: u8)) = (w :: u16)"
  by (rule bit_word_eqI) (auto simp: bit_simps)

lemma u32_le_roundtrip:
  "ucast (ucast w :: u8) OR push_bit 8 (ucast (ucast (drop_bit 8 w) :: u8)) OR
   push_bit 16 (ucast (ucast (drop_bit 16 w) :: u8)) OR
   push_bit 24 (ucast (ucast (drop_bit 24 w) :: u8)) = (w :: u32)"
proof (rule bit_word_eqI)
  fix n assume "n < LENGTH(32)"
  then consider "n < 8" | "8 \<le> n" "n < 16" | "16 \<le> n" "n < 24" | "24 \<le> n" "n < 32"
    by fastforce
  then show "bit (ucast (ucast w :: u8) OR push_bit 8 (ucast (ucast (drop_bit 8 w) :: u8)) OR
      push_bit 16 (ucast (ucast (drop_bit 16 w) :: u8)) OR
      push_bit 24 (ucast (ucast (drop_bit 24 w) :: u8)) :: u32) n \<longleftrightarrow> bit w n"
    by cases (auto simp: bit_simps)
qed

lemma read_u16_to_le: "length xs = i \<Longrightarrow> read_u16 (xs @ u16_to_le w @ ys) i = w"
  by (simp add: read_u16_def u16_to_le_def nth_append u16_le_roundtrip)

lemma read_u32_to_le: "length xs = i \<Longrightarrow> read_u32 (xs @ u32_to_le w @ ys) i = w"
  by (simp add: read_u32_def u32_to_le_def nth_append u32_le_roundtrip)

text \<open>The bytes of a record whose payload length fits the length field.\<close>

definition encoded_header :: "(bytes \<Rightarrow> u32) \<Rightarrow> WalRecord \<Rightarrow> bytes" where
  "encoded_header crc r =
     (let fields = header_fields crc (wr_kind r) (of_nat (length (wr_payload r)))
            (wr_payload r)
      in fields @ u32_to_le (crc fields))"

definition encoded :: "(bytes \<Rightarrow> u32) \<Rightarrow> WalRecord \<Rightarrow> bytes" where
  "encoded crc r = encoded_header crc r @ wr_payload r"

definition wal_record_ok :: "WalRecord \<Rightarrow> bool" where
  "wal_record_ok r \<longleftrightarrow>
     kind_get (wr_kind r) \<noteq> 0 \<and> int (length (wr_payload r)) < 4294967296"

lemma length_encoded_header [simp]: "length (encoded_header crc r) = 32"
  by (simp add: encoded_header_def Let_def)

lemma length_encoded [simp]: "length (encoded crc r) = 32 + length (wr_payload r)"
  by (simp add: encoded_def)

lemma encoded_not_empty [simp]: "encoded crc r \<noteq> []"
  using length_encoded [of crc r] by (cases "encoded crc r") auto

lemma encoded_len_eq:
  "int n < 4294967296 \<Longrightarrow> encoded_len n = Inr (32 + n)"
  "\<not> int n < 4294967296 \<Longrightarrow> encoded_len n = Inl (PayloadTooLarge n)"
  by (simp_all add: encoded_len_def u32_try_from_def HEADER_LEN_def)

lemma encode_record_eq:
  "encode_record crc kind payload =
     (if int (length payload) < 4294967296
      then Inr (encoded crc \<lparr>wr_kind = kind, wr_payload = payload\<rparr>)
      else Inl (PayloadTooLarge (length payload)))"
  by (simp add: encode_record_def encoded_len_eq u32_try_from_def Let_def encoded_def
      encoded_header_def HEADER_CRC_END_def)

lemma header_reads:
  assumes header_def: "header = encoded_header crc r"
  shows "read_u32 header 0 = MAGIC" "read_u16 header 4 = VERSION"
    "read_u16 header 6 = kind_get (wr_kind r)"
    "read_u32 header 8 = of_nat (length (wr_payload r))"
    "read_u32 header 12 = crc (wr_payload r)"
    "read_u32 header 28 = crc (take 28 header)"
proof -
  let ?n = "of_nat (length (wr_payload r)) :: u32"
  let ?p = "wr_payload r"
  let ?kind = "kind_get (wr_kind r)"
  let ?c = "u32_to_le (crc (header_fields crc (wr_kind r) ?n ?p))"
  let ?tail = "replicate 12 0 @ ?c :: bytes"
  have header: "header = u32_to_le MAGIC @ u16_to_le VERSION @ u16_to_le ?kind @ u32_to_le ?n @
      u32_to_le (crc ?p) @ ?tail"
    by (simp add: header_def encoded_header_def Let_def header_fields_def)
  show "read_u32 header 0 = MAGIC"
    unfolding header using read_u32_to_le [of "[]" 0] by simp
  show "read_u16 header 4 = VERSION"
    unfolding header by (rule read_u16_to_le) simp
  show "read_u16 header 6 = ?kind"
    unfolding header using read_u16_to_le [of "u32_to_le MAGIC @ u16_to_le VERSION" 6] by simp
  show "read_u32 header 8 = ?n"
    unfolding header
    using read_u32_to_le [of "u32_to_le MAGIC @ u16_to_le VERSION @ u16_to_le ?kind" 8] by simp
  show "read_u32 header 12 = crc ?p"
    unfolding header
    using read_u32_to_le
      [of "u32_to_le MAGIC @ u16_to_le VERSION @ u16_to_le ?kind @ u32_to_le ?n" 12] by simp
  have "read_u32 header 28 = crc (header_fields crc (wr_kind r) ?n ?p)"
    unfolding header_def encoded_header_def Let_def
    using read_u32_to_le [of "header_fields crc (wr_kind r) ?n ?p" 28 _ "[]"] by simp
  then show "read_u32 header 28 = crc (take 28 header)"
    by (simp add: header_def encoded_header_def Let_def)
qed

lemma decode_encoded_header:
  "kind_get (wr_kind r) \<noteq> 0 \<Longrightarrow>
   decode_header crc (encoded_header crc r) lsn = Inr (wr_kind r)"
  by (simp add: decode_header_def header_reads [OF refl] HEADER_CRC_END_def record_kind_new_def)

lemma unat_payload_len:
  "int n < 4294967296 \<Longrightarrow> unat (ucast (of_nat n :: u32) :: u64) = n"
  by (simp add: unsigned_ucast_eq unsigned_of_nat take_bit_nat_eq_self)

lemma read_exact_append:
  "length xs = n \<Longrightarrow> read_exact_or_tail n (xs @ ys) = Complete xs ys"
  by (simp add: read_exact_or_tail_def)

text \<open>What reading finds at the start of an encoded record, complete or cut short.\<close>

lemma read_one_encoded:
  assumes ok: "wal_record_ok r"
    and size: "unat (lsn_offset lsn) + length (encoded crc r) \<le> unat segment_size"
  shows "read_one crc (encoded_header crc r @ reader) lsn segment_size physical_len =
    (let stop = lsn_offset lsn + of_nat (length (encoded crc r)) in
     if stop > physical_len then Inr Incomplete
     else (case read_exact_or_tail (length (wr_payload r)) reader of
             Complete payload reader2 \<Rightarrow>
               if crc payload \<noteq> crc (wr_payload r)
               then Inl (CorruptRecord lsn PayloadChecksum)
               else Inr (RecordRead \<lparr>wr_kind = wr_kind r, wr_payload = payload\<rparr> stop reader2)
           | _ \<Rightarrow> Inr Incomplete))"
proof -
  let ?n = "length (wr_payload r)"
  let ?len = "ucast (of_nat ?n :: u32) :: u64"
  have n: "unat ?len = ?n" using ok by (simp add: wal_record_ok_def unat_payload_len)
  have room: "unat (lsn_offset lsn) + 32 + ?n \<le> unat segment_size" using size by simp
  have bound: "unat segment_size < 18446744073709551616" by (rule unat_lt_2p64)
  have total: "checked_add HEADER_LEN_U64 ?len = Some (32 + ?len)"
    using n room bound by (simp add: checked_add_alt HEADER_LEN_U64_def)
  have unat_total: "unat (32 + ?len) = 32 + ?n"
    using checked_add_SomeD [OF total] n by (simp add: HEADER_LEN_U64_def)
  have next_: "checked_add (lsn_offset lsn) (32 + ?len) = Some (lsn_offset lsn + (32 + ?len))"
    using unat_total room bound by (simp add: checked_add_alt)
  have unat_next: "unat (lsn_offset lsn + (32 + ?len)) = unat (lsn_offset lsn) + 32 + ?n"
    using checked_add_SomeD [OF next_] unat_total by simp
  have "of_nat (length (encoded crc r)) = (of_nat (unat (32 + ?len)) :: u64)"
    by (simp only: unat_total length_encoded)
  then have "of_nat (length (encoded crc r)) = 32 + ?len" by (simp only: of_nat_unat ucast_id)
  then show ?thesis
    using ok room unat_total unat_next n
    by (simp add: read_one_def HEADER_LEN_def read_exact_append decode_encoded_header
        wal_record_ok_def header_reads [OF refl] total next_ Let_def word_less_nat_alt
        split: ReadExact.splits)
qed

lemma unat_add_of_nat:
  assumes "unat (a :: u64) + n \<le> unat (b :: u64)"
  shows "unat (a + of_nat n) = unat a + n"
proof -
  have "unat a + n < 18446744073709551616" using assms unat_lt_2p64 [of b] by linarith
  then show ?thesis by (simp add: unat_add_u64 unat_of_nat_u64)
qed

lemma read_one_complete:
  assumes ok: "wal_record_ok r"
    and size: "unat (lsn_offset lsn) + length (encoded crc r) \<le> unat segment_size"
    and physical: "unat (lsn_offset lsn) + length (encoded crc r) \<le> unat physical_len"
  shows "read_one crc (encoded crc r @ reader) lsn segment_size physical_len =
    Inr (RecordRead r (lsn_offset lsn + of_nat (length (encoded crc r))) reader)"
  using read_one_encoded [OF ok size, of "wr_payload r @ reader" physical_len] physical
    unat_add_of_nat [OF size]
  by (simp add: encoded_def Let_def word_less_nat_alt read_exact_append)

lemma read_one_torn:
  assumes ok: "wal_record_ok r"
    and size: "unat (lsn_offset lsn) + length (encoded crc r) \<le> unat segment_size"
    and torn: "k < length (encoded crc r)"
  shows "read_one crc (take k (encoded crc r)) lsn segment_size (lsn_offset lsn + of_nat k) =
    Inr (if k = 0 then Eof else Incomplete)"
proof (cases "k < 32")
  case True
  moreover have "encoded crc r \<noteq> []" by simp
  ultimately show ?thesis
    by (auto simp: read_one_def read_exact_or_tail_def HEADER_LEN_def split: ReadExact.splits)
next
  case False
  have "unat (lsn_offset lsn) + k \<le> unat segment_size" using size torn by simp
  then have "unat (lsn_offset lsn + of_nat k) = unat (lsn_offset lsn) + k"
    by (rule unat_add_of_nat)
  then have "lsn_offset lsn + of_nat k < lsn_offset lsn + of_nat (length (encoded crc r))"
    using unat_add_of_nat [OF size] torn by (simp add: word_less_nat_alt)
  moreover have "take k (encoded crc r) =
      encoded_header crc r @ take (k - 32) (wr_payload r)"
    using False by (simp add: encoded_def)
  ultimately show ?thesis
    using read_one_encoded [OF ok size, of "take (k - 32) (wr_payload r)"] False
    by (simp add: Let_def)
qed

lemma read_one_empty [simp]: "read_one crc [] lsn segment_size physical_len = Inr Eof"
  by (simp add: read_one_def read_exact_or_tail_def HEADER_LEN_def)

text \<open>A record that is read back was checked: the bytes are a header of 32 bytes and the payload,
  and both checksums of the header match.\<close>

lemma read_one_checked:
  assumes "read_one crc reader lsn segment_size physical_len = Inr (RecordRead r next rest)"
  shows "\<exists>header. reader = header @ wr_payload r @ rest \<and> length header = 32 \<and>
    read_u32 header 28 = crc (take 28 header) \<and>
    read_u32 header 12 = crc (wr_payload r) \<and> kind_get (wr_kind r) \<noteq> 0"
proof -
  have "32 \<le> length reader"
    using assms by (auto simp: read_one_def read_exact_or_tail_def HEADER_LEN_def split: if_splits)
  then have "read_exact_or_tail 32 reader = Complete (take 32 reader) (drop 32 reader)"
    by (simp add: read_exact_or_tail_def)
  then show ?thesis
    using assms
    by (intro exI [of _ "take 32 reader"])
      (auto simp: read_one_def HEADER_LEN_def HEADER_CRC_END_def Let_def ressimps decode_header_def
        record_kind_new_def read_exact_or_tail_def \<open>32 \<le> length reader\<close> simp del: drop_drop
        split: if_splits ReadExact.splits)
qed

lemma read_one_shorter:
  "read_one crc reader lsn segment_size physical_len = Inr (RecordRead r next rest) \<Longrightarrow>
   length rest < length reader"
  by (drule read_one_checked) auto

text \<open>
  C33: Records survive encoding, and torn ones are recognized. For every checksum function: the
  bytes of an encoded record, followed by anything, are read back as the record, with the offset
  of its end and the rest unread; and when only the first \<open>k\<close> of these bytes reached the file,
  reading answers the end of the file if \<open>k\<close> is zero and an incomplete record otherwise, never an
  error and never a wrong record.
\<close>

theorem record_roundtrip:
  assumes "encode_record crc kind payload = Inr bytes" "kind_get kind \<noteq> 0"
    and "unat (lsn_offset lsn) + length bytes \<le> unat segment_size"
    and "unat (lsn_offset lsn) + length bytes \<le> unat physical_len"
  shows "read_one crc (bytes @ rest) lsn segment_size physical_len =
      Inr (RecordRead \<lparr>wr_kind = kind, wr_payload = payload\<rparr>
        (lsn_offset lsn + of_nat (length bytes)) rest) \<and>
    (\<forall>k < length bytes. read_one crc (take k bytes) lsn segment_size (lsn_offset lsn + of_nat k) =
      Inr (if k = 0 then Eof else Incomplete))"
proof -
  let ?r = "\<lparr>wr_kind = kind, wr_payload = payload\<rparr>"
  have ok: "wal_record_ok ?r" and bytes: "bytes = encoded crc ?r"
    using assms(1,2) by (auto simp: encode_record_eq wal_record_ok_def split: if_splits)
  show ?thesis
    using read_one_complete [OF ok] read_one_torn [OF ok] assms(3,4) unfolding bytes by blast
qed

text \<open>A stand-in for the checksum: the sum of the bytes.\<close>

definition sum_crc :: "bytes \<Rightarrow> u32" where
  "sum_crc bytes = sum_list (map ucast bytes)"

theorem record_roundtrip_witness:
  "\<exists>bytes. encode_record sum_crc (RecordKind 1) [7, 8] = Inr bytes \<and> length bytes = 34 \<and>
     read_one sum_crc (bytes @ [1, 2, 3]) \<lparr>lsn_segment_id = 0, lsn_offset = 64\<rparr> 1024 101 =
       Inr (RecordRead \<lparr>wr_kind = RecordKind 1, wr_payload = [7, 8]\<rparr> 98 [1, 2, 3]) \<and>
     read_one sum_crc (take 33 bytes) \<lparr>lsn_segment_id = 0, lsn_offset = 64\<rparr> 1024 97 =
       Inr Incomplete"
proof -
  let ?lsn = "\<lparr>lsn_segment_id = 0, lsn_offset = 64\<rparr>"
  obtain bytes where bytes: "encode_record sum_crc (RecordKind 1) [7, 8] = Inr bytes"
    and len: "length bytes = 34"
    by (simp add: encode_record_eq)
  from record_roundtrip [OF bytes, of ?lsn 1024 101 "[1, 2, 3]"] len
  have "read_one sum_crc (bytes @ [1, 2, 3]) ?lsn 1024 101 =
        Inr (RecordRead \<lparr>wr_kind = RecordKind 1, wr_payload = [7, 8]\<rparr> 98 [1, 2, 3])"
    and "\<forall>k < 34. read_one sum_crc (take k bytes) ?lsn 1024 (64 + of_nat k) =
      Inr (if k = 0 then Eof else Incomplete)" by simp_all
  then show ?thesis using bytes len by (auto dest: spec [of _ 33])
qed

end
