(* ===== verification/Wal_Log.thy ===== *)
theory Wal_Log
  imports Wal_Format "HOL-Library.AList"
begin

text \<open>
  The segmented write-ahead log, \<open>cloud9-wal/src/segment.rs\<close> and \<open>wal.rs\<close>. The WAL directory is
  the list of its files, names with contents, in the order in which \<open>read_dir\<close> yields them. The
  operations of the operating system that can fail halfway are an argument of the operations: how
  many bytes of a write reach the file when \<open>write_all\<close> fails, and whether an \<open>fsync\<close> fails. Path
  manipulation and the exclusive lock are reduced to their outcome: whether another writer holds
  the lock. \<open>WalError::Io\<close> carries the file name.
\<close>

section \<open>The directory and its segment files\<close>

type_synonym Dir = "(string \<times> bytes) list"

text \<open>\<open>Path::file_stem\<close> and \<open>Path::extension\<close> of a file name.\<close>

definition file_parts :: "string \<Rightarrow> string \<times> string option" where
  "file_parts name =
     (let back = rev name;
          ext = rev (takeWhile (\<lambda>c. c \<noteq> CHR ''.'') back);
          front = rev (tl (dropWhile (\<lambda>c. c \<noteq> CHR ''.'') back))
      in if CHR ''.'' \<notin> set name \<or> front = [] then (name, None) else (front, Some ext))"

definition SEGMENT_SUFFIX :: string where "SEGMENT_SUFFIX = ''wal''"
definition LOCK_FILE :: string where "LOCK_FILE = ''LOCK''"

definition segment_path :: "u64 \<Rightarrow> string" where
  "segment_path segment_id =
     (let digits = decimal (unat segment_id)
      in replicate (20 - length digits) CHR ''0'' @ digits @ ''.'' @ SEGMENT_SUFFIX)"

definition is_digit :: "char \<Rightarrow> bool" where
  "is_digit c \<longleftrightarrow> (48 :: nat) \<le> of_char c \<and> of_char c \<le> (57 :: nat)"

text \<open>\<open>str::parse::<u64>\<close>: an optional plus sign and at least one digit, within range.\<close>

definition parse_u64 :: "string \<Rightarrow> u64 option" where
  "parse_u64 s =
     (let digits = (case s of c # rest \<Rightarrow> if c = CHR ''+'' then rest else s | [] \<Rightarrow> [])
      in if digits \<noteq> [] \<and> list_all is_digit digits then u64_try_from (undecimal digits) else None)"

definition segment_id :: "string \<Rightarrow> WalError + u64" where
  "segment_id name = ok_or (BadSegmentName name) (parse_u64 (fst (file_parts name)))"

fun collect_ids :: "string list \<Rightarrow> WalError + u64 list" where
  "collect_ids [] = Inr []"
| "collect_ids (name # names) =
     (if snd (file_parts name) = Some SEGMENT_SUFFIX
      then res_bind (segment_id name) (\<lambda>i. res_bind (collect_ids names) (\<lambda>ids. Inr (i # ids)))
      else collect_ids names)"

fun check_ids :: "nat \<Rightarrow> u64 list \<Rightarrow> WalError + unit" where
  "check_ids expected [] = Inr ()"
| "check_ids expected (found # ids) =
     res_bind (ok_or SegmentIdExhausted (u64_try_from expected)) (\<lambda>e.
       if found \<noteq> e then Inl (MissingSegment e found) else check_ids (Suc expected) ids)"

definition segment_ids :: "Dir \<Rightarrow> WalError + u64 list" where
  "segment_ids dir =
     res_bind (collect_ids (map fst dir)) (\<lambda>ids.
     let ids = sort ids in res_bind (check_ids 0 ids) (\<lambda>_. Inr ids))"

definition open_file :: "Dir \<Rightarrow> string \<Rightarrow> WalError + bytes" where
  "open_file dir name = ok_or (Io name) (map_of dir name)"

definition segment_len :: "Dir \<Rightarrow> u64 \<Rightarrow> WalError + u64" where
  "segment_len dir i =
     res_bind (open_file dir (segment_path i)) (\<lambda>content. Inr (of_nat (length content)))"

definition total_len :: "Dir \<Rightarrow> WalError + u64" where
  "total_len dir =
     res_bind (segment_ids dir) (\<lambda>ids.
     fold (\<lambda>i total. res_bind total (\<lambda>total.
             res_bind (segment_len dir i) (\<lambda>len.
               ok_or (WalFull u64_max u64_max) (checked_add total len))))
       ids (Inr 0))"

definition truncate_segment :: "Dir \<Rightarrow> u64 \<Rightarrow> u64 \<Rightarrow> WalError + Dir" where
  "truncate_segment dir i len =
     res_bind (open_file dir (segment_path i)) (\<lambda>content.
       Inr (AList.update (segment_path i)
         (take (unat len) content @ replicate (unat len - length content) 0) dir))"

definition open_segment :: "Dir \<Rightarrow> u64 \<Rightarrow> Dir" where
  "open_segment dir i =
     (if map_of dir (segment_path i) = None then AList.update (segment_path i) [] dir else dir)"

section \<open>Scanning\<close>

datatype SegmentScan = Clean u64 | IncompleteTail u64

function (sequential) valid_len_loop ::
    "(bytes \<Rightarrow> u32) \<Rightarrow> u64 \<Rightarrow> u64 \<Rightarrow> u64 \<Rightarrow> u64 \<Rightarrow> bytes \<Rightarrow> WalError + SegmentScan" where
  "valid_len_loop crc segment_size physical_len i offset reader =
     (case read_one crc reader \<lparr>lsn_segment_id = i, lsn_offset = offset\<rparr> segment_size physical_len of
        Inl e \<Rightarrow> Inl e
      | Inr (RecordRead _ next_offset rest) \<Rightarrow>
          valid_len_loop crc segment_size physical_len i next_offset rest
      | Inr Eof \<Rightarrow> Inr (Clean offset)
      | Inr Incomplete \<Rightarrow> Inr (IncompleteTail offset))"
  by pat_completeness auto
termination
  by (relation "measure (\<lambda>(_, _, _, _, _, reader). length reader)") (auto dest: read_one_shorter)

declare valid_len_loop.simps [simp del]

definition valid_len :: "(bytes \<Rightarrow> u32) \<Rightarrow> Dir \<Rightarrow> u64 \<Rightarrow> u64 \<Rightarrow> WalError + SegmentScan" where
  "valid_len crc dir i segment_size =
     res_bind (open_file dir (segment_path i)) (\<lambda>content.
       valid_len_loop crc segment_size (of_nat (length content)) i 0 content)"

fun recover_scan ::
    "(bytes \<Rightarrow> u32) \<Rightarrow> u64 \<Rightarrow> Dir \<Rightarrow> u64 list \<Rightarrow> WalError + (u64 \<times> u64) \<times> Dir" where
  "recover_scan crc segment_size dir [] = Inl SegmentIdExhausted"
| "recover_scan crc segment_size dir (i # ids) =
     res_bind (valid_len crc dir i segment_size) (\<lambda>scan. case scan of
        Clean len \<Rightarrow>
          if ids = [] then Inr ((i, len), dir) else recover_scan crc segment_size dir ids
      | IncompleteTail len \<Rightarrow>
          if ids \<noteq> []
          then Inl (CorruptRecord \<lparr>lsn_segment_id = i, lsn_offset = len\<rparr> IncompleteRecord)
          else res_bind (truncate_segment dir i len) (\<lambda>dir'. Inr ((i, len), dir')))"

definition recover :: "(bytes \<Rightarrow> u32) \<Rightarrow> Dir \<Rightarrow> u64 \<Rightarrow> WalError + (u64 \<times> u64) \<times> Dir" where
  "recover crc dir segment_size =
     res_bind (segment_ids dir) (\<lambda>ids.
       if ids = []
       then recover_scan crc segment_size (AList.update (segment_path 0) [] dir) [0]
       else recover_scan crc segment_size dir ids)"

text \<open>
  The items of the iterator over all records: those of each segment in turn, up to the first error,
  after which the iterator is done.
\<close>

function (sequential) segment_items ::
    "(bytes \<Rightarrow> u32) \<Rightarrow> u64 \<Rightarrow> u64 \<Rightarrow> u64 \<Rightarrow> u64 \<Rightarrow> bytes \<Rightarrow> StoredRecord list \<times> WalError option" where
  "segment_items crc segment_size physical_len i offset reader =
     (let lsn = \<lparr>lsn_segment_id = i, lsn_offset = offset\<rparr> in
      case read_one crc reader lsn segment_size physical_len of
        Inl e \<Rightarrow> ([], Some e)
      | Inr (RecordRead record next_offset rest) \<Rightarrow>
          (let (stored, stop) = segment_items crc segment_size physical_len i next_offset rest
           in (\<lparr>sr_lsn = lsn, sr_record = record\<rparr> # stored, stop))
      | Inr Eof \<Rightarrow> ([], None)
      | Inr Incomplete \<Rightarrow> ([], Some (CorruptRecord lsn IncompleteRecord)))"
  by pat_completeness auto
termination
  by (relation "measure (\<lambda>(_, _, _, _, _, reader). length reader)") (auto dest: read_one_shorter)

declare segment_items.simps [simp del]

fun records_items ::
    "(bytes \<Rightarrow> u32) \<Rightarrow> u64 \<Rightarrow> Dir \<Rightarrow> u64 list \<Rightarrow> (WalError + StoredRecord) list" where
  "records_items crc segment_size dir [] = []"
| "records_items crc segment_size dir (i # ids) =
     (case open_file dir (segment_path i) of
        Inl e \<Rightarrow> [Inl e]
      | Inr content \<Rightarrow>
          (case segment_items crc segment_size (of_nat (length content)) i 0 content of
             (stored, None) \<Rightarrow> map Inr stored @ records_items crc segment_size dir ids
           | (stored, Some e) \<Rightarrow> map Inr stored @ [Inl e]))"

section \<open>The log\<close>

record WalOptions =
  segment_size :: u64
  max_size :: u64
  sync_on_append :: bool

definition wal_options_default :: WalOptions where
  "wal_options_default =
     \<lparr>segment_size = 64 * 1024 * 1024, max_size = 4 * 1024 * 1024 * 1024, sync_on_append = False\<rparr>"

record Wal =
  wal_options :: WalOptions
  wal_active_id :: u64
  wal_active_len :: u64
  wal_total_len :: u64
  wal_poisoned :: bool

text \<open>What the operating system does to one append: the number of bytes that reach the file when
  the write fails, and whether the two calls of \<open>fsync\<close> fail.\<close>

record Faults =
  torn_write :: "nat option"
  rotate_sync_fails :: bool
  append_sync_fails :: bool

definition no_faults :: Faults where
  "no_faults = \<lparr>torn_write = None, rotate_sync_fails = False, append_sync_fails = False\<rparr>"

definition validate_options :: "WalOptions \<Rightarrow> WalError + unit" where
  "validate_options options =
     (if segment_size options < HEADER_LEN_U64 \<or> max_size options < HEADER_LEN_U64
      then Inl (SegmentTooSmall (min (segment_size options) (max_size options)) HEADER_LEN)
      else Inr ())"

definition wal_open ::
    "(bytes \<Rightarrow> u32) \<Rightarrow> bool \<Rightarrow> WalOptions \<Rightarrow> Dir \<Rightarrow> WalError + Wal \<times> Dir" where
  "wal_open crc lock_held options dir =
     res_bind (validate_options options) (\<lambda>_.
     if lock_held then Inl (Locked LOCK_FILE)
     else
       let dir = (if map_of dir LOCK_FILE = None then AList.update LOCK_FILE [] dir else dir) in
       res_bind (recover crc dir (segment_size options)) (\<lambda>((active_id, active_len), dir).
       res_bind (total_len dir) (\<lambda>total.
       if total > max_size options then Inl (WalFull total (max_size options))
       else Inr (\<lparr>wal_options = options, wal_active_id = active_id, wal_active_len = active_len,
                  wal_total_len = total, wal_poisoned = False\<rparr>, open_segment dir active_id))))"

definition wal_ensure_healthy :: "Wal \<Rightarrow> WalError + unit" where
  "wal_ensure_healthy wal = (if wal_poisoned wal then Inl Poisoned else Inr ())"

definition checked_add_len :: "u64 \<Rightarrow> nat \<Rightarrow> WalError + u64" where
  "checked_add_len offset len =
     res_bind (ok_or (RecordTooLarge u64_max u64_max) (u64_try_from len)) (\<lambda>len.
       ok_or (RecordTooLarge u64_max u64_max) (checked_add offset len))"

text \<open>What is written is in the directory at once, so a successful \<open>fsync\<close> changes nothing that a later
  \<open>open\<close> of the directory would see; a failing one poisons the log. The crashes that are covered are
  those that leave the written bytes in the files.\<close>

definition wal_sync :: "bool \<Rightarrow> Wal \<Rightarrow> (WalError + unit) \<times> Wal" where
  "wal_sync fails wal = (case wal_ensure_healthy wal of
     Inl e \<Rightarrow> (Inl e, wal)
   | Inr _ \<Rightarrow>
       if fails then (Inl (Io (segment_path (wal_active_id wal))), wal\<lparr>wal_poisoned := True\<rparr>)
       else (Inr (), wal))"

definition rotate_if_needed ::
    "bool \<Rightarrow> nat \<Rightarrow> Wal \<times> Dir \<Rightarrow> (WalError + unit) \<times> Wal \<times> Dir" where
  "rotate_if_needed sync_fails record_len state =
     (let (wal, dir) = state; limit = segment_size (wal_options wal) in
      case u64_try_from record_len of
        None \<Rightarrow> (Inl (RecordTooLarge u64_max limit), wal, dir)
      | Some len \<Rightarrow>
          if len > limit then (Inl (RecordTooLarge len limit), wal, dir)
          else (case checked_add (wal_active_len wal) len of
             None \<Rightarrow> (Inl (RecordTooLarge u64_max limit), wal, dir)
           | Some next_len \<Rightarrow>
               if wal_active_len wal \<noteq> 0 \<and> next_len > limit
               then (case wal_sync sync_fails wal of
                  (Inl e, wal) \<Rightarrow> (Inl e, wal, dir)
                | (Inr _, wal) \<Rightarrow>
                    (case checked_add (wal_active_id wal) 1 of
                       None \<Rightarrow> (Inl SegmentIdExhausted, wal, dir)
                     | Some active_id \<Rightarrow>
                         (Inr (), wal\<lparr>wal_active_id := active_id, wal_active_len := 0\<rparr>,
                          open_segment dir active_id)))
               else (Inr (), wal, dir)))"

definition append_to_file :: "string \<Rightarrow> bytes \<Rightarrow> Dir \<Rightarrow> Dir" where
  "append_to_file name bytes dir =
     AList.update name ((case map_of dir name of Some content \<Rightarrow> content | None \<Rightarrow> []) @ bytes) dir"

definition write_or_poison ::
    "nat option \<Rightarrow> bytes \<Rightarrow> Wal \<times> Dir \<Rightarrow> (WalError + unit) \<times> Wal \<times> Dir" where
  "write_or_poison torn bytes state =
     (let (wal, dir) = state; name = segment_path (wal_active_id wal) in
      case torn of
        Some k \<Rightarrow> (Inl (Io name), wal\<lparr>wal_poisoned := True\<rparr>, append_to_file name (take k bytes) dir)
      | None \<Rightarrow> (Inr (), wal, append_to_file name bytes dir))"

definition wal_append ::
    "(bytes \<Rightarrow> u32) \<Rightarrow> Faults \<Rightarrow> RecordKind \<Rightarrow> bytes \<Rightarrow> Wal \<times> Dir
      \<Rightarrow> (WalError + Lsn) \<times> Wal \<times> Dir" where
  "wal_append crc faults kind payload state =
     (let (wal, dir) = state in
      case res_bind (wal_ensure_healthy wal) (\<lambda>_.
           res_bind (encoded_len (length payload)) (\<lambda>record_len.
           res_bind (checked_add_len (wal_total_len wal) record_len) (\<lambda>next_total.
           if next_total > max_size (wal_options wal)
           then Inl (WalFull next_total (max_size (wal_options wal)))
           else Inr (record_len, next_total)))) of
        Inl e \<Rightarrow> (Inl e, state)
      | Inr (record_len, next_total) \<Rightarrow>
         (case rotate_if_needed (rotate_sync_fails faults) record_len (wal, dir) of
            (Inl e, state1) \<Rightarrow> (Inl e, state1)
          | (Inr _, wal1, dir1) \<Rightarrow>
             (let lsn = \<lparr>lsn_segment_id = wal_active_id wal1, lsn_offset = wal_active_len wal1\<rparr> in
              case res_bind (encode_record crc kind payload) (\<lambda>bytes.
                   res_bind (checked_add_len (wal_active_len wal1) (length bytes)) (\<lambda>next_len.
                   Inr (bytes, next_len))) of
                Inl e \<Rightarrow> (Inl e, wal1, dir1)
              | Inr (bytes, next_len) \<Rightarrow>
                 (case write_or_poison (torn_write faults) bytes (wal1, dir1) of
                    (Inl e, state2) \<Rightarrow> (Inl e, state2)
                  | (Inr _, wal2, dir2) \<Rightarrow>
                     (let wal3 = wal2\<lparr>wal_active_len := next_len, wal_total_len := next_total\<rparr> in
                      if sync_on_append (wal_options wal3)
                      then (case wal_sync (append_sync_fails faults) wal3 of
                              (Inl e, wal4) \<Rightarrow> (Inl e, wal4, dir2)
                            | (Inr _, wal4) \<Rightarrow> (Inr lsn, wal4, dir2))
                      else (Inr lsn, wal3, dir2))))))"

definition wal_records ::
    "(bytes \<Rightarrow> u32) \<Rightarrow> Wal \<times> Dir \<Rightarrow> WalError + (WalError + StoredRecord) list" where
  "wal_records crc state =
     (let (wal, dir) = state in
      res_bind (wal_ensure_healthy wal) (\<lambda>_.
      res_bind (segment_ids dir) (\<lambda>ids.
        Inr (records_items crc (segment_size (wal_options wal)) dir ids))))"

section \<open>File names\<close>

lemma is_digit_digit: "d < 10 \<Longrightarrow> is_digit (digit d)"
  by (simp add: is_digit_def digit_def)

lemma decimal_digits: "list_all is_digit (decimal n)"
proof (induction n rule: decimal.induct)
  case (1 n)
  then show ?case by (subst decimal.simps) (simp add: is_digit_digit)
qed

lemma undecimal_zeros: "undecimal (replicate k CHR ''0'' @ s) = undecimal s"
  by (induction k) (simp_all add: undecimal_def digit_value_def)

lemma not_digit_chars:
  "list_all is_digit s \<Longrightarrow> CHR ''.'' \<notin> set s \<and> CHR ''+'' \<notin> set s"
  by (induction s) (auto simp: is_digit_def)

lemma file_parts_dot:
  "\<lbrakk>CHR ''.'' \<notin> set ext; stem \<noteq> []\<rbrakk> \<Longrightarrow> file_parts (stem @ CHR ''.'' # ext) = (stem, Some ext)"
  by (simp add: file_parts_def takeWhile_append dropWhile_append Let_def)

lemma segment_path_parts:
  "\<exists>stem. segment_path i = stem @ CHR ''.'' # ''wal'' \<and> stem \<noteq> [] \<and>
     list_all is_digit stem \<and> undecimal stem = unat i"
  using decimal_digits [of "unat i"]
  by (intro exI [of _ "replicate (20 - length (decimal (unat i))) CHR ''0'' @ decimal (unat i)"])
    (auto simp: segment_path_def SEGMENT_SUFFIX_def Let_def undecimal_zeros list_all_iff
      is_digit_def)

lemma segment_path_roundtrip [simp]:
  "snd (file_parts (segment_path i)) = Some SEGMENT_SUFFIX" "segment_id (segment_path i) = Inr i"
proof -
  obtain stem where stem: "segment_path i = stem @ CHR ''.'' # ''wal''" "stem \<noteq> []"
      "list_all is_digit stem" "undecimal stem = unat i"
    using segment_path_parts by blast
  then have parts: "file_parts (segment_path i) = (stem, Some ''wal'')"
    by (simp add: file_parts_dot)
  have "u64_try_from (unat i) = Some i"
    using unat_lt_2p64 [of i] by (simp add: u64_try_from_alt)
  moreover have "hd stem \<noteq> CHR ''+''"
    using stem not_digit_chars [OF stem(3)] by (cases stem) auto
  ultimately show "segment_id (segment_path i) = Inr i"
    using stem parts by (cases stem) (simp_all add: segment_id_def parse_u64_def)
  show "snd (file_parts (segment_path i)) = Some SEGMENT_SUFFIX"
    using parts by (simp add: SEGMENT_SUFFIX_def)
qed

lemma segment_path_inject [simp]: "segment_path i = segment_path j \<longleftrightarrow> i = j"
  using segment_path_roundtrip(2) by (metis sum.inject(2))

section \<open>Directories that hold a log\<close>

text \<open>The segment files of the directory are exactly those numbered from zero, with the given
  contents.\<close>

definition is_segment :: "string \<Rightarrow> bool" where
  "is_segment name \<longleftrightarrow> snd (file_parts name) = Some SEGMENT_SUFFIX"

definition dir_holds :: "Dir \<Rightarrow> bytes list \<Rightarrow> bool" where
  "dir_holds dir files \<longleftrightarrow> distinct (map fst dir) \<and> length files < 18446744073709551616 \<and>
     {name \<in> set (map fst dir). is_segment name} =
       (\<lambda>k. segment_path (of_nat k)) ` {..<length files} \<and>
     (\<forall>k < length files. map_of dir (segment_path (of_nat k)) = Some (files ! k))"

lemma is_segment_path [simp]: "is_segment (segment_path i)"
  by (simp add: is_segment_def)

lemma lock_file_no_segment [simp]: "\<not> is_segment LOCK_FILE"
  by (simp add: is_segment_def file_parts_def LOCK_FILE_def)

lemma of_nat_u64_inject:
  "\<lbrakk>i < 18446744073709551616; j < 18446744073709551616\<rbrakk> \<Longrightarrow>
   (of_nat i :: u64) = of_nat j \<longleftrightarrow> i = j"
  by (metis unat_of_nat_u64)

lemma collect_ids_paths:
  assumes "\<forall>name \<in> set names. is_segment name \<longrightarrow> name \<in> range segment_path"
  shows "\<exists>ids. collect_ids names = Inr ids \<and> map segment_path ids = filter is_segment names"
  using assms
proof (induction names)
  case (Cons name names)
  then obtain ids where ids: "collect_ids names = Inr ids"
      "map segment_path ids = filter is_segment names" by auto
  show ?case
  proof (cases "is_segment name")
    case True
    with Cons.prems obtain i where "name = segment_path i" by auto
    then show ?thesis using ids True by simp
  next
    case False
    then have "collect_ids (name # names) = collect_ids names" by (simp add: is_segment_def)
    then show ?thesis using ids False by simp
  qed
qed simp

lemma check_ids_range:
  "n \<le> 18446744073709551616 \<Longrightarrow> check_ids k (map of_nat [k..<n]) = Inr ()"
proof (induction "n - k" arbitrary: k)
  case (Suc d)
  then have "k < n" by simp
  then have "map of_nat [k..<n] = (of_nat k :: u64) # map of_nat [Suc k..<n]"
    by (simp add: upt_conv_Cons)
  then show ?case using Suc \<open>k < n\<close> by (simp add: u64_try_from_alt)
qed simp

lemma segment_ids_holds:
  assumes "dir_holds dir files"
  shows "segment_ids dir = Inr (map of_nat [0..<length files])"
proof -
  let ?n = "length files"
  let ?all = "map of_nat [0..<?n] :: u64 list"
  have names: "{name \<in> set (map fst dir). is_segment name} = segment_path ` set ?all"
    using assms by (auto simp: dir_holds_def image_image atLeast0LessThan)
  then have "\<forall>name \<in> set (map fst dir). is_segment name \<longrightarrow> name \<in> range segment_path" by blast
  then obtain ids where ids: "collect_ids (map fst dir) = Inr ids"
      "map segment_path ids = filter is_segment (map fst dir)"
    using collect_ids_paths by blast
  have "distinct (map segment_path ids)" using ids(2) assms by (simp add: dir_holds_def)
  then have "distinct ids" by (simp add: distinct_map)
  have "segment_path ` set ids = segment_path ` set ?all"
    using names ids(2) by (metis set_filter set_map)
  then have "set ids = set ?all" by (rule inj_image_eq_iff [THEN iffD1, rotated]) (simp add: inj_def)
  moreover have "sorted_wrt (<) ?all"
    using map_of_nat_sorted [of ?n 0] assms by (simp add: dir_holds_def)
  ultimately have "sort ids = ?all"
    using \<open>distinct ids\<close> by (intro sorted_distinct_set_unique) (auto simp: strict_sorted_iff)
  then show ?thesis
    using ids(1) check_ids_range [of ?n 0] assms by (simp add: segment_ids_def dir_holds_def)
qed

lemma holds_open:
  "\<lbrakk>dir_holds dir files; k < length files\<rbrakk> \<Longrightarrow>
   open_file dir (segment_path (of_nat k)) = Inr (files ! k)"
  by (simp add: dir_holds_def open_file_def)

lemma holds_update:
  assumes "dir_holds dir files" "k < length files"
  shows "dir_holds (AList.update (segment_path (of_nat k)) content dir) (files[k := content])"
proof -
  have "segment_path (of_nat k) \<in> set (map fst dir)" using assms by (auto simp: dir_holds_def)
  then have "map fst (AList.update (segment_path (of_nat k)) content dir) = map fst dir"
    by (simp add: update_keys)
  then show ?thesis
    using assms by (auto simp: dir_holds_def update_conv of_nat_u64_inject nth_list_update)
qed

lemma holds_extend:
  assumes "dir_holds dir files" "Suc (length files) < 18446744073709551616"
  shows "dir_holds (AList.update (segment_path (of_nat (length files))) content dir) (files @ [content])"
    and "map_of dir (segment_path (of_nat (length files))) = None"
proof -
  let ?path = "segment_path (of_nat (length files))"
  have new: "?path \<notin> set (map fst dir)"
  proof
    assume "?path \<in> set (map fst dir)"
    then have "?path \<in> (\<lambda>k. segment_path (of_nat k)) ` {..<length files}"
      using assms(1) unfolding dir_holds_def by (metis (mono_tags) is_segment_path mem_Collect_eq)
    then show False using assms by (auto simp: of_nat_u64_inject)
  qed
  then show "map_of dir ?path = None" by (simp add: map_of_eq_None_iff)
  have keys: "map fst (AList.update ?path content dir) = map fst dir @ [?path]"
    using new by (simp add: update_keys)
  have "{name \<in> set (map fst dir @ [?path]). is_segment name} =
      insert ?path {name \<in> set (map fst dir). is_segment name}" by auto
  then have segments: "{name \<in> set (map fst dir @ [?path]). is_segment name} =
      (\<lambda>k. segment_path (of_nat k)) ` {..<Suc (length files)}"
    using assms(1) by (simp add: dir_holds_def lessThan_Suc)
  have "map_of (AList.update ?path content dir) (segment_path (of_nat k)) =
      Some ((files @ [content]) ! k)" if "k < Suc (length files)" for k
    using that assms by (simp add: dir_holds_def update_conv of_nat_u64_inject nth_append)
  then show "dir_holds (AList.update ?path content dir) (files @ [content])"
    using assms new segments unfolding dir_holds_def keys by simp
qed

lemma holds_other:
  assumes "dir_holds dir files" "\<not> is_segment name"
  shows "dir_holds (AList.update name content dir) files"
proof -
  have "segment_path i \<noteq> name" for i using assms(2) by auto
  moreover have "{n \<in> set (map fst (AList.update name content dir)). is_segment n} =
      {n \<in> set (map fst dir). is_segment n}"
    using assms(2) by (auto simp: update_keys)
  ultimately show ?thesis
    using assms(1) by (simp add: dir_holds_def update_conv distinct_update)
qed

section \<open>Scanning a segment\<close>

definition seg_bytes :: "(bytes \<Rightarrow> u32) \<Rightarrow> WalRecord list \<Rightarrow> bytes" where
  "seg_bytes crc rs = concat (map (encoded crc) rs)"

text \<open>The records that lie completely within the first \<open>k\<close> bytes of a segment.\<close>

fun fits :: "nat \<Rightarrow> WalRecord list \<Rightarrow> WalRecord list" where
  "fits k [] = []"
| "fits k (r # rs) =
     (if 32 + length (wr_payload r) \<le> k then r # fits (k - (32 + length (wr_payload r))) rs else [])"

fun stored_from :: "u64 \<Rightarrow> u64 \<Rightarrow> WalRecord list \<Rightarrow> StoredRecord list" where
  "stored_from i offset [] = []"
| "stored_from i offset (r # rs) =
     \<lparr>sr_lsn = \<lparr>lsn_segment_id = i, lsn_offset = offset\<rparr>, sr_record = r\<rparr> #
     stored_from i (offset + of_nat (32 + length (wr_payload r))) rs"

lemma seg_bytes_simps [simp]:
  "seg_bytes crc [] = []"
  "seg_bytes crc (r # rs) = encoded crc r @ seg_bytes crc rs"
  "seg_bytes crc (rs @ rs') = seg_bytes crc rs @ seg_bytes crc rs'"
  by (simp_all add: seg_bytes_def)

lemma stored_records [simp]: "map sr_record (stored_from i offset rs) = rs"
  by (induction rs arbitrary: offset) auto

lemma fits_prefix: "\<exists>rest. rs = fits k rs @ rest"
  by (induction k rs rule: fits.induct) auto

lemma fits_bytes: "length (seg_bytes crc (fits k rs)) \<le> k"
  by (induction k rs rule: fits.induct) auto

lemma fits_append:
  "fits (length (seg_bytes crc rs) + k) (rs @ rs') = rs @ fits k rs'"
  by (induction rs) (auto simp: diff_add_assoc2)

lemma take_fits:
  "take (length (seg_bytes crc (fits k rs))) (take k (seg_bytes crc rs)) = seg_bytes crc (fits k rs)"
  using fits_bytes [of crc k rs] fits_prefix [of rs k]
  by (metis append_eq_conv_conj min.absorb1 seg_bytes_simps(3) take_take)

lemma valid_len_loop_seg:
  assumes "list_all wal_record_ok rs" "k \<le> length (seg_bytes crc rs)"
    and "unat offset + length (seg_bytes crc rs) \<le> unat limit"
  shows "valid_len_loop crc limit (offset + of_nat k) i offset (take k (seg_bytes crc rs)) =
    (let len = length (seg_bytes crc (fits k rs)); stop = offset + of_nat len
     in Inr (if len = k then Clean stop else IncompleteTail stop))"
  using assms
proof (induction rs arbitrary: k offset)
  case Nil
  then show ?case by (subst valid_len_loop.simps) simp
next
  case (Cons r rs)
  let ?lsn = "\<lparr>lsn_segment_id = i, lsn_offset = offset\<rparr>"
  let ?n = "length (encoded crc r)"
  from Cons.prems have ok: "wal_record_ok r" and room: "unat offset + ?n \<le> unat limit"
    by simp_all
  have room_k: "unat offset + k \<le> unat limit" using Cons.prems(2,3) by simp
  show ?case
  proof (cases "?n \<le> k")
    case False
    then have "take k (seg_bytes crc (r # rs)) = take k (encoded crc r)" by simp
    moreover have "read_one crc (take k (encoded crc r)) ?lsn limit (offset + of_nat k) =
        Inr (if k = 0 then Eof else Incomplete)"
      using read_one_torn [OF ok, of ?lsn] room False by simp
    ultimately show ?thesis using False by (subst valid_len_loop.simps) simp
  next
    case True
    have split: "take k (seg_bytes crc (r # rs)) = encoded crc r @ take (k - ?n) (seg_bytes crc rs)"
      using True by simp
    have end_: "unat (offset + of_nat k) = unat offset + k" by (rule unat_add_of_nat [OF room_k])
    have "read_one crc (take k (seg_bytes crc (r # rs))) ?lsn limit (offset + of_nat k) =
        Inr (RecordRead r (offset + of_nat ?n) (take (k - ?n) (seg_bytes crc rs)))"
      unfolding split using read_one_complete [OF ok, of ?lsn] room True end_ by simp
    moreover have "(offset + of_nat ?n) + of_nat (k - ?n) = offset + of_nat k"
      using True by (simp flip: of_nat_add add.assoc)
    moreover have "unat (offset + of_nat ?n) = unat offset + ?n" by (rule unat_add_of_nat [OF room])
    ultimately show ?thesis
      using Cons.IH [of "k - ?n" "offset + of_nat ?n"] Cons.prems True
      by (subst valid_len_loop.simps) (auto simp: Let_def algebra_simps)
  qed
qed

lemma segment_items_seg:
  assumes "list_all wal_record_ok rs" "unat offset + length (seg_bytes crc rs) \<le> unat limit"
    and "unat offset + length (seg_bytes crc rs) \<le> unat physical_len"
  shows "segment_items crc limit physical_len i offset (seg_bytes crc rs) = (stored_from i offset rs, None)"
  using assms
proof (induction rs arbitrary: offset)
  case Nil
  then show ?case by (subst segment_items.simps) simp
next
  case (Cons r rs)
  let ?n = "length (encoded crc r)"
  have "unat offset + ?n \<le> unat limit" using Cons.prems(2) by simp
  then have "unat (offset + of_nat ?n) = unat offset + ?n" by (rule unat_add_of_nat)
  then show ?case
    using Cons read_one_complete [of r "\<lparr>lsn_segment_id = i, lsn_offset = offset\<rparr>" crc limit
        physical_len "seg_bytes crc rs"]
    by (subst segment_items.simps) (simp add: add.assoc)
qed

section \<open>The log as a list of records\<close>

text \<open>The segments hold the records \<open>rss\<close>, and the handle is positioned at the end of the last.\<close>

definition segs_ok :: "(bytes \<Rightarrow> u32) \<Rightarrow> WalOptions \<Rightarrow> WalRecord list list \<Rightarrow> bool" where
  "segs_ok crc options rss \<longleftrightarrow> (\<forall>rs \<in> set rss. list_all wal_record_ok rs \<and>
     length (seg_bytes crc rs) \<le> unat (segment_size options))"

definition size_of :: "bytes list \<Rightarrow> nat" where
  "size_of files = sum_list (map length files)"

definition wal_inv :: "(bytes \<Rightarrow> u32) \<Rightarrow> Wal \<times> Dir \<Rightarrow> WalRecord list list \<Rightarrow> bool" where
  "wal_inv crc state rss \<longleftrightarrow> rss \<noteq> [] \<and> [] \<notin> set (butlast rss) \<and>
     dir_holds (snd state) (map (seg_bytes crc) rss) \<and> segs_ok crc (wal_options (fst state)) rss \<and>
     validate_options (wal_options (fst state)) = Inr () \<and>
     size_of (map (seg_bytes crc) rss) \<le> unat (max_size (wal_options (fst state))) \<and>
     wal_active_id (fst state) = of_nat (length rss - 1) \<and>
     wal_active_len (fst state) = of_nat (length (seg_bytes crc (last rss))) \<and>
     wal_total_len (fst state) = of_nat (size_of (map (seg_bytes crc) rss)) \<and>
     \<not> wal_poisoned (fst state)"

fun stored_segments :: "nat \<Rightarrow> WalRecord list list \<Rightarrow> StoredRecord list" where
  "stored_segments k [] = []"
| "stored_segments k (rs # rss) = stored_from (of_nat k) 0 rs @ stored_segments (Suc k) rss"

lemma stored_segments_records [simp]: "map sr_record (stored_segments k rss) = concat rss"
  by (induction rss arbitrary: k) auto

lemma seg_len_u64:
  "length bytes \<le> unat (limit :: u64) \<Longrightarrow> unat (of_nat (length bytes) :: u64) = length bytes"
  using unat_lt_2p64 [of limit] by (simp add: unat_of_nat_u64)

lemma records_items_from:
  assumes "dir_holds dir (map (seg_bytes crc) (done @ rss))" "segs_ok crc options (done @ rss)"
  shows "records_items crc (segment_size options) dir
      (map of_nat [length done..<length done + length rss]) =
    map Inr (stored_segments (length done) rss)"
  using assms
proof (induction rss arbitrary: "done")
  case (Cons rs rss)
  have "open_file dir (segment_path (of_nat (length done))) = Inr (seg_bytes crc rs)"
    using holds_open [OF Cons.prems(1), of "length done"] by (simp add: nth_append)
  moreover have "segment_items crc (segment_size options) (of_nat (length (seg_bytes crc rs)))
      (of_nat (length done)) 0 (seg_bytes crc rs) = (stored_from (of_nat (length done)) 0 rs, None)"
    using Cons.prems(2) seg_len_u64 [of "seg_bytes crc rs" "segment_size options"]
    by (intro segment_items_seg) (auto simp: segs_ok_def)
  moreover have "[length done..<length done + length (rs # rss)] =
      length done # [length (done @ [rs])..<length (done @ [rs]) + length rss]"
    by (subst upt_conv_Cons) (simp_all del: upt_Suc)
  ultimately show ?case using Cons.IH [of "done @ [rs]"] Cons.prems by (simp del: upt_Suc)
qed simp

lemma wal_records_inv:
  assumes "wal_inv crc state rss"
  shows "wal_records crc state = Inr (map Inr (stored_segments 0 rss))"
  using assms records_items_from [of "snd state" crc "[]" rss "wal_options (fst state)"]
    segment_ids_holds [of "snd state" "map (seg_bytes crc) rss"]
  by (simp add: wal_inv_def wal_records_def wal_ensure_healthy_def split_beta Let_def)

section \<open>Opening and recovery\<close>

lemma segment_numbers_Cons:
  "[length xs..<length xs + length (y # ys)] =
     length xs # [length (xs @ [y])..<length (xs @ [y]) + length ys]"
  by (subst upt_conv_Cons) (simp_all del: upt_Suc)

lemma size_of_simps [simp]: "size_of [] = 0" "size_of (f # fs) = length f + size_of fs"
  "size_of (fs @ gs) = size_of fs + size_of gs"
  by (simp_all add: size_of_def)

lemma total_len_from:
  assumes "dir_holds dir (done @ files)" "t + size_of files < 18446744073709551616"
  shows "fold (\<lambda>i total. res_bind total (\<lambda>total. res_bind (segment_len dir i) (\<lambda>len.
        ok_or (WalFull u64_max u64_max) (checked_add total len))))
      (map of_nat [length done..<length done + length files]) (Inr (of_nat t)) =
    Inr (of_nat (t + size_of files))"
  using assms
proof (induction files arbitrary: "done" t)
  case (Cons f files)
  have "segment_len dir (of_nat (length done)) = Inr (of_nat (length f))"
    using holds_open [OF Cons.prems(1), of "length done"] by (simp add: segment_len_def)
  moreover have "checked_add (of_nat t) (of_nat (length f)) = Some (of_nat (t + length f))"
    using Cons.prems(2) by (simp add: checked_add_alt unat_of_nat_u64)
  ultimately show ?case
    using Cons.IH [of "done @ [f]" "t + length f"] Cons.prems
    unfolding segment_numbers_Cons by (simp add: add.assoc del: upt_Suc)
qed simp

lemma total_len_holds:
  "\<lbrakk>dir_holds dir files; size_of files < 18446744073709551616\<rbrakk> \<Longrightarrow>
   total_len dir = Inr (of_nat (size_of files))"
  using total_len_from [of dir "[]" files 0] by (simp add: total_len_def segment_ids_holds)

lemma valid_len_take:
  assumes "open_file dir (segment_path i) = Inr (take k (seg_bytes crc rs))"
    and "list_all wal_record_ok rs" "k \<le> length (seg_bytes crc rs)"
    and "length (seg_bytes crc rs) \<le> unat limit"
  shows "valid_len crc dir i limit =
    (let len = length (seg_bytes crc (fits k rs))
     in Inr (if len = k then Clean (of_nat len) else IncompleteTail (of_nat len)))"
  using assms valid_len_loop_seg [of rs k crc 0 limit i]
  by (simp add: valid_len_def min.absorb2 Let_def)

lemma fits_all: "fits (length (seg_bytes crc rs)) rs = rs"
  using fits_append [of crc rs 0 "[]"] by simp

lemma valid_len_complete:
  assumes "open_file dir (segment_path i) = Inr (seg_bytes crc rs)"
    and "list_all wal_record_ok rs" "length (seg_bytes crc rs) \<le> unat limit"
  shows "valid_len crc dir i limit = Inr (Clean (of_nat (length (seg_bytes crc rs))))"
  using valid_len_take [of dir i "length (seg_bytes crc rs)" crc rs limit] assms
  by (simp add: fits_all)

lemma list_update_last: "(xs @ [y])[length xs := z] = xs @ [z]"
  by simp

lemma recover_last:
  assumes holds: "dir_holds dir (files @ [take k (seg_bytes crc rs)])"
    and ok: "list_all wal_record_ok rs" "k \<le> length (seg_bytes crc rs)"
      "length (seg_bytes crc rs) \<le> unat limit"
  shows "\<exists>dir'. recover_scan crc limit dir [of_nat (length files)] =
      Inr ((of_nat (length files), of_nat (length (seg_bytes crc (fits k rs)))), dir') \<and>
    dir_holds dir' (files @ [seg_bytes crc (fits k rs)])"
proof -
  let ?len = "length (seg_bytes crc (fits k rs))"
  let ?path = "segment_path (of_nat (length files))"
  have content: "open_file dir ?path = Inr (take k (seg_bytes crc rs))"
    using holds_open [OF holds, of "length files"] by simp
  note scan = valid_len_take [OF content ok]
  have len: "unat (of_nat ?len :: u64) = ?len"
    using fits_bytes [of crc k rs] ok(2,3) by (intro seg_len_u64 [of _ limit]) simp
  show ?thesis
  proof (cases "?len = k")
    case True
    then have "take k (seg_bytes crc rs) = seg_bytes crc (fits k rs)"
      using take_fits [of crc k rs] by simp
    then show ?thesis using scan True holds by (simp add: Let_def)
  next
    case False
    have "?len \<le> length (take k (seg_bytes crc rs))"
      using fits_bytes [of crc k rs] ok(2) by simp
    then have "truncate_segment dir (of_nat (length files)) (of_nat ?len) =
        Inr (AList.update ?path (seg_bytes crc (fits k rs)) dir)"
      using content take_fits [of crc k rs] len by (simp add: truncate_segment_def)
    moreover have "dir_holds (AList.update ?path (seg_bytes crc (fits k rs)) dir)
        (files @ [seg_bytes crc (fits k rs)])"
      using holds_update [OF holds, of "length files" "seg_bytes crc (fits k rs)"] by simp
    ultimately show ?thesis using scan False by (simp add: Let_def)
  qed
qed

lemma recover_scan_from:
  assumes "dir_holds dir (map (seg_bytes crc) (done @ init) @ [take k (seg_bytes crc rs)])"
    and "segs_ok crc options (init @ [rs])" "k \<le> length (seg_bytes crc rs)"
  shows "\<exists>dir'. recover_scan crc (segment_size options) dir
      (map of_nat [length done..<length done + length (init @ [rs])]) =
      Inr ((of_nat (length (done @ init)), of_nat (length (seg_bytes crc (fits k rs)))), dir') \<and>
    dir_holds dir' (map (seg_bytes crc) (done @ init @ [fits k rs]))"
  using assms
proof (induction init arbitrary: "done")
  case Nil
  then show ?case
    using recover_last [of dir "map (seg_bytes crc) done" k crc rs "segment_size options"]
    by (simp add: segs_ok_def)
next
  case (Cons rs0 init)
  have content: "open_file dir (segment_path (of_nat (length done))) = Inr (seg_bytes crc rs0)"
    using holds_open [OF Cons.prems(1), of "length done"] by (simp add: nth_append)
  have "valid_len crc dir (of_nat (length done)) (segment_size options) =
      Inr (Clean (of_nat (length (seg_bytes crc rs0))))"
    using valid_len_complete [OF content] Cons.prems(2) by (simp add: segs_ok_def)
  then show ?case
    using Cons.IH [of "done @ [rs0]"] Cons.prems
    unfolding append_Cons segment_numbers_Cons
    by (simp add: segs_ok_def del: upt_Suc)
qed

lemma fits_mono: "j \<le> k \<Longrightarrow> \<exists>lost. fits k rs = fits j rs @ lost"
  by (induction rs arbitrary: j k) (auto simp: diff_le_mono)

lemma holds_unique:
  assumes "dir_holds dir files" "dir_holds dir files'"
  shows "files = files'"
proof (rule nth_equalityI)
  show len: "length files = length files'"
    using segment_ids_holds [OF assms(1)] segment_ids_holds [OF assms(2)]
    by (metis diff_zero length_map length_upt sum.inject(2))
  show "files ! k = files' ! k" if "k < length files" for k
    using holds_open [OF assms(1) that] holds_open [OF assms(2), of k] that len by simp
qed

text \<open>
  A directory from which opening recovers the records \<open>recs\<close>: complete segments, and a last one
  of which some number of bytes is there.
\<close>

definition recoverable ::
    "(bytes \<Rightarrow> u32) \<Rightarrow> WalOptions \<Rightarrow> Dir \<Rightarrow> WalRecord list \<Rightarrow> bool" where
  "recoverable crc options dir recs \<longleftrightarrow> (\<exists>init rs k.
     dir_holds dir (map (seg_bytes crc) init @ [take k (seg_bytes crc rs)]) \<and>
     k \<le> length (seg_bytes crc rs) \<and> segs_ok crc options (init @ [rs]) \<and> [] \<notin> set init \<and>
     size_of (map (seg_bytes crc) init) + k \<le> unat (max_size options) \<and>
     recs = concat init @ fits k rs)"

lemma segs_ok_fits:
  assumes "segs_ok crc options (init @ [rs])"
  shows "segs_ok crc options (init @ [fits k rs])"
proof -
  obtain rest where "rs = fits k rs @ rest" using fits_prefix [of rs k] by blast
  then have "list_all wal_record_ok rs \<longleftrightarrow>
      list_all wal_record_ok (fits k rs) \<and> list_all wal_record_ok rest"
    "length (seg_bytes crc rs) = length (seg_bytes crc (fits k rs)) + length (seg_bytes crc rest)"
    by (metis list_all_append, metis length_append seg_bytes_simps(3))
  then show ?thesis using assms by (auto simp: segs_ok_def)
qed

lemma wal_open_recovers:
  assumes rec: "recoverable crc options dir recs" and valid: "validate_options options = Inr ()"
  shows "\<exists>state rss. wal_open crc False options dir = Inr state \<and> wal_inv crc state rss \<and>
    concat rss = recs \<and> wal_options (fst state) = options"
proof -
  from rec obtain init rs k where holds:
      "dir_holds dir (map (seg_bytes crc) init @ [take k (seg_bytes crc rs)])"
    and k: "k \<le> length (seg_bytes crc rs)" and ok: "segs_ok crc options (init @ [rs])"
    and full: "[] \<notin> set init" and size: "size_of (map (seg_bytes crc) init) + k \<le> unat (max_size options)"
    and recs: "recs = concat init @ fits k rs"
    unfolding recoverable_def by blast
  define dir0 where "dir0 = (if map_of dir LOCK_FILE = None then AList.update LOCK_FILE [] dir else dir)"
  have holds0: "dir_holds dir0 (map (seg_bytes crc) init @ [take k (seg_bytes crc rs)])"
    using holds holds_other [OF holds lock_file_no_segment] by (simp add: dir0_def)
  let ?rss = "init @ [fits k rs]"
  let ?total = "size_of (map (seg_bytes crc) ?rss)"
  from recover_scan_from [of dir0 crc "[]" init k rs options] holds0 ok k obtain dir1 where
    scan: "recover_scan crc (segment_size options) dir0 (map of_nat [0..<length (init @ [rs])]) =
      Inr ((of_nat (length init), of_nat (length (seg_bytes crc (fits k rs)))), dir1)"
    and holds1: "dir_holds dir1 (map (seg_bytes crc) ?rss)"
    by auto
  have "segment_ids dir0 = Inr (map of_nat [0..<length (init @ [rs])])"
    using segment_ids_holds [OF holds0] by simp
  then have recovered: "recover crc dir0 (segment_size options) =
      Inr ((of_nat (length init), of_nat (length (seg_bytes crc (fits k rs)))), dir1)"
    using scan by (simp add: recover_def)
  have small: "?total \<le> unat (max_size options)" using size fits_bytes [of crc k rs] by simp
  then have lt: "?total < 18446744073709551616" using unat_lt_2p64 [of "max_size options"] by simp
  note total = total_len_holds [OF holds1 lt]
  have fitting: "\<not> max_size options < of_nat ?total"
    using small unat_of_nat_u64 [OF lt] by (simp only: word_less_nat_alt not_less)
  have "map_of dir1 (segment_path (of_nat (length init))) \<noteq> None"
    using holds_open [OF holds1, of "length init"] by (auto simp: open_file_def ressimps)
  then have same: "open_segment dir1 (of_nat (length init)) = dir1" by (auto simp: open_segment_def)
  define wal where "wal = \<lparr>wal_options = options, wal_active_id = of_nat (length init),
    wal_active_len = of_nat (length (seg_bytes crc (fits k rs))), wal_total_len = of_nat ?total,
    wal_poisoned = False\<rparr>"
  have "wal_open crc False options dir = Inr (wal, dir1)"
    using valid recovered total fitting same
    by (simp add: wal_open_def wal_def Let_def flip: dir0_def)
  moreover have "wal_inv crc (wal, dir1) ?rss"
    using holds1 segs_ok_fits [OF ok] valid small full by (simp add: wal_inv_def wal_def)
  ultimately show ?thesis using recs by (intro exI [of _ "(wal, dir1)"] exI [of _ ?rss]) (simp add: wal_def)
qed

lemma recoverable_inv:
  assumes "wal_inv crc state rss"
  shows "recoverable crc (wal_options (fst state)) (snd state) (concat rss)"
proof -
  from assms have split: "rss = butlast rss @ [last rss]" by (simp add: wal_inv_def)
  define init rs where "init = butlast rss" and "rs = last rss"
  have rss: "rss = init @ [rs]" using split by (simp add: init_def rs_def)
  show ?thesis
    unfolding recoverable_def
    using assms unfolding rss wal_inv_def
    by (intro exI [of _ init] exI [of _ rs] exI [of _ "length (seg_bytes crc rs)"])
      (auto simp: fits_all)
qed

text \<open>A power failure that loses the end of the last segment loses the last records, no others.\<close>

lemma recoverable_cut:
  assumes "recoverable crc options dir recs" "dir_holds dir (files @ [content])"
  shows "\<exists>recs' lost. recoverable crc options
      (AList.update (segment_path (of_nat (length files))) (take j content) dir) recs' \<and>
    recs = recs' @ lost"
proof -
  from assms(1) obtain init rs k where holds:
      "dir_holds dir (map (seg_bytes crc) init @ [take k (seg_bytes crc rs)])"
    and k: "k \<le> length (seg_bytes crc rs)" and ok: "segs_ok crc options (init @ [rs])"
    and full: "[] \<notin> set init" and size: "size_of (map (seg_bytes crc) init) + k \<le> unat (max_size options)"
    and recs: "recs = concat init @ fits k rs"
    unfolding recoverable_def by blast
  from holds_unique [OF assms(2) holds] have content: "content = take k (seg_bytes crc rs)"
    and files: "files = map (seg_bytes crc) init" by auto
  have "dir_holds (AList.update (segment_path (of_nat (length files))) (take j content) dir)
      (map (seg_bytes crc) init @ [take (min j k) (seg_bytes crc rs)])"
    using holds_update [OF assms(2), of "length files" "take j content"] content files
    by (simp add: list_update_append)
  then have "recoverable crc options
      (AList.update (segment_path (of_nat (length files))) (take j content) dir)
      (concat init @ fits (min j k) rs)"
    unfolding recoverable_def
    using k ok full size
    by (intro exI [of _ init] exI [of _ rs] exI [of _ "min j k"]) auto
  moreover obtain lost where "fits k rs = fits (min j k) rs @ lost"
    using fits_mono [of "min j k" k rs] by auto
  ultimately show ?thesis using recs by fastforce
qed

section \<open>Appending\<close>

lemma seg_bytes_not_empty: "rs \<noteq> [] \<Longrightarrow> 32 \<le> length (seg_bytes crc rs)"
  by (cases rs) auto

lemma size_of_segments:
  "[] \<notin> set rss \<Longrightarrow> 32 * length rss \<le> size_of (map (seg_bytes crc) rss)"
proof (induction rss)
  case (Cons rs rss)
  then show ?case using seg_bytes_not_empty [of rs crc] by auto
qed simp

lemma wal_inv_split:
  assumes "wal_inv crc state rss"
  obtains init rs where "rss = init @ [rs]"
  using assms by (metis append_butlast_last_id wal_inv_def)

lemma segment_count:
  assumes "wal_inv crc state rss"
  shows "Suc (length rss) < 18446744073709551616"
proof -
  from assms obtain init rs where rss: "rss = init @ [rs]" by (rule wal_inv_split)
  have "32 * length init \<le> unat (max_size (wal_options (fst state)))"
    using assms size_of_segments [of init crc] by (simp add: wal_inv_def rss)
  then show ?thesis using unat_lt_2p64 [of "max_size (wal_options (fst state))"] rss by simp
qed

lemma rotate_new_segment:
  assumes inv: "wal_inv crc (wal, dir) rss" and "last rss \<noteq> []"
  shows "wal_inv crc (wal\<lparr>wal_active_id := wal_active_id wal + 1, wal_active_len := 0\<rparr>,
    open_segment dir (wal_active_id wal + 1)) (rss @ [[]])"
proof -
  from inv obtain init rs where rss: "rss = init @ [rs]" by (rule wal_inv_split)
  have ident: "wal_active_id wal + 1 = of_nat (length (map (seg_bytes crc) rss))"
    using inv by (simp add: wal_inv_def rss)
  have holds: "dir_holds dir (map (seg_bytes crc) rss)" using inv by (simp add: wal_inv_def)
  have count: "Suc (length (map (seg_bytes crc) rss)) < 18446744073709551616"
    using segment_count [OF inv] by simp
  note new = holds_extend(1) [OF holds count, of "[]"] holds_extend(2) [OF holds count]
  then show ?thesis
    using inv assms(2) unfolding ident
    by (auto simp: wal_inv_def open_segment_def segs_ok_def rss butlast_append)
qed

lemma wal_inv_active:
  assumes inv: "wal_inv crc (wal, dir) rss"
  shows "length (seg_bytes crc (last rss)) \<le> unat (segment_size (wal_options wal))"
    and "unat (wal_active_len wal) = length (seg_bytes crc (last rss))"
    and "checked_add (wal_active_id wal) 1 = Some (wal_active_id wal + 1)"
    and "\<not> wal_poisoned wal"
proof -
  show L: "length (seg_bytes crc (last rss)) \<le> unat (segment_size (wal_options wal))"
    using inv by (auto simp: wal_inv_def segs_ok_def)
  show "unat (wal_active_len wal) = length (seg_bytes crc (last rss))"
    using inv seg_len_u64 [OF L] by (simp add: wal_inv_def)
  have "wal_active_id wal = of_nat (length rss - 1)" "length rss - 1 < 18446744073709551615"
    using inv segment_count [OF inv] by (auto simp: wal_inv_def)
  then have "wal_active_id wal \<noteq> u64_max" by (simp add: u64_neq_max_iff unat_of_nat_u64)
  then show "checked_add (wal_active_id wal) 1 = Some (wal_active_id wal + 1)"
    by (simp add: checked_add_alt u64_neq_max_iff)
  show "\<not> wal_poisoned wal" using inv by (simp add: wal_inv_def)
qed

lemma rotate_cases:
  assumes inv: "wal_inv crc (wal, dir) rss" and n: "n \<le> unat (segment_size (wal_options wal))"
  obtains (failed) e wal1 where "rotate_if_needed sf n (wal, dir) = (Inl e, wal1, dir)"
      "wal1 = wal \<or> wal_poisoned wal1 \<and> wal_options wal1 = wal_options wal"
  | (ready) wal1 dir1 rss1 where "rotate_if_needed sf n (wal, dir) = (Inr (), wal1, dir1)"
      "wal_inv crc (wal1, dir1) rss1" "concat rss1 = concat rss"
      "size_of (map (seg_bytes crc) rss1) = size_of (map (seg_bytes crc) rss)"
      "length (seg_bytes crc (last rss1)) + n \<le> unat (segment_size (wal_options wal))"
      "wal_options wal1 = wal_options wal"
proof -
  let ?limit = "segment_size (wal_options wal)"
  let ?L = "length (seg_bytes crc (last rss))"
  note active = wal_inv_active [OF inv]
  have lt: "unat ?limit < 18446744073709551616" by (rule unat_lt_2p64)
  have small: "u64_try_from n = Some (of_nat n)" "\<not> of_nat n > ?limit"
    using n lt by (simp_all add: u64_try_from_alt word_less_nat_alt unat_of_nat_u64)
  show thesis
  proof (cases "checked_add (wal_active_len wal) (of_nat n)")
    case None
    then show thesis using failed small by (simp add: rotate_if_needed_def)
  next
    case (Some next_len)
    then have sum: "unat next_len = ?L + n"
      using checked_add_SomeD [OF Some] active(2) n lt by (simp add: unat_of_nat_u64)
    show thesis
    proof (cases "wal_active_len wal \<noteq> 0 \<and> next_len > ?limit")
      case False
      then have "?L + n \<le> unat ?limit"
        using sum active(2) n by (auto simp: word_less_nat_alt)
      moreover have "rotate_if_needed sf n (wal, dir) = (Inr (), wal, dir)"
        using small Some False by (auto simp: rotate_if_needed_def)
      ultimately show thesis using ready inv by blast
    next
      case True
      then have "last rss \<noteq> []" using active(2) by (auto simp: unat_eq_0)
      note new = rotate_new_segment [OF inv this]
      show thesis
      proof (cases sf)
        case sync: True
        then show thesis
          using failed small Some True active(4)
          by (simp add: rotate_if_needed_def wal_sync_def wal_ensure_healthy_def)
      next
        case sync: False
        then have "rotate_if_needed sf n (wal, dir) =
            (Inr (), wal\<lparr>wal_active_id := wal_active_id wal + 1, wal_active_len := 0\<rparr>,
             open_segment dir (wal_active_id wal + 1))"
          using small Some True active(3,4)
          by (simp add: rotate_if_needed_def wal_sync_def wal_ensure_healthy_def)
        then show thesis by (rule ready [OF _ new]) (use n in simp_all)
      qed
    qed
  qed
qed

text \<open>The file of the active segment after some first bytes of a record have been written.\<close>

lemma append_holds:
  assumes inv: "wal_inv crc (wal, dir) (init @ [rs])"
  shows "dir_holds (append_to_file (segment_path (wal_active_id wal)) (take k (encoded crc r)) dir)
    (map (seg_bytes crc) init @ [take (length (seg_bytes crc rs) + k) (seg_bytes crc (rs @ [r]))])"
proof -
  have holds: "dir_holds dir (map (seg_bytes crc) init @ [seg_bytes crc rs])"
    and ident: "wal_active_id wal = of_nat (length init)"
    using inv by (simp_all add: wal_inv_def)
  have "map_of dir (segment_path (of_nat (length init))) = Some (seg_bytes crc rs)"
    using holds_open [OF holds, of "length init"] by (simp add: open_file_def ressimps nth_append)
  then show ?thesis
    using holds_update [OF holds, of "length init" "seg_bytes crc rs @ take k (encoded crc r)"] ident
    by (simp add: append_to_file_def list_update_append)
qed

lemma append_recoverable:
  assumes inv: "wal_inv crc (wal, dir) (init @ [rs])" and ok: "wal_record_ok r"
    and seg: "length (seg_bytes crc (rs @ [r])) \<le> unat (segment_size (wal_options wal))"
    and total: "size_of (map (seg_bytes crc) (init @ [rs @ [r]])) \<le> unat (max_size (wal_options wal))"
  shows "recoverable crc (wal_options wal)
    (append_to_file (segment_path (wal_active_id wal)) (take k (encoded crc r)) dir)
    (concat init @ rs @ (if length (encoded crc r) \<le> k then [r] else []))"
proof -
  let ?j = "length (seg_bytes crc rs) + min k (length (encoded crc r))"
  have "take k (encoded crc r) = take (min k (length (encoded crc r))) (encoded crc r)"
    by (metis min.commute take_all_iff take_take le_refl)
  then have "dir_holds (append_to_file (segment_path (wal_active_id wal)) (take k (encoded crc r)) dir)
      (map (seg_bytes crc) init @ [take ?j (seg_bytes crc (rs @ [r]))])"
    using append_holds [OF inv, of "min k (length (encoded crc r))" r] by simp
  moreover have "fits ?j (rs @ [r]) = rs @ (if length (encoded crc r) \<le> k then [r] else [])"
    using fits_append [of crc rs "min k (length (encoded crc r))" "[r]"] by auto
  ultimately show ?thesis
    unfolding recoverable_def
    using inv ok seg total
    by (intro exI [of _ init] exI [of _ "rs @ [r]"] exI [of _ ?j])
      (auto simp: wal_inv_def segs_ok_def)
qed

lemma append_written_inv:
  assumes inv: "wal_inv crc (wal, dir) (init @ [rs])" and ok: "wal_record_ok r"
    and seg: "length (seg_bytes crc (rs @ [r])) \<le> unat (segment_size (wal_options wal))"
    and total: "size_of (map (seg_bytes crc) (init @ [rs @ [r]])) \<le> unat (max_size (wal_options wal))"
  shows "wal_inv crc (wal\<lparr>wal_active_len := of_nat (length (seg_bytes crc (rs @ [r]))),
      wal_total_len := of_nat (size_of (map (seg_bytes crc) (init @ [rs @ [r]])))\<rparr>,
    append_to_file (segment_path (wal_active_id wal)) (encoded crc r) dir) (init @ [rs @ [r]])"
  using assms append_holds [OF inv, of "length (encoded crc r)" r]
  by (auto simp: wal_inv_def segs_ok_def)

lemma checked_add_len_of_nat:
  "a + n < 18446744073709551616 \<Longrightarrow> checked_add_len (of_nat a) n = Inr (of_nat (a + n))"
  by (simp add: checked_add_len_def u64_try_from_alt checked_add_alt unat_of_nat_u64)

lemma checked_add_len_InrD:
  assumes "checked_add_len (of_nat a) n = Inr t" "a < 18446744073709551616"
  shows "unat t = a + n" "t = of_nat (a + n)"
  using assms
  by (auto simp: checked_add_len_def u64_try_from_alt checked_add_alt unat_of_nat_u64 unat_add_u64
      ressimps split: if_splits)

lemma rotate_too_large:
  assumes "\<not> n \<le> unat (segment_size (wal_options wal))"
  shows "\<exists>e. rotate_if_needed sf n (wal, dir) = (Inl e, wal, dir)"
  using assms
  by (auto simp: rotate_if_needed_def u64_try_from_alt word_less_nat_alt unat_of_nat_u64 Let_def)

text \<open>What \<open>append\<close> does after its checks, once there is room in the active segment.\<close>

lemma wal_append_ready:
  assumes inv: "wal_inv crc (wal1, dir1) (init @ [rs])"
    and pre: "\<not> wal_poisoned wal" "int (length payload) < 4294967296"
      "checked_add_len (wal_total_len wal) (32 + length payload) = Inr next_total"
      "\<not> next_total > max_size (wal_options wal)"
    and rotated: "rotate_if_needed (rotate_sync_fails faults) (32 + length payload) (wal, dir) =
      (Inr (), wal1, dir1)"
    and seg: "length (seg_bytes crc rs) + (32 + length payload) \<le> unat (segment_size (wal_options wal1))"
    and r: "r = \<lparr>wr_kind = kind, wr_payload = payload\<rparr>"
    and wal2: "wal2 = wal1\<lparr>wal_active_len := of_nat (length (seg_bytes crc (rs @ [r]))),
      wal_total_len := next_total\<rparr>"
  shows "wal_append crc faults kind payload (wal, dir) =
    (let name = segment_path (wal_active_id wal1) in
     case torn_write faults of
       Some k \<Rightarrow> (Inl (Io name), wal1\<lparr>wal_poisoned := True\<rparr>,
                  append_to_file name (take k (encoded crc r)) dir1)
     | None \<Rightarrow>
        (if sync_on_append (wal_options wal1) \<and> append_sync_fails faults
         then (Inl (Io name), wal2\<lparr>wal_poisoned := True\<rparr>, append_to_file name (encoded crc r) dir1)
         else (Inr \<lparr>lsn_segment_id = wal_active_id wal1, lsn_offset = wal_active_len wal1\<rparr>,
               wal2, append_to_file name (encoded crc r) dir1)))"
proof -
  let ?n = "32 + length payload"
  have active: "wal_active_len wal1 = of_nat (length (seg_bytes crc rs))" "\<not> wal_poisoned wal1"
    using inv by (simp_all add: wal_inv_def)
  have "length (seg_bytes crc rs) + ?n < 18446744073709551616"
    using seg unat_lt_2p64 [of "segment_size (wal_options wal1)"] by linarith
  then have len: "checked_add_len (wal_active_len wal1) ?n =
      Inr (of_nat (length (seg_bytes crc (rs @ [r]))))"
    using checked_add_len_of_nat [of "length (seg_bytes crc rs)" ?n] active(1) by (simp add: r)
  show ?thesis
    using pre rotated active(2) len
    by (simp add: wal_append_def wal_ensure_healthy_def encoded_len_eq encode_record_eq
        write_or_poison_def wal_sync_def Let_def r wal2 split: option.splits)
qed

definition append_outcome ::
    "(bytes \<Rightarrow> u32) \<Rightarrow> Faults \<Rightarrow> WalRecord \<Rightarrow> Wal \<times> Dir \<Rightarrow> WalRecord list list
      \<Rightarrow> WalError + Lsn \<Rightarrow> Wal \<times> Dir \<Rightarrow> bool" where
  "append_outcome crc faults r state rss answer state' \<longleftrightarrow>
     (let (wal, dir) = state; name = segment_path (wal_active_id wal);
          rss' = butlast rss @ [last rss @ [r]];
          wal2 = wal\<lparr>wal_active_len := of_nat (length (seg_bytes crc (last rss'))),
            wal_total_len := of_nat (size_of (map (seg_bytes crc) rss'))\<rparr>
      in (answer, state') = (case torn_write faults of
           Some k \<Rightarrow> (Inl (Io name), wal\<lparr>wal_poisoned := True\<rparr>,
                      append_to_file name (take k (encoded crc r)) dir)
         | None \<Rightarrow>
            (if sync_on_append (wal_options wal) \<and> append_sync_fails faults
             then (Inl (Io name), wal2\<lparr>wal_poisoned := True\<rparr>, append_to_file name (encoded crc r) dir)
             else (Inr \<lparr>lsn_segment_id = wal_active_id wal, lsn_offset = wal_active_len wal\<rparr>,
                   wal2, append_to_file name (encoded crc r) dir))))"

lemma append_outcome_cases:
  assumes out: "append_outcome crc faults r (wal, dir) (init @ [rs]) answer (wal', dir')"
    and inv: "wal_inv crc (wal, dir) (init @ [rs])" and ok: "wal_record_ok r"
    and seg: "length (seg_bytes crc (rs @ [r])) \<le> unat (segment_size (wal_options wal))"
    and total: "size_of (map (seg_bytes crc) (init @ [rs @ [r]])) \<le> unat (max_size (wal_options wal))"
  shows "(\<exists>e recs. answer = Inl e \<and> wal_poisoned wal' \<and> wal_options wal' = wal_options wal \<and>
      recs \<in> {concat init @ rs, concat init @ rs @ [r]} \<and>
      recoverable crc (wal_options wal) dir' recs) \<or>
    (\<exists>lsn. answer = Inr lsn \<and> wal_inv crc (wal', dir') (init @ [rs @ [r]]) \<and>
      wal_options wal' = wal_options wal)"
proof -
  note rec = append_recoverable [OF inv ok seg total]
  consider (torn) k where "torn_write faults = Some k"
    | (unsynced) "torn_write faults = None" "sync_on_append (wal_options wal)" "append_sync_fails faults"
    | (written) "torn_write faults = None"
        "\<not> (sync_on_append (wal_options wal) \<and> append_sync_fails faults)"
    by (cases "torn_write faults") auto
  then show ?thesis
  proof cases
    case torn
    then show ?thesis using out rec [of k] by (auto simp: append_outcome_def Let_def split: if_splits)
  next
    case unsynced
    then show ?thesis
      using out rec [of "length (encoded crc r)"] by (auto simp: append_outcome_def Let_def)
  next
    case written
    then show ?thesis
      using out append_written_inv [OF inv ok seg total] by (auto simp: append_outcome_def Let_def)
  qed
qed

lemma wal_append_room:
  assumes inv: "wal_inv crc (wal, dir) rss" and kind: "kind_get kind \<noteq> 0"
    and r: "r = \<lparr>wr_kind = kind, wr_payload = payload\<rparr>"
    and run: "wal_append crc faults kind payload (wal, dir) = (answer, wal', dir')"
    and pre: "\<not> wal_poisoned wal" "int (length payload) < 4294967296"
      "checked_add_len (wal_total_len wal) (32 + length payload) = Inr next_total"
      "\<not> next_total > max_size (wal_options wal)"
    and rotated: "rotate_if_needed (rotate_sync_fails faults) (32 + length payload) (wal, dir) =
      (Inr (), wal1, dir1)"
    and inv1: "wal_inv crc (wal1, dir1) (init @ [rs])"
    and same: "concat (init @ [rs]) = concat rss" "wal_options wal1 = wal_options wal"
      "size_of (map (seg_bytes crc) (init @ [rs])) = size_of (map (seg_bytes crc) rss)"
    and room1: "length (seg_bytes crc rs) + (32 + length payload)
      \<le> unat (segment_size (wal_options wal1))"
  shows "(\<exists>e recs. answer = Inl e \<and> wal_poisoned wal' \<and> wal_options wal' = wal_options wal \<and>
      recs \<in> {concat rss, concat rss @ [r]} \<and> recoverable crc (wal_options wal) dir' recs) \<or>
    (\<exists>lsn rss'. answer = Inr lsn \<and> wal_inv crc (wal', dir') rss' \<and>
      concat rss' = concat rss @ [r] \<and> wal_options wal' = wal_options wal)"
proof -
  let ?n = "32 + length payload"
  let ?T = "size_of (map (seg_bytes crc) rss)"
  have lt: "?T < 18446744073709551616" and T: "wal_total_len wal = of_nat ?T"
    using inv unat_lt_2p64 [of "max_size (wal_options wal)"] by (simp_all add: wal_inv_def)
  have total: "unat next_total = ?T + ?n" "next_total = of_nat (?T + ?n)"
    using checked_add_len_InrD [OF pre(3) [unfolded T] lt] by blast+
  have sum: "size_of (map (seg_bytes crc) (init @ [rs @ [r]])) = ?T + ?n"
    using same(3) by (simp add: r)
  have fitting: "wal_record_ok r"
      "length (seg_bytes crc (rs @ [r])) \<le> unat (segment_size (wal_options wal1))"
      "size_of (map (seg_bytes crc) (init @ [rs @ [r]])) \<le> unat (max_size (wal_options wal1))"
    using pre kind room1 same(2) total sum by (simp_all add: r wal_record_ok_def word_less_nat_alt)
  have next_total: "next_total = of_nat (size_of (map (seg_bytes crc) (init @ [rs @ [r]])))"
    unfolding sum by (rule total(2))
  have out: "append_outcome crc faults r (wal1, dir1) (init @ [rs]) answer (wal', dir')"
    unfolding append_outcome_def Let_def prod.case butlast_snoc last_snoc
    using trans [OF run [symmetric] wal_append_ready [OF inv1 pre rotated room1 r refl]]
    unfolding next_total Let_def .
  have recs: "concat init @ rs = concat rss" "concat init @ rs @ [r] = concat rss @ [r]"
    using same(1) by (auto simp flip: append_assoc)
  show ?thesis
    using append_outcome_cases [OF out inv1 fitting] unfolding same(2) recs
    by (metis concat_append concat.simps append_Nil2 recs(2))
qed

text \<open>
  Every append to a log in order either leaves it as it is, or poisons the handle, with a directory
  that recovers to the same records or one more, or succeeds, and the log is in order with the new
  record as its last.
\<close>

lemma wal_append_cases:
  assumes inv: "wal_inv crc (wal, dir) rss" and kind: "kind_get kind \<noteq> 0"
    and r: "r = \<lparr>wr_kind = kind, wr_payload = payload\<rparr>"
    and run: "wal_append crc faults kind payload (wal, dir) = (answer, wal', dir')"
  obtains (refused) e where "answer = Inl e" "wal' = wal" "dir' = dir"
  | (poisoned) e recs where "answer = Inl e" "wal_poisoned wal'"
      "wal_options wal' = wal_options wal" "recs \<in> {concat rss, concat rss @ [r]}"
      "recoverable crc (wal_options wal) dir' recs"
  | (appended) lsn rss' where "answer = Inr lsn" "wal_inv crc (wal', dir') rss'"
      "wal_options wal' = wal_options wal" "concat rss' = concat rss @ [r]"
proof -
  let ?n = "32 + length payload"
  note checks = wal_append_def wal_ensure_healthy_def encoded_len_eq
  have healthy: "\<not> wal_poisoned wal" using inv by (simp add: wal_inv_def)
  consider (fails) "\<not> int (length payload) < 4294967296 \<or>
        (\<exists>e. checked_add_len (wal_total_len wal) ?n = Inl e) \<or>
        (\<exists>t. checked_add_len (wal_total_len wal) ?n = Inr t \<and> t > max_size (wal_options wal)) \<or>
        \<not> ?n \<le> unat (segment_size (wal_options wal))"
    | (room) next_total where "int (length payload) < 4294967296"
        "checked_add_len (wal_total_len wal) ?n = Inr next_total"
        "\<not> next_total > max_size (wal_options wal)"
        "?n \<le> unat (segment_size (wal_options wal))"
    by (cases "checked_add_len (wal_total_len wal) ?n") auto
  then show thesis
  proof cases
    case fails
    then have "\<exists>e. wal_append crc faults kind payload (wal, dir) = (Inl e, wal, dir)"
      using healthy rotate_too_large [of ?n wal "rotate_sync_fails faults" dir]
      by (cases "int (length payload) < 4294967296";
          cases "checked_add_len (wal_total_len wal) ?n") (auto simp: checks)
    then show thesis using refused run by auto
  next
    case room
    note pre = healthy room(1-3)
    from inv room(4) show thesis
    proof (cases rule: rotate_cases [where sf = "rotate_sync_fails faults"])
      case (failed e wal1)
      then have "answer = Inl e" "wal' = wal1" "dir' = dir" using run pre by (auto simp: checks)
      then show thesis using failed(2) refused poisoned recoverable_inv [OF inv] by auto
    next
      case (ready wal1 dir1 rss1)
      from ready(2) obtain init rs where rss1: "rss1 = init @ [rs]" by (rule wal_inv_split)
      have "length (seg_bytes crc rs) + ?n \<le> unat (segment_size (wal_options wal1))"
        using ready(5,6) rss1 by simp
      from wal_append_room [OF inv kind r run pre ready(1) ready(2) [unfolded rss1]
          ready(3) [unfolded rss1] ready(6) ready(4) [unfolded rss1] this]
      show thesis using poisoned appended by blast
    qed
  qed
qed

section \<open>Acknowledged records survive\<close>

text \<open>A sequence of appends, each with the faults that befall it, and the records of those that
  were answered with a position.\<close>

type_synonym append_op = "Faults \<times> RecordKind \<times> bytes"

fun wal_run ::
    "(bytes \<Rightarrow> u32) \<Rightarrow> append_op list \<Rightarrow> Wal \<times> Dir \<Rightarrow> (WalError + Lsn) list \<times> Wal \<times> Dir" where
  "wal_run crc [] state = ([], state)"
| "wal_run crc ((faults, kind, payload) # ops) state =
     (let (answer, state1) = wal_append crc faults kind payload state;
          (answers, state2) = wal_run crc ops state1
      in (answer # answers, state2))"

fun acked :: "append_op list \<Rightarrow> (WalError + Lsn) list \<Rightarrow> WalRecord list" where
  "acked ((faults, kind, payload) # ops) (answer # answers) =
     (case answer of
        Inl e \<Rightarrow> acked ops answers
      | Inr lsn \<Rightarrow> \<lparr>wr_kind = kind, wr_payload = payload\<rparr> # acked ops answers)"
| "acked _ _ = []"

lemma wal_run_poisoned:
  "\<lbrakk>wal_poisoned (fst state); wal_run crc ops state = (answers, state')\<rbrakk> \<Longrightarrow>
   state' = state \<and> acked ops answers = []"
proof (induction ops arbitrary: answers state')
  case (Cons op ops)
  obtain faults kind payload where op: "op = (faults, kind, payload)" by (cases op)
  have refused: "wal_append crc faults kind payload state = (Inl Poisoned, state)"
    using Cons.prems(1) by (cases state) (simp add: wal_append_def wal_ensure_healthy_def)
  then obtain answers0 where run: "wal_run crc ops state = (answers0, state')"
      and answers: "answers = Inl Poisoned # answers0"
    using Cons.prems(2) op by (auto split: prod.splits)
  from Cons.IH [OF Cons.prems(1) run] show ?case using op answers by simp
qed simp

definition in_flight :: "append_op list \<Rightarrow> WalRecord list \<Rightarrow> bool" where
  "in_flight ops rest \<longleftrightarrow> rest = [] \<or> (\<exists>(faults, kind, payload) \<in> set ops.
     rest = [\<lparr>wr_kind = kind, wr_payload = payload\<rparr>])"

lemma in_flight_Cons: "in_flight ops rest \<Longrightarrow> in_flight (op # ops) rest"
  by (auto simp: in_flight_def)

lemma wal_run_recoverable:
  assumes "wal_inv crc (wal, dir) rss" "list_all (\<lambda>(_, kind, _). kind_get kind \<noteq> 0) ops"
    and "wal_run crc ops (wal, dir) = (answers, wal', dir')"
  shows "\<exists>rest. in_flight ops rest \<and>
    recoverable crc (wal_options wal) dir' (concat rss @ acked ops answers @ rest)"
  using assms
proof (induction ops arbitrary: wal dir rss answers)
  case Nil
  then show ?case using recoverable_inv [of crc "(wal, dir)" rss] by (simp add: in_flight_def)
next
  case (Cons op ops)
  obtain faults kind payload where op: "op = (faults, kind, payload)" by (cases op)
  obtain answer wal1 dir1 where step: "wal_append crc faults kind payload (wal, dir) =
      (answer, wal1, dir1)" by (cases "wal_append crc faults kind payload (wal, dir)") auto
  with Cons.prems(3) op obtain answers1 where answers: "answers = answer # answers1"
      and run: "wal_run crc ops (wal1, dir1) = (answers1, wal', dir')"
    by (auto split: prod.splits)
  have kinds: "kind_get kind \<noteq> 0" "list_all (\<lambda>(_, kind, _). kind_get kind \<noteq> 0) ops"
    using Cons.prems(2) op by auto
  from Cons.prems(1) kinds(1) refl step show ?case
  proof (cases rule: wal_append_cases)
    case (refused e)
    then have "wal_run crc ops (wal, dir) = (answers1, wal', dir')" using run by simp
    from Cons.IH [OF Cons.prems(1) kinds(2) this] show ?thesis
      using answers op refused in_flight_Cons by fastforce
  next
    case (poisoned e recs)
    have "dir' = dir1 \<and> acked ops answers1 = []"
      using wal_run_poisoned [OF _ run] poisoned(2) by simp
    then show ?thesis
      using poisoned answers op by (auto simp: in_flight_def)
  next
    case (appended lsn rss')
    from Cons.IH [OF appended(2) kinds(2) run] obtain rest where
      "in_flight ops rest"
      "recoverable crc (wal_options wal) dir' (concat rss' @ acked ops answers1 @ rest)"
      using appended(3) by auto
    then show ?thesis using answers op appended in_flight_Cons by fastforce
  qed
qed

lemma wal_open_fresh:
  assumes "dir_holds dir []" "validate_options options = Inr ()"
  shows "\<exists>state. wal_open crc False options dir = Inr state \<and> wal_inv crc state [[]] \<and>
    wal_options (fst state) = options"
proof -
  define dir0 where "dir0 = (if map_of dir LOCK_FILE = None then AList.update LOCK_FILE [] dir else dir)"
  define dir1 where "dir1 = AList.update (segment_path 0) [] dir0"
  have holds0: "dir_holds dir0 []"
    using assms(1) holds_other [OF assms(1) lock_file_no_segment] by (simp add: dir0_def)
  then have holds1: "dir_holds dir1 [[]]" using holds_extend(1) [OF holds0] by (simp add: dir1_def)
  have "recover crc dir0 (segment_size options) = Inr ((0, 0), dir1)"
  proof -
    have "open_file dir1 (segment_path 0) = Inr []" using holds_open [OF holds1, of 0] by simp
    then have "valid_len crc dir1 0 (segment_size options) = Inr (Clean 0)"
      using valid_len_complete [of dir1 0 crc "[]"] by simp
    then show ?thesis
      using segment_ids_holds [OF holds0] by (simp add: recover_def flip: dir1_def)
  qed
  moreover have "total_len dir1 = Inr 0" using total_len_holds [OF holds1] by simp
  moreover have "open_segment dir1 0 = dir1"
    using holds_open [OF holds1, of 0] by (auto simp: open_segment_def open_file_def ressimps)
  ultimately have "wal_open crc False options dir =
      Inr (\<lparr>wal_options = options, wal_active_id = 0, wal_active_len = 0, wal_total_len = 0,
        wal_poisoned = False\<rparr>, dir1)"
    using assms(2) by (simp add: wal_open_def Let_def flip: dir0_def)
  then show ?thesis using holds1 assms(2) by (simp add: wal_inv_def segs_ok_def)
qed

lemma dir_holds_empty [simp]: "dir_holds [] []"
  by (simp add: dir_holds_def)

lemma wal_open_valid: "wal_open crc lock options dir = Inr state \<Longrightarrow> validate_options options = Inr ()"
  by (auto simp: wal_open_def ressimps)


definition sample_options :: WalOptions where
  "sample_options = \<lparr>segment_size = 64, max_size = 256, sync_on_append = True\<rparr>"

definition sample_ops :: "append_op list" where
  "sample_ops = [(no_faults, RecordKind 1, [7]), (no_faults, RecordKind 1, [8, 9]),
     (no_faults\<lparr>torn_write := Some 20\<rparr>, RecordKind 1, [10])]"


text \<open>
  The name of a segment file is not checked to be the one that \<open>segment_path\<close> gives to its number:
  a file \<open>0.wal\<close> counts as segment zero, and opening the directory fails with a missing file
  instead of reporting the malformed name.
\<close>

lemma noncanonical_name_accepted:
  "segment_id ''0.wal'' = Inr 0 \<and> segment_path 0 \<noteq> ''0.wal'' \<and>
   wal_open crc False sample_options [(''0.wal'', [])] = Inl (Io (segment_path 0))"
proof -
  have names: "segment_id ''0.wal'' = Inr 0" "segment_path 0 = ''00000000000000000000.wal''"
    by code_simp+
  have ids: "segment_ids [(''0.wal'', []), (LOCK_FILE, [])] = Inr [0]" by code_simp
  have "wal_open crc False sample_options [(''0.wal'', [])] = Inl (Io (segment_path 0))"
    using ids
    by (simp add: wal_open_def validate_options_def sample_options_def HEADER_LEN_U64_def
        recover_def valid_len_def open_file_def names LOCK_FILE_def)
  then show ?thesis using names by simp
qed

section \<open>The log as a provider\<close>

text \<open>
  What a client of a log of records relies on: a scan yields the records it holds; an append that
  succeeds adds its record; and after an append, successful or not, a reopened log holds the
  records from before, with or without the new one. \<open>'f\<close> stands for the faults. What a client
  computes by folding over the scanned records follows.
\<close>

locale record_log =
  fixes holds :: "'s \<Rightarrow> 'r list \<Rightarrow> bool"
    and scan :: "'s \<Rightarrow> 'r list option"
    and append :: "'f \<Rightarrow> 'r \<Rightarrow> 's \<Rightarrow> bool \<times> 's"
    and reopen :: "'s \<Rightarrow> 's option"
    and valid :: "'r \<Rightarrow> bool"
  assumes scan_holds: "holds s rs \<Longrightarrow> scan s = Some rs"
    and append_holds_new: "\<lbrakk>holds s rs; valid r; append f r s = (True, s')\<rbrakk> \<Longrightarrow> holds s' (rs @ [r])"
    and append_then_reopen: "\<lbrakk>holds s rs; valid r; append f r s = (ok, s')\<rbrakk> \<Longrightarrow>
      \<exists>s'' rs'. reopen s' = Some s'' \<and> holds s'' rs' \<and> rs' \<in> {rs, rs @ [r]}"
    and reopen_holds: "holds s rs \<Longrightarrow> \<exists>s'. reopen s = Some s' \<and> holds s' rs"
begin

lemma replay_appended:
  assumes "holds s rs" "valid r" "append f r s = (True, s')" "fold_res step rs x = Inr y"
  shows "\<exists>rs'. scan s' = Some rs' \<and> fold_res step rs' x = step r y"
  using append_holds_new [OF assms(1-3)] scan_holds assms(4)
  by (auto simp: fold_res_append res_bind_def split: sum.splits)

lemma replay_reopened:
  assumes "holds s rs" "valid r" "append f r s = (ok, s')" "fold_res step rs x = Inr y"
  shows "\<exists>s'' rs'. reopen s' = Some s'' \<and> holds s'' rs' \<and> scan s'' = Some rs' \<and>
    fold_res step rs' x \<in> {Inr y, step r y}"
proof -
  obtain s'' rs' where re: "reopen s' = Some s''" "holds s'' rs'" "rs' \<in> {rs, rs @ [r]}"
    using append_then_reopen [OF assms(1-3)] by blast
  moreover have "fold_res step (rs @ [r]) x = step r y"
    using assms(4) by (auto simp: fold_res_append res_bind_def split: sum.splits)
  ultimately show ?thesis using assms(4) scan_holds by auto
qed

end

definition wal_holds ::
    "(bytes \<Rightarrow> u32) \<Rightarrow> WalOptions \<Rightarrow> Wal \<times> Dir \<Rightarrow> WalRecord list \<Rightarrow> bool" where
  "wal_holds crc options state recs \<longleftrightarrow>
     (\<exists>rss. wal_inv crc state rss \<and> concat rss = recs \<and> wal_options (fst state) = options)"

definition wal_scan :: "(bytes \<Rightarrow> u32) \<Rightarrow> Wal \<times> Dir \<Rightarrow> WalRecord list option" where
  "wal_scan crc state = (case wal_records crc state of
     Inl e \<Rightarrow> None
   | Inr items \<Rightarrow> those (map (\<lambda>item. case item of Inl e \<Rightarrow> None | Inr stored \<Rightarrow> Some (sr_record stored)) items))"

definition wal_append_ok ::
    "(bytes \<Rightarrow> u32) \<Rightarrow> Faults \<Rightarrow> WalRecord \<Rightarrow> Wal \<times> Dir \<Rightarrow> bool \<times> Wal \<times> Dir" where
  "wal_append_ok crc faults r state =
     (let (answer, state') = wal_append crc faults (wr_kind r) (wr_payload r) state
      in (\<not> isl answer, state'))"

definition wal_reopen :: "(bytes \<Rightarrow> u32) \<Rightarrow> WalOptions \<Rightarrow> Wal \<times> Dir \<Rightarrow> (Wal \<times> Dir) option" where
  "wal_reopen crc options state = (case wal_open crc False options (snd state) of
     Inl e \<Rightarrow> None | Inr state' \<Rightarrow> Some state')"

lemma those_Some: "those (map Some xs) = Some xs"
  by (induction xs) auto

lemma wal_scan_holds:
  assumes "wal_holds crc options state recs"
  shows "wal_scan crc state = Some recs"
proof -
  from assms obtain rss where inv: "wal_inv crc state rss" and recs: "recs = concat rss"
    by (auto simp: wal_holds_def)
  have "wal_scan crc state = those (map Some (map sr_record (stored_segments 0 rss)))"
    using wal_records_inv [OF inv]
    by (simp add: wal_scan_def comp_def del: stored_segments_records)
  then show ?thesis unfolding those_Some recs by simp
qed

lemma wal_reopen_holds:
  assumes "recoverable crc options (snd state) recs" "validate_options options = Inr ()"
  shows "\<exists>state'. wal_reopen crc options state = Some state' \<and> wal_holds crc options state' recs"
  using wal_open_recovers [OF assms] by (auto simp: wal_reopen_def wal_holds_def)

lemma wal_append_ok_step:
  assumes holds: "wal_holds crc options state recs" and valid: "kind_get (wr_kind r) \<noteq> 0"
    and run: "wal_append_ok crc faults r state = (ok, state')"
  shows "ok \<Longrightarrow> wal_holds crc options state' (recs @ [r])"
    and "\<exists>recs' \<in> {recs, recs @ [r]}. recoverable crc options (snd state') recs'"
proof -
  obtain wal dir wal' dir' answer rss where s: "state = (wal, dir)" "state' = (wal', dir')"
    and inv: "wal_inv crc (wal, dir) rss" "concat rss = recs" "wal_options wal = options"
    and app: "wal_append crc faults (wr_kind r) (wr_payload r) (wal, dir) = (answer, wal', dir')"
      "ok = (\<not> isl answer)"
    using holds run
    by (cases state, cases state') (auto simp: wal_holds_def wal_append_ok_def split: prod.splits)
  have r: "r = \<lparr>wr_kind = wr_kind r, wr_payload = wr_payload r\<rparr>" by simp
  from inv(1) valid r app(1) have "(ok \<longrightarrow> wal_holds crc options (wal', dir') (recs @ [r])) \<and>
      (\<exists>recs' \<in> {recs, recs @ [r]}. recoverable crc options dir' recs')"
  proof (cases rule: wal_append_cases)
    case (refused e)
    then show ?thesis using app(2) inv recoverable_inv [OF inv(1)] by auto
  next
    case (poisoned e recs')
    then show ?thesis using app(2) inv by auto
  next
    case (appended lsn rss')
    then show ?thesis
      using inv recoverable_inv [OF appended(2)] by (auto simp: wal_holds_def)
  qed
  then show "ok \<Longrightarrow> wal_holds crc options state' (recs @ [r])"
    and "\<exists>recs' \<in> {recs, recs @ [r]}. recoverable crc options (snd state') recs'"
    using s by simp_all
qed

interpretation wal: record_log "wal_holds crc options" "wal_scan crc" "wal_append_ok crc"
  "wal_reopen crc options" "\<lambda>r. kind_get (wr_kind r) \<noteq> 0" for crc options
proof unfold_locales
  show "wal_scan crc s = Some rs" if "wal_holds crc options s rs" for s rs
    using that by (rule wal_scan_holds)
  show "wal_holds crc options s' (rs @ [r])"
    if "wal_holds crc options s rs" "kind_get (wr_kind r) \<noteq> 0" "wal_append_ok crc f r s = (True, s')"
    for s rs r f s'
    using wal_append_ok_step(1) [OF that] by simp
  have valid: "validate_options options = Inr ()" if "wal_holds crc options s rs" for s rs
    using that by (auto simp: wal_holds_def wal_inv_def)
  show "\<exists>s'' rs'. wal_reopen crc options s' = Some s'' \<and> wal_holds crc options s'' rs' \<and>
      rs' \<in> {rs, rs @ [r]}"
    if "wal_holds crc options s rs" "kind_get (wr_kind r) \<noteq> 0" "wal_append_ok crc f r s = (ok, s')"
    for s rs r f ok s'
    using wal_append_ok_step(2) [OF that] wal_reopen_holds valid [OF that(1)] by blast
  show "\<exists>s'. wal_reopen crc options s = Some s' \<and> wal_holds crc options s' rs"
    if "wal_holds crc options s rs" for s rs
    using that wal_reopen_holds [OF _ valid [OF that]] recoverable_inv
    by (fastforce simp: wal_holds_def)
qed

end
