(* ===== verification/Raft_Store.thy ===== *)
theory Raft_Store
  imports Raft_Core Wal_Log
begin

text \<open>
  Durable Raft state over the write-ahead log, \<open>cloud9-node/src/store.rs\<close>: each save appends a
  record with the hard state and the changed suffix of the Raft log, and recovery replays these
  deltas. The serialization of a delta by the crate \<open>serde_json\<close> is the pair of parameters
  \<open>enc\<close> and \<open>dec\<close>; what is relied on, and stated as a hypothesis where it is used, is that bytes
  that encode a delta decode to it. The write-ahead log is that of \<open>Wal_Log\<close>, with the faults of the
  operating system as arguments, and with its interface \<open>record_log\<close> in the proofs.
\<close>

section \<open>The store\<close>

datatype StoreError =
    StoreWal WalError
  | Encode
  | Decode
  | UnexpectedKind u16
  | TermRegression u64 u64
  | InvalidTruncation LogIndex LogIndex
  | NoncontiguousEntry LogIndex LogIndex
  | SnapshotUnsupported

record PersistentDelta =
  pd_term :: u64
  pd_voted_for :: "NodeId option"
  pd_bootstrap_config :: Configuration
  pd_truncate_after :: LogIndex
  pd_entries :: "Entry list"

record RaftStore =
  st_wal :: "Wal \<times> Dir"
  st_kind :: RecordKind
  st_durable :: Persistent

definition RAFT_STATE_KIND :: u16 where "RAFT_STATE_KIND = 1"

function (sequential) common_prefix_loop :: "Log \<Rightarrow> Log \<Rightarrow> LogIndex \<Rightarrow> LogIndex \<Rightarrow> LogIndex" where
  "common_prefix_loop durable current floor_index index =
     (if index > floor_index \<and> term_at durable index \<noteq> term_at current index
      then common_prefix_loop durable current floor_index (index - 1)
      else index)"
  by pat_completeness auto
termination
proof (relation "measure (\<lambda>(_, _, _, index). unat index)", simp)
  fix floor_index index :: LogIndex
  fix durable current :: Log
  assume "floor_index < index \<and> term_at durable index \<noteq> term_at current index"
  then have "0 < unat index" by (simp add: word_less_nat_alt)
  then have "unat (index - 1) < unat index" by (simp add: unat_diff_u64 word_le_nat_alt)
  then show "((durable, current, floor_index, index - 1), durable, current, floor_index, index)
      \<in> measure (\<lambda>(_, _, _, index). unat index)" by simp
qed

declare common_prefix_loop.simps [simp del]

definition common_prefix :: "Persistent \<Rightarrow> Persistent \<Rightarrow> LogIndex" where
  "common_prefix durable current =
     common_prefix_loop (p_log durable) (p_log current)
       (max (snapshot_index (p_log durable)) (snapshot_index (p_log current)))
       (min (last_index (p_log durable)) (last_index (p_log current)))"

text \<open>The delta that \<open>save\<close> writes; \<open>None\<close> is the panic of \<open>Log::slice\<close>.\<close>

definition save_delta :: "Persistent \<Rightarrow> Persistent \<Rightarrow> PersistentDelta option" where
  "save_delta durable current =
     (let truncate_at = common_prefix durable current in
      map_option (\<lambda>es. \<lparr>pd_term = p_term current, pd_voted_for = p_voted_for current,
          pd_bootstrap_config = p_bootstrap_config current,
          pd_truncate_after = truncate_at, pd_entries = es\<rparr>)
        (log_slice (p_log current) (truncate_at + 1) (last_index (p_log current))))"

definition store_save ::
    "(bytes \<Rightarrow> u32) \<Rightarrow> (PersistentDelta \<Rightarrow> bytes option) \<Rightarrow> Faults \<Rightarrow> bool \<Rightarrow> Persistent \<Rightarrow> RaftStore
      \<Rightarrow> ((StoreError + unit) \<times> RaftStore) option" where
  "store_save crc enc faults sync_fails current store =
     (if snapshot_index (p_log current) \<noteq> snapshot_index (p_log (st_durable store))
      then Some (Inl SnapshotUnsupported, store)
      else case save_delta (st_durable store) current of
        None \<Rightarrow> None
      | Some delta \<Rightarrow>
          Some (case enc delta of
             None \<Rightarrow> (Inl Encode, store)
           | Some payload \<Rightarrow>
              (case wal_append crc faults (st_kind store) payload (st_wal store) of
                 (Inl e, wal) \<Rightarrow> (Inl (StoreWal e), store\<lparr>st_wal := wal\<rparr>)
               | (Inr _, wal, dir) \<Rightarrow>
                  (case wal_sync sync_fails wal of
                     (Inl e, wal) \<Rightarrow> (Inl (StoreWal e), store\<lparr>st_wal := (wal, dir)\<rparr>)
                   | (Inr _, wal) \<Rightarrow>
                       (Inr (), store\<lparr>st_wal := (wal, dir), st_durable := current\<rparr>)))))"

definition append_delta_entry :: "Entry \<Rightarrow> Log \<Rightarrow> StoreError + Log" where
  "append_delta_entry entry l =
     (let expected = last_index l + 1 in
      if entry_index entry \<noteq> expected then Inl (NoncontiguousEntry expected (entry_index entry))
      else Inr (log_append entry l))"

definition apply_delta :: "PersistentDelta \<Rightarrow> Persistent \<Rightarrow> StoreError + Persistent" where
  "apply_delta delta state =
     (if pd_term delta < p_term state then Inl (TermRegression (p_term state) (pd_term delta))
      else if pd_truncate_after delta > last_index (p_log state)
      then Inl (InvalidTruncation (pd_truncate_after delta) (last_index (p_log state)))
      else
        res_bind (fold_res append_delta_entry (pd_entries delta)
          (truncate_after (pd_truncate_after delta) (p_log state))) (\<lambda>l.
        Inr \<lparr>p_term = pd_term delta, p_voted_for = pd_voted_for delta, p_log = l,
             p_bootstrap_config = pd_bootstrap_config delta\<rparr>))"

text \<open>One turn of the loop in \<open>recover\<close>, for a record that was read without error.\<close>

definition replay_record ::
    "(bytes \<Rightarrow> PersistentDelta option) \<Rightarrow> RecordKind \<Rightarrow> WalRecord \<Rightarrow> Persistent
      \<Rightarrow> StoreError + Persistent" where
  "replay_record dec kind r state =
     (if wr_kind r \<noteq> kind then Inl (UnexpectedKind (kind_get (wr_kind r)))
      else res_bind (ok_or Decode (dec (wr_payload r))) (\<lambda>delta. apply_delta delta state))"

definition store_recover ::
    "(bytes \<Rightarrow> u32) \<Rightarrow> (bytes \<Rightarrow> PersistentDelta option) \<Rightarrow> RaftStore \<Rightarrow> StoreError + RaftStore" where
  "store_recover crc dec store =
     res_bind (map_err StoreWal (wal_records crc (st_wal store))) (\<lambda>items.
     res_bind (fold_res (\<lambda>stored state.
         res_bind (map_err StoreWal stored) (\<lambda>stored.
           replay_record dec (st_kind store) (sr_record stored) state))
       items (st_durable store)) (\<lambda>durable.
     Inr (store\<lparr>st_durable := durable\<rparr>)))"

definition store_open ::
    "(bytes \<Rightarrow> u32) \<Rightarrow> (bytes \<Rightarrow> PersistentDelta option) \<Rightarrow> bool \<Rightarrow> Dir \<Rightarrow> Persistent
      \<Rightarrow> StoreError + RaftStore" where
  "store_open crc dec lock_held dir initial =
     res_bind (map_err StoreWal (wal_open crc lock_held wal_options_default dir)) (\<lambda>wal.
     res_bind (map_err StoreWal (record_kind_new RAFT_STATE_KIND)) (\<lambda>kind.
     store_recover crc dec \<lparr>st_wal = wal, st_kind = kind, st_durable = initial\<rparr>))"

section \<open>A delta replays to the saved state\<close>

text \<open>
  Two versions of a log agree up to every position at which their entries have the same term. This
  is the Log Matching property of Raft, between what a node saved before and what it saves now.
\<close>

definition versions_match :: "Entry list \<Rightarrow> Entry list \<Rightarrow> bool" where
  "versions_match xs ys \<longleftrightarrow> (\<forall>k < min (length xs) (length ys).
     entry_term (xs ! k) = entry_term (ys ! k) \<longrightarrow> take (Suc k) xs = take (Suc k) ys)"

definition succeeds :: "Persistent \<Rightarrow> Persistent \<Rightarrow> bool" where
  "succeeds durable current \<longleftrightarrow>
     wf_log (p_log durable) \<and> wf_log (p_log current) \<and>
     snapshot_index (p_log current) = snapshot_index (p_log durable) \<and>
     snapshot_term (p_log current) = snapshot_term (p_log durable) \<and>
     snapshot_config (p_log current) = snapshot_config (p_log durable) \<and>
     p_term durable \<le> p_term current \<and> last_index (p_log current) \<noteq> u64_max \<and>
     versions_match (entries (p_log durable)) (entries (p_log current))"

lemma term_at_nth:
  assumes "wf_log l" "k < length (entries l)"
  shows "term_at l (snapshot_index l + of_nat (Suc k)) = entry_term (entries l ! k)"
  using term_at_split [OF assms(1), of "take k (entries l)"] id_take_nth_drop [OF assms(2)] assms(2)
  by simp

lemma position_less:
  assumes "wf_log l" "k < length (entries l)"
  shows "snapshot_index l < snapshot_index l + of_nat (Suc k)"
  using unat_position [OF assms(1), of "Suc k"] assms(2) by (simp add: word_less_nat_alt)

lemma common_prefix_loop_stops:
  assumes "wf_log d" "wf_log c" "snapshot_index c = snapshot_index d"
    and "m \<le> min (length (entries d)) (length (entries c))"
  shows "\<exists>k \<le> m. common_prefix_loop d c (snapshot_index d) (snapshot_index d + of_nat m) =
      snapshot_index d + of_nat k \<and>
    (k = 0 \<or> entry_term (entries d ! (k - 1)) = entry_term (entries c ! (k - 1)))"
  using assms(4)
proof (induction m)
  case 0
  then show ?case by (simp add: common_prefix_loop.simps)
next
  case (Suc m)
  let ?i = "snapshot_index d + of_nat (Suc m)"
  have m: "m < length (entries d)" "m < length (entries c)" using Suc.prems by auto
  have terms: "term_at d ?i = entry_term (entries d ! m)" "term_at c ?i = entry_term (entries c ! m)"
    using term_at_nth [OF assms(1) m(1)] term_at_nth [OF assms(2) m(2)] assms(3) by auto
  have gt: "snapshot_index d < ?i" using position_less [OF assms(1) m(1)] .
  have pred: "?i - 1 = snapshot_index d + of_nat m" by simp
  show ?case
  proof (cases "entry_term (entries d ! m) = entry_term (entries c ! m)")
    case True
    then have "common_prefix_loop d c (snapshot_index d) ?i = ?i"
      using terms by (simp add: common_prefix_loop.simps [of d c _ ?i] del: of_nat_Suc)
    then show ?thesis using True by (intro exI [of _ "Suc m"]) simp
  next
    case False
    then have "common_prefix_loop d c (snapshot_index d) ?i =
        common_prefix_loop d c (snapshot_index d) (snapshot_index d + of_nat m)"
      unfolding common_prefix_loop.simps [of d c "snapshot_index d" ?i] pred
      using terms gt by (simp del: of_nat_Suc)
    moreover obtain k where "k \<le> m"
      "common_prefix_loop d c (snapshot_index d) (snapshot_index d + of_nat m) =
        snapshot_index d + of_nat k"
      "k = 0 \<or> entry_term (entries d ! (k - 1)) = entry_term (entries c ! (k - 1))"
      using Suc by auto
    ultimately show ?thesis by (intro exI [of _ k]) simp
  qed
qed

lemma min_last_index:
  assumes "wf_log d" "wf_log c" "snapshot_index c = snapshot_index d"
  shows "min (last_index d) (last_index c) =
    snapshot_index d + of_nat (min (length (entries d)) (length (entries c)))"
proof -
  have "last_index d \<le> last_index c \<longleftrightarrow> length (entries d) \<le> length (entries c)"
    using unat_last_index [OF assms(1)] unat_last_index [OF assms(2)] assms(3)
    by (simp add: word_le_nat_alt)
  then show ?thesis
    using last_index_eq [OF assms(1)] last_index_eq [OF assms(2)] assms(3) by (auto simp: min_def)
qed

lemma common_prefix_shared:
  assumes "succeeds durable current"
  shows "\<exists>k. common_prefix durable current = snapshot_index (p_log durable) + of_nat k \<and>
    k \<le> length (entries (p_log durable)) \<and> k \<le> length (entries (p_log current)) \<and>
    take k (entries (p_log durable)) = take k (entries (p_log current))"
proof -
  let ?d = "p_log durable" and ?c = "p_log current"
  have wf: "wf_log ?d" "wf_log ?c" "snapshot_index ?c = snapshot_index ?d"
    and match: "versions_match (entries ?d) (entries ?c)"
    using assms by (simp_all add: succeeds_def)
  from common_prefix_loop_stops [OF wf order_refl] min_last_index [OF wf] wf(3)
  obtain k where k: "k \<le> min (length (entries ?d)) (length (entries ?c))"
      "common_prefix durable current = snapshot_index ?d + of_nat k"
      "k = 0 \<or> entry_term (entries ?d ! (k - 1)) = entry_term (entries ?c ! (k - 1))"
    by (auto simp: common_prefix_def)
  have "take k (entries ?d) = take k (entries ?c)"
  proof (cases k)
    case (Suc m)
    then show ?thesis using k match unfolding versions_match_def by auto
  qed simp
  then show ?thesis using k by auto
qed

lemma append_delta_entries:
  assumes "wf_log c" "entries l = take k (entries c)" "k \<le> length (entries c)"
    and "snapshot_index l = snapshot_index c"
  shows "fold_res append_delta_entry (drop k (entries c)) l = Inr (l\<lparr>entries := entries c\<rparr>)"
  using assms(2-4)
proof (induction "length (entries c) - k" arbitrary: k l)
  case 0
  then have "l\<lparr>entries := entries c\<rparr> = l" by simp
  then show ?case using 0 by simp
next
  case (Suc n)
  then have k: "k < length (entries c)" by simp
  let ?x = "entries c ! k"
  have wf: "wf_log (l\<lparr>entries := take k (entries c)\<rparr>)"
    using assms(1) Suc.prems unfolding wf_log_iff by (simp add: less_imp_le)
  have l: "l\<lparr>entries := take k (entries c)\<rparr> = l" using Suc.prems(1) by simp
  have "last_index l = snapshot_index c + of_nat k"
    using last_index_eq [OF wf] Suc.prems k by (simp add: l)
  moreover have "entry_index ?x = snapshot_index c + of_nat (Suc k)"
    using assms(1) k by (simp add: wf_log_iff del: of_nat_Suc)
  ultimately have step: "append_delta_entry ?x l = Inr (log_append ?x l)"
    by (simp add: append_delta_entry_def)
  have "fold_res append_delta_entry (drop (Suc k) (entries c)) (log_append ?x l) =
      Inr ((log_append ?x l)\<lparr>entries := entries c\<rparr>)"
    using Suc k by (intro Suc.hyps) (auto simp: take_Suc_conv_app_nth)
  then show ?case using step k by (simp add: Cons_nth_drop_Suc [symmetric] log_append_def)
qed

lemma delta_replays:
  assumes "succeeds durable current"
  shows "\<exists>delta. save_delta durable current = Some delta \<and> apply_delta delta durable = Inr current"
proof -
  let ?d = "p_log durable" and ?c = "p_log current"
  have wf: "wf_log ?d" "wf_log ?c" and snap: "snapshot_index ?c = snapshot_index ?d"
      "snapshot_term ?c = snapshot_term ?d" "snapshot_config ?c = snapshot_config ?d"
    and le: "\<not> p_term current < p_term durable"
    using assms by (auto simp: succeeds_def)
  from common_prefix_shared [OF assms] obtain k where
    k: "common_prefix durable current = snapshot_index ?d + of_nat k" "k \<le> length (entries ?d)"
      "k \<le> length (entries ?c)" "take k (entries ?d) = take k (entries ?c)" by blast
  let ?i = "snapshot_index ?d + of_nat k"
  have pos: "unat ?i = unat (snapshot_index ?d) + k" using unat_position [OF wf(1) k(2)] .
  have "entry_index e \<le> last_index ?c" if "e \<in> set (entries ?c)" for e
    using that wf_entry_index [OF wf(2)] unat_last_index [OF wf(2)]
    by (auto simp: in_set_conv_nth word_le_nat_alt)
  moreover have "?i \<noteq> u64_max"
    using unat_last_index [OF wf(2)] assms pos k(3) snap(1) by (simp add: u64_neq_max_iff succeeds_def)
  ultimately have "filter (\<lambda>e. ?i + 1 \<le> entry_index e \<and> entry_index e \<le> last_index ?c) (entries ?c) =
      filter (\<lambda>e. ?i < entry_index e) (entries ?c)"
    by (intro filter_cong) (auto simp: u64_inc_le_iff)
  then have slice: "log_slice ?c (?i + 1) (last_index ?c) = Some (drop k (entries ?c))"
    using log_slice_eq [OF wf(2)] filter_gt_index [OF wf(2), of ?i] pos snap(1) by simp
  have cut: "truncate_after ?i ?d = ?d\<lparr>entries := take k (entries ?c)\<rparr>"
    using truncate_after_eq [OF wf(1), of ?i] filter_le_index [OF wf(1), of ?i] pos k(4) by simp
  have "\<not> ?i > last_index ?d"
    using pos unat_last_index [OF wf(1)] k(2) by (simp add: word_less_nat_alt)
  moreover have "fold_res append_delta_entry (drop k (entries ?c)) (truncate_after ?i ?d) = Inr ?c"
    using append_delta_entries [OF wf(2), of "truncate_after ?i ?d" k] k(3) cut snap by simp
  ultimately show ?thesis
    using k(1) slice le by (simp add: save_delta_def apply_delta_def)
qed

text \<open>
  Deltas replay. When a node saves a state that succeeds the durable one (its term is not
  smaller, its log has the same snapshot, and the two logs agree up to every index at which they
  have an entry of the same term), a delta is computed without a panic, and applying it to the
  durable state gives exactly the state that was saved: term, vote, configuration and log.
\<close>

theorem delta_roundtrip:
  assumes "succeeds durable current"
  shows "\<exists>delta. save_delta durable current = Some delta \<and> apply_delta delta durable = Inr current"
  using assms by (rule delta_replays)

definition sample_durable :: Persistent where
  "sample_durable = persistent sample_core"

definition sample_current :: Persistent where
  "sample_current = sample_durable\<lparr>p_term := 3, p_voted_for := Some (NodeId 2),
     p_log := log_append sample_next sample_log\<rparr>"

lemma sample_succeeds: "succeeds sample_durable sample_current"
proof -
  have "wf_log sample_log" "wf_log (log_append sample_next sample_log)"
      "last_index (log_append sample_next sample_log) \<noteq> u64_max"
      "p_term sample_durable \<le> p_term sample_current"
    by code_simp+
  then show ?thesis
    by (auto simp: succeeds_def sample_durable_def sample_current_def sample_core_def
        versions_match_def nth_append)
qed

theorem delta_roundtrip_witness:
  "\<exists>delta. save_delta sample_durable sample_current = Some delta \<and>
     apply_delta delta sample_durable = Inr sample_current"
  using delta_roundtrip [OF sample_succeeds] .

section \<open>Saving and recovering\<close>

definition raft_kind :: RecordKind where
  "raft_kind = RecordKind RAFT_STATE_KIND"

text \<open>The serialization of the deltas is faithful.\<close>

definition faithful ::
    "(PersistentDelta \<Rightarrow> bytes option) \<Rightarrow> (bytes \<Rightarrow> PersistentDelta option) \<Rightarrow> bool" where
  "faithful enc dec \<longleftrightarrow> (\<forall>delta payload. enc delta = Some payload \<longrightarrow> dec payload = Some delta)"

definition store_inv ::
    "(bytes \<Rightarrow> u32) \<Rightarrow> (bytes \<Rightarrow> PersistentDelta option) \<Rightarrow> Persistent \<Rightarrow> RaftStore \<Rightarrow> WalRecord list \<Rightarrow> bool"
    where
  "store_inv crc dec initial store recs \<longleftrightarrow>
     wal_holds crc wal_options_default (st_wal store) recs \<and> st_kind store = raft_kind \<and>
     fold_res (replay_record dec raft_kind) recs initial = Inr (st_durable store)"

lemma raft_kind_valid [simp]: "kind_get raft_kind \<noteq> 0"
  by (simp add: raft_kind_def RAFT_STATE_KIND_def)

lemma raft_kind_new: "record_kind_new RAFT_STATE_KIND = Inr raft_kind"
  by (simp add: record_kind_new_def raft_kind_def RAFT_STATE_KIND_def)

lemma fold_res_map: "fold_res f (map g xs) s = fold_res (\<lambda>x. f (g x)) xs s"
  by (induction xs arbitrary: s) (auto intro: res_bind_cong)

lemma store_recover_holds:
  assumes "wal_holds crc options wal recs"
    and "fold_res (replay_record dec kind) recs initial = Inr durable"
  shows "store_recover crc dec \<lparr>st_wal = wal, st_kind = kind, st_durable = initial\<rparr> =
    Inr \<lparr>st_wal = wal, st_kind = kind, st_durable = durable\<rparr>"
proof -
  from assms(1) obtain rss where inv: "wal_inv crc wal rss" and recs: "recs = concat rss"
    by (auto simp: wal_holds_def)
  have "recs = map sr_record (stored_segments 0 rss)" using recs by simp
  then have "fold_res (\<lambda>stored. replay_record dec kind (sr_record stored)) (stored_segments 0 rss) initial =
      Inr durable"
    using assms(2) by (simp only: fold_res_map)
  then show ?thesis
    using wal_records_inv [OF inv] by (simp add: store_recover_def fold_res_map)
qed

lemma store_open_holds:
  assumes "wal_reopen crc wal_options_default (wal, dir) = Some wal'"
    and "wal_holds crc wal_options_default wal' recs"
    and "fold_res (replay_record dec raft_kind) recs initial = Inr durable"
  shows "\<exists>store. store_open crc dec False dir initial = Inr store \<and> st_durable store = durable \<and>
    store_inv crc dec initial store recs"
  using assms store_recover_holds [OF assms(2,3)]
  by (auto simp: wal_reopen_def store_open_def raft_kind_new store_inv_def split: sum.splits)

text \<open>A save whose delta is encoded, in terms of the outcome of the append.\<close>

lemma store_save_eq:
  assumes "succeeds (st_durable store) current" "save_delta (st_durable store) current = Some delta"
    and "enc delta = Some payload"
    and "wal_append crc faults (st_kind store) payload (st_wal store) = (answer, wal', dir')"
    and "\<not> isl answer \<longrightarrow> \<not> wal_poisoned wal'"
  shows "store_save crc enc faults sync_fails current store =
    Some (case answer of
       Inl e \<Rightarrow> (Inl (StoreWal e), store\<lparr>st_wal := (wal', dir')\<rparr>)
     | Inr lsn \<Rightarrow>
         if sync_fails
         then (Inl (StoreWal (Io (segment_path (wal_active_id wal')))),
               store\<lparr>st_wal := (wal'\<lparr>wal_poisoned := True\<rparr>, dir')\<rparr>)
         else (Inr (), store\<lparr>st_wal := (wal', dir'), st_durable := current\<rparr>))"
  using assms
  by (cases answer) (auto simp: store_save_def wal_sync_def wal_ensure_healthy_def succeeds_def)

text \<open>One save: it is refused or fails, and what a restart would find is the state before it or the
  new one, in a store that is in order; or it succeeds, and the store is in order with the new state.\<close>

definition restart_finds ::
    "(bytes \<Rightarrow> u32) \<Rightarrow> (bytes \<Rightarrow> PersistentDelta option) \<Rightarrow> Persistent \<Rightarrow> RaftStore \<Rightarrow> Persistent set \<Rightarrow> bool"
    where
  "restart_finds crc dec initial store states \<longleftrightarrow>
     (\<exists>store' recs. store_open crc dec False (snd (st_wal store)) initial = Inr store' \<and>
        st_durable store' \<in> states \<and> store_inv crc dec initial store' recs)"

lemma restart_finds_inv:
  assumes "store_inv crc dec initial store recs"
  shows "restart_finds crc dec initial store {st_durable store}"
proof -
  have holds: "wal_holds crc wal_options_default (st_wal store) recs"
    and replay: "fold_res (replay_record dec raft_kind) recs initial = Inr (st_durable store)"
    using assms by (simp_all add: store_inv_def)
  obtain wal' where "wal_reopen crc wal_options_default (st_wal store) = Some wal'"
      "wal_holds crc wal_options_default wal' recs"
    using wal.reopen_holds [OF holds] by blast
  then show ?thesis
    using store_open_holds [of crc "fst (st_wal store)" "snd (st_wal store)" wal' recs dec initial]
      replay by (auto simp: restart_finds_def)
qed

lemma restart_finds_append:
  assumes inv: "store_inv crc dec initial store recs" and r: "kind_get (wr_kind r) \<noteq> 0"
    and app: "wal_append_ok crc faults r (st_wal store) = (ok, wal', dir')"
    and step: "replay_record dec raft_kind r (st_durable store) = Inr current"
    and dir: "snd (st_wal store') = dir'"
  shows "restart_finds crc dec initial store' {st_durable store, current}"
proof -
  have "wal_holds crc wal_options_default (st_wal store) recs"
    "fold_res (replay_record dec raft_kind) recs initial = Inr (st_durable store)"
    using inv by (simp_all add: store_inv_def)
  from wal.replay_reopened [OF this(1) r app this(2)] step obtain wal'' recs' durable where
    re: "wal_reopen crc wal_options_default (wal', dir') = Some wal''"
      "wal_holds crc wal_options_default wal'' recs'"
      "fold_res (replay_record dec raft_kind) recs' initial = Inr durable"
      "durable \<in> {st_durable store, current}" by auto
  from store_open_holds [OF re(1-3)] re(4) dir show ?thesis by (auto simp: restart_finds_def)
qed

lemma store_save_cases:
  assumes inv: "store_inv crc dec initial store recs" and serde: "faithful enc dec"
    and next_state: "succeeds (st_durable store) current"
  obtains (failed) e store' where
      "store_save crc enc faults sync_fails current store = Some (Inl e, store')"
      "st_durable store' = st_durable store"
      "restart_finds crc dec initial store' {st_durable store, current}"
  | (saved) store' recs' where
      "store_save crc enc faults sync_fails current store = Some (Inr (), store')"
      "st_durable store' = current" "store_inv crc dec initial store' recs'"
proof -
  from delta_replays [OF next_state] obtain delta where
    delta: "save_delta (st_durable store) current = Some delta" "apply_delta delta (st_durable store) = Inr current"
    by blast
  show thesis
  proof (cases "enc delta")
    case None
    then have "store_save crc enc faults sync_fails current store = Some (Inl Encode, store)"
      using next_state delta by (simp add: store_save_def succeeds_def)
    then show thesis
      by (rule failed) (use restart_finds_inv [OF inv] in \<open>auto simp: restart_finds_def\<close>)
  next
    case (Some payload)
    define r where "r = \<lparr>wr_kind = raft_kind, wr_payload = payload\<rparr>"
    have kind: "st_kind store = raft_kind" and valid: "kind_get (wr_kind r) \<noteq> 0"
      and holds: "wal_holds crc wal_options_default (st_wal store) recs"
      using inv by (simp_all add: store_inv_def r_def)
    have step: "replay_record dec raft_kind r (st_durable store) = Inr current"
      using serde Some delta(2) by (simp add: faithful_def replay_record_def r_def)
    obtain answer wal' dir' where app:
        "wal_append crc faults (st_kind store) payload (st_wal store) = (answer, wal', dir')"
      by (cases "wal_append crc faults (st_kind store) payload (st_wal store)") auto
    then have ok: "wal_append_ok crc faults r (st_wal store) = (\<not> isl answer, wal', dir')"
      by (simp add: wal_append_ok_def r_def kind)
    have holds': "wal_holds crc wal_options_default (wal', dir') (recs @ [r])" if "\<not> isl answer"
      using wal.append_holds_new [OF holds valid] ok that by simp
    then have "\<not> isl answer \<longrightarrow> \<not> wal_poisoned wal'" by (auto simp: wal_holds_def wal_inv_def)
    note save = store_save_eq [where enc = enc and sync_fails = sync_fails, OF next_state delta(1) Some app this]
    note finds = restart_finds_append [OF inv valid ok step]
    show thesis
    proof (cases "isl answer \<or> sync_fails")
      case True
      then obtain e store' where "store_save crc enc faults sync_fails current store = Some (Inl e, store')"
          "st_durable store' = st_durable store" "snd (st_wal store') = dir'"
        using save by (cases answer) auto
      then show thesis by (intro failed finds)
    next
      case False
      then have "store_inv crc dec initial (store\<lparr>st_wal := (wal', dir'), st_durable := current\<rparr>)
          (recs @ [r])"
        using holds' inv step by (simp add: store_inv_def fold_res_append)
      then show thesis using save False by (cases answer) (auto intro: saved)
    qed
  qed
qed

text \<open>A sequence of saves up to the first error, after which the runtime is stopped; the answer is the
  number of saves that succeeded.\<close>

type_synonym save_op = "Faults \<times> bool \<times> Persistent"

fun store_run ::
    "(bytes \<Rightarrow> u32) \<Rightarrow> (PersistentDelta \<Rightarrow> bytes option) \<Rightarrow> save_op list \<Rightarrow> RaftStore
      \<Rightarrow> (nat \<times> RaftStore) option" where
  "store_run crc enc [] store = Some (0, store)"
| "store_run crc enc ((faults, sync_fails, current) # saves) store =
     (case store_save crc enc faults sync_fails current store of
        None \<Rightarrow> None
      | Some (Inl e, store') \<Rightarrow> Some (0, store')
      | Some (Inr _, store') \<Rightarrow> map_option (apfst Suc) (store_run crc enc saves store'))"

fun chain :: "Persistent \<Rightarrow> Persistent list \<Rightarrow> bool" where
  "chain durable [] = True"
| "chain durable (current # rest) = (succeeds durable current \<and> chain current rest)"

abbreviation saved_states :: "save_op list \<Rightarrow> Persistent list" where
  "saved_states saves \<equiv> map (\<lambda>(_, _, current). current) saves"

text \<open>Of the initial state and the states to be saved, the durable one is that of the last successful
  save. A restart finds it, or the state after it if the save of that one failed.\<close>

lemma store_run_recovers:
  assumes "store_inv crc dec initial store recs" "faithful enc dec"
    and "chain (st_durable store) (saved_states saves)"
    and "states = st_durable store # saved_states saves"
  shows "\<exists>n store'. store_run crc enc saves store = Some (n, store') \<and> n \<le> length saves \<and>
    st_durable store' = states ! n \<and>
    restart_finds crc dec initial store'
      (if n = length saves then {states ! n} else {states ! n, states ! Suc n})"
  using assms
proof (induction saves arbitrary: store recs states)
  case Nil
  then show ?case using restart_finds_inv [OF Nil.prems(1)] by auto
next
  case (Cons save saves)
  obtain faults sync_fails current where save: "save = (faults, sync_fails, current)" by (cases save)
  have next_state: "succeeds (st_durable store) current" and rest: "chain current (saved_states saves)"
    using Cons.prems(3) save by simp_all
  from Cons.prems(1,2) next_state show ?case
  proof (cases rule: store_save_cases [where faults = faults and sync_fails = sync_fails])
    case (failed e store')
    then show ?thesis using save Cons.prems(4) by auto
  next
    case (saved store' recs')
    with rest have "chain (st_durable store') (saved_states saves)" by simp
    from Cons.IH [OF saved(3) Cons.prems(2) this refl] obtain n store1 where
      "store_run crc enc saves store' = Some (n, store1)" "n \<le> length saves"
      "st_durable store1 = (current # saved_states saves) ! n"
      "restart_finds crc dec initial store1 (if n = length saves then {(current # saved_states saves) ! n}
         else {(current # saved_states saves) ! n, (current # saved_states saves) ! Suc n})"
      unfolding saved(2) by blast
    then show ?thesis
      using saved(1) save Cons.prems(4) by (intro exI [of _ "Suc n"] exI [of _ store1]) (simp del: nth_map split: if_splits)
  qed
qed

lemma store_open_fresh:
  assumes "store_open crc dec False [] initial = Inr store"
  shows "store_inv crc dec initial store [] \<and> st_durable store = initial"
proof -
  have "validate_options wal_options_default = Inr ()" by code_simp
  from wal_open_fresh [OF dir_holds_empty this] obtain wal where
    wal: "wal_open crc False wal_options_default [] = Inr wal" "wal_inv crc wal [[]]"
      "wal_options (fst wal) = wal_options_default" by blast
  then have holds: "wal_holds crc wal_options_default wal []" by (auto simp: wal_holds_def)
  from store_recover_holds [OF holds, of dec raft_kind initial initial] assms wal(1) holds
  show ?thesis by (auto simp: store_open_def raft_kind_new store_inv_def)
qed

text \<open>
  C32: Durable Raft state. Open a store in an empty directory and save any sequence of states, each
  succeeding the one before, with any torn writes and failing \<open>fsync\<close> calls, up to the first error.
  No save panics, and the store then answers the state of the last successful save. Opening the
  directory again succeeds. It recovers exactly that state if all saves succeeded. If one failed, it
  recovers that state or the one whose save failed: nothing older, and nothing that was to come.
\<close>

theorem store_recovers_last_save:
  assumes "faithful enc dec" "store_open crc dec False [] initial = Inr store"
    and "chain initial (saved_states saves)" "states = initial # saved_states saves"
  shows "\<exists>n store' store''. store_run crc enc saves store = Some (n, store') \<and> n \<le> length saves \<and>
    st_durable store' = states ! n \<and>
    store_open crc dec False (snd (st_wal store')) initial = Inr store'' \<and>
    (st_durable store'' = states ! n \<or> n < length saves \<and> st_durable store'' = states ! Suc n)"
proof -
  have inv: "store_inv crc dec initial store []" and init: "st_durable store = initial"
    using store_open_fresh [OF assms(2)] by auto
  from store_run_recovers [OF inv assms(1), of saves states] assms(3,4) init
  obtain n store' where run: "store_run crc enc saves store = Some (n, store')" "n \<le> length saves"
      "st_durable store' = states ! n"
    and finds: "restart_finds crc dec initial store'
      (if n = length saves then {states ! n} else {states ! n, states ! Suc n})"
    by auto
  from finds obtain store'' where "store_open crc dec False (snd (st_wal store')) initial = Inr store''"
      "st_durable store'' = states ! n \<or> n < length saves \<and> st_durable store'' = states ! Suc n"
    using run(2) by (auto simp: restart_finds_def split: if_splits)
  with run show ?thesis by blast
qed

text \<open>A serialization of one delta, enough to save one state.\<close>

definition sample_enc :: "PersistentDelta \<Rightarrow> PersistentDelta \<Rightarrow> bytes option" where
  "sample_enc known delta = (if delta = known then Some [1] else None)"

definition sample_dec :: "PersistentDelta \<Rightarrow> bytes \<Rightarrow> PersistentDelta option" where
  "sample_dec known payload = (if payload = [1] then Some known else None)"

definition sample_delta :: PersistentDelta where
  "sample_delta = \<lparr>pd_term = 3, pd_voted_for = Some (NodeId 2),
     pd_bootstrap_config = config_simple [NodeId 1, NodeId 2, NodeId 3],
     pd_truncate_after = last_index sample_log, pd_entries = [sample_next]\<rparr>"

theorem store_recovers_last_save_witness:
  "\<exists>store store' store''.
     store_open sum_crc (sample_dec sample_delta) False [] sample_durable = Inr store \<and>
     store_run sum_crc (sample_enc sample_delta) [(no_faults, False, sample_current)] store =
       Some (1, store') \<and> st_durable store' = sample_current \<and>
     store_open sum_crc (sample_dec sample_delta) False (snd (st_wal store')) sample_durable = Inr store'' \<and>
     st_durable store'' = sample_current"
proof -
  let ?saves = "[(no_faults, False, sample_current)]"
  have law: "faithful (sample_enc sample_delta) (sample_dec sample_delta)"
    by (simp add: faithful_def sample_enc_def sample_dec_def)
  have "(case store_open sum_crc (sample_dec sample_delta) False [] sample_durable of
      Inl e \<Rightarrow> None
    | Inr store \<Rightarrow> map_option fst (store_run sum_crc (sample_enc sample_delta) ?saves store)) = Some 1"
    by code_simp
  then obtain store store' where
    store: "store_open sum_crc (sample_dec sample_delta) False [] sample_durable = Inr store"
    and run: "store_run sum_crc (sample_enc sample_delta) ?saves store = Some (1, store')"
    by (auto split: sum.splits)
  have "chain sample_durable (saved_states ?saves)" using sample_succeeds by simp
  from store_recovers_last_save [OF law store this refl] run store show ?thesis by auto
qed

end
