(* ===== verification/Raft_Auth.thy ===== *)
theory Raft_Auth
  imports C9_Prelude
begin

text \<open>
  Authentication of the Raft peer transport, \<open>cloud9-node/src/auth.rs\<close>: hexadecimal keys and
  signatures. A string is the list of its bytes. HMAC-SHA256, from the crates \<open>hmac\<close> and \<open>sha2\<close>,
  is the parameter \<open>mac\<close>: \<open>None\<close> when \<open>new_from_slice\<close> refuses the key, and otherwise the tag of a
  body, which \<open>verify_slice\<close> compares with a given tag. The hypothesis used of it is that its tags
  have 32 bytes.
\<close>

unbundle bit_operations_syntax

section \<open>Hexadecimal strings\<close>

definition KEY_BYTES :: nat where "KEY_BYTES = 32"
definition SIGNATURE_BYTES :: nat where "SIGNATURE_BYTES = 32"

definition nibble :: "u8 \<Rightarrow> u8 option" where
  "nibble byte =
     (if 0x30 \<le> byte \<and> byte \<le> 0x39 then Some (byte - 0x30)
      else if 0x61 \<le> byte \<and> byte \<le> 0x66 then Some (byte - 0x61 + 10)
      else if 0x41 \<le> byte \<and> byte \<le> 0x46 then Some (byte - 0x41 + 10)
      else None)"

definition u8_checked_mul :: "u8 \<Rightarrow> u8 \<Rightarrow> u8 option" where
  "u8_checked_mul a b = (if uint a * uint b < 256 then Some (a * b) else None)"

definition u8_checked_add :: "u8 \<Rightarrow> u8 \<Rightarrow> u8 option" where
  "u8_checked_add a b = (if uint a + uint b < 256 then Some (a + b) else None)"

text \<open>The loop over the pairs of characters.\<close>

fun decode_pairs :: "u8 list \<Rightarrow> u8 list option" where
  "decode_pairs (a # b # rest) =
     do { high \<leftarrow> nibble a;
          high \<leftarrow> u8_checked_mul high 16;
          low \<leftarrow> nibble b;
          output \<leftarrow> u8_checked_add high low;
          outputs \<leftarrow> decode_pairs rest;
          Some (output # outputs) }"
| "decode_pairs _ = Some []"

definition decode_hex :: "nat \<Rightarrow> u8 list \<Rightarrow> u8 list option" where
  "decode_hex n hex = (if length hex \<noteq> n * 2 then None else decode_pairs hex)"

definition HEX :: "u8 list" where
  "HEX = [0x30, 0x31, 0x32, 0x33, 0x34, 0x35, 0x36, 0x37, 0x38, 0x39,
          0x61, 0x62, 0x63, 0x64, 0x65, 0x66]"

fun encode_hex :: "u8 list \<Rightarrow> u8 list" where
  "encode_hex [] = []"
| "encode_hex (byte # bytes) =
     HEX ! unat (drop_bit 4 byte) # HEX ! unat (byte AND 0x0f) # encode_hex bytes"

section \<open>Keys and signatures\<close>

datatype RaftKey = RaftKey "u8 list"

definition from_hex :: "u8 list \<Rightarrow> RaftKey option" where
  "from_hex hex = map_option RaftKey (decode_hex KEY_BYTES hex)"

fun key_signature ::
    "(u8 list \<Rightarrow> u8 list \<Rightarrow> u8 list option) \<Rightarrow> RaftKey \<Rightarrow> u8 list \<Rightarrow> u8 list option" where
  "key_signature mac (RaftKey key) body = map_option encode_hex (mac key body)"

fun key_verify ::
    "(u8 list \<Rightarrow> u8 list \<Rightarrow> u8 list option) \<Rightarrow> RaftKey \<Rightarrow> u8 list \<Rightarrow> u8 list \<Rightarrow> bool" where
  "key_verify mac (RaftKey key) body sig =
     (case decode_hex SIGNATURE_BYTES sig of
        None \<Rightarrow> False
      | Some given \<Rightarrow> (case mac key body of None \<Rightarrow> False | Some tag \<Rightarrow> given = tag))"

section \<open>Round trips\<close>

lemma length_encode_hex [simp]: "length (encode_hex bytes) = length bytes * 2"
  by (induction bytes) auto

text \<open>One digit, checked for all sixteen values.\<close>

lemma nibble_HEX:
  assumes "n < 16"
  shows "nibble (HEX ! n) = Some (of_nat n)"
proof -
  have "\<forall>k \<in> set [0..<16]. nibble (HEX ! k) = Some (of_nat k)" by code_simp
  then show ?thesis using assms by simp
qed

lemma unat_nibbles:
  fixes byte :: u8
  shows "unat (drop_bit 4 byte) = unat byte div 16" "unat (byte AND 0x0f) = unat byte mod 16"
    "unat byte div 16 < 16"
proof -
  have lt: "unat byte < 256" using unsigned_less [of byte] by simp
  show "unat (drop_bit 4 byte) = unat byte div 16"
    by (simp add: drop_bit_eq_div unat_div_distrib)
  have "byte AND 0x0f = take_bit 4 byte"
    using take_bit_eq_mask [of 4 byte] by (simp add: mask_eq_exp_minus_1)
  then show "unat (byte AND 0x0f) = unat byte mod 16"
    by (simp add: take_bit_eq_mod unat_mod_distrib)
  show "unat byte div 16 < 16" using lt by simp
qed

lemma join_nibbles:
  fixes byte :: u8
  defines "h \<equiv> of_nat (unat byte div 16) :: u8" and "l \<equiv> of_nat (unat byte mod 16) :: u8"
  shows "u8_checked_mul h 16 = Some (h * 16)" "u8_checked_add (h * 16) l = Some byte"
proof -
  have lt: "unat byte < 256" using unsigned_less [of byte] by simp
  have h: "unat h = unat byte div 16" and l: "unat l = unat byte mod 16"
    using lt by (simp_all add: h_def l_def unsigned_of_nat take_bit_nat_eq_self)
  have "unat h * 16 < 256" using lt h by simp
  then have mul: "unat (h * 16) = unat h * 16" by (simp add: unat_word_ariths)
  have sum: "unat h * 16 + unat l = unat byte" using h l by simp
  have ui: "uint h = int (unat h)" "uint l = int (unat l)" "uint (h * 16) = int (unat h * 16)"
    by (simp_all only: uint_nat mul)
  show "u8_checked_mul h 16 = Some (h * 16)"
    using \<open>unat h * 16 < 256\<close> ui(1) by (simp add: u8_checked_mul_def del: of_nat_unat)
  have "h * 16 + l = byte"
    using mul sum lt by (simp add: word_unat_eq_iff unat_word_ariths)
  then show "u8_checked_add (h * 16) l = Some byte"
    unfolding u8_checked_add_def ui(2,3) using sum lt by (simp flip: of_nat_add del: of_nat_unat)
qed

lemma decode_pairs_encode: "decode_pairs (encode_hex bytes) = Some bytes"
proof (induction bytes)
  case (Cons byte bytes)
  then show ?case
    using nibble_HEX [of "unat byte div 16"] nibble_HEX [of "unat byte mod 16"] join_nibbles [of byte]
      unat_nibbles [of byte] by simp
qed simp

lemma decode_encode_hex: "decode_hex (length bytes) (encode_hex bytes) = Some bytes"
  by (simp add: decode_hex_def decode_pairs_encode)

lemma decode_pairs_length: "decode_pairs hex = Some bytes \<Longrightarrow> length bytes = length hex div 2"
  by (induction hex arbitrary: bytes rule: decode_pairs.induct)
    (auto simp: Option.bind_eq_Some_conv)

text \<open>
  Signatures. Provided the tags of the message authentication code have 32 bytes: the signature
  that a key gives to a body is accepted for a key and a body exactly if these have the same tag.
  So every node with the same key accepts what was signed, and a message is accepted for other
  contents or under another key only if the authentication code itself collides.
\<close>

lemma signature_accepted_iff:
  assumes "\<forall>k b tag. mac k b = Some tag \<longrightarrow> length tag = 32"
    and "key_signature mac (RaftKey key) body = Some sig"
  shows "key_verify mac (RaftKey key') body' sig \<longleftrightarrow> mac key' body' = mac key body"
proof -
  from assms(2) obtain tag where tag: "mac key body = Some tag" "sig = encode_hex tag" by auto
  have "decode_hex SIGNATURE_BYTES sig = Some tag"
    using decode_encode_hex [of tag] assms(1) tag by (simp add: SIGNATURE_BYTES_def)
  then show ?thesis using tag by (auto split: option.splits)
qed

text \<open>A stand-in for the code: the key and body folded into a tag of 32 bytes.\<close>

definition sample_mac :: "u8 list \<Rightarrow> u8 list \<Rightarrow> u8 list option" where
  "sample_mac key body = Some (take 32 (body @ key @ replicate 32 0))"

end
