(* ===== verification/Node_Config.thy ===== *)
theory Node_Config
  imports Raft_Store Raft_Auth
begin

text \<open>
  The configuration of a node: the sections of the configuration file and the checks that
  \<open>cloud9/src/main.rs\<close> makes of them, the \<open>NodeConfig\<close> and \<open>raft_config\<close> of
  \<open>cloud9-node/src/config.rs\<close>, the \<open>StorageOptions\<close> of \<open>cloud9-storage\<close>, and \<open>validate_config\<close> of
  \<open>cloud9-node/src/runtime.rs\<close>.

  Parsing of TOML (crate \<open>toml\<close>) is the parameter \<open>toml\<close>, and the resolution of a host name by the
  operating system (\<open>to_socket_addrs\<close>) the parameter \<open>lookup\<close>, which answers \<open>None\<close> for an error.
  A socket address is its octets and its port; of a \<open>SharedString\<close> the content is kept.
\<close>

section \<open>Data\<close>

record SocketAddr =
  sa_octets :: "u8 list"
  sa_port :: u16

record StorageOptions =
  storage_name :: string
  storage_data_dir :: string

record NodeConfig =
  nc_node_id :: NodeId
  nc_client_addr :: SocketAddr
  nc_raft_addr :: SocketAddr
  nc_peers :: "(NodeId \<times> SocketAddr) list"
  nc_raft_key :: RaftKey
  nc_storage :: StorageOptions
  nc_consensus :: Config

definition raft_config :: "NodeId \<Rightarrow> Config" where
  "raft_config i =
     (with_parallel_disk_write (config_new i) False)\<lparr>cfg_max_entries_per_msg := 1\<rparr>"

record NodeSection =
  section_id :: u64
  section_host :: string
  section_client_port :: u16
  section_raft_port :: u16

record StorageSection =
  section_data_dir :: string

record PeerSection =
  peer_id :: u64
  peer_host :: string
  peer_raft_port :: u16

record ClusterSection =
  section_raft_key :: "u8 list"
  section_peers :: "PeerSection list"

record ConfigFile =
  file_node :: NodeSection
  file_storage :: StorageSection
  file_cluster :: ClusterSection

text \<open>The error reports, one constructor for each place that makes one.\<close>

datatype ConfigError =
    InvalidToml
  | InvalidRaftKey
  | ResolvingFailed string u16
  | ResolvedToNone string u16
  | ResolvedAmbiguously string u16 nat
  | DuplicateAddress SocketAddr
  | DuplicateNodeId u64
  | NoPeers
  | SelfAddressDiffers u64 SocketAddr SocketAddr
  | SelfMissing u64

section \<open>Parsing\<close>

definition resolve_peer_addr ::
    "(string \<Rightarrow> u16 \<Rightarrow> SocketAddr list option) \<Rightarrow> string \<Rightarrow> u16 \<Rightarrow> ConfigError + SocketAddr" where
  "resolve_peer_addr lookup host port =
     (case lookup host port of
        None \<Rightarrow> Inl (ResolvingFailed host port)
      | Some [addr] \<Rightarrow> Inr addr
      | Some [] \<Rightarrow> Inl (ResolvedToNone host port)
      | Some addrs \<Rightarrow> Inl (ResolvedAmbiguously host port (length addrs)))"

text \<open>One turn of the loop in \<open>peer_addrs\<close>.\<close>

definition add_peer ::
    "(string \<Rightarrow> u16 \<Rightarrow> SocketAddr list option) \<Rightarrow> PeerSection \<Rightarrow> (NodeId \<times> SocketAddr) list
      \<Rightarrow> ConfigError + (NodeId \<times> SocketAddr) list" where
  "add_peer lookup peer addrs =
     res_bind (resolve_peer_addr lookup (peer_host peer) (peer_raft_port peer)) (\<lambda>addr.
       if list_ex (\<lambda>existing. existing = addr) (map snd addrs) then Inl (DuplicateAddress addr)
       else if map_of addrs (NodeId (peer_id peer)) \<noteq> None then Inl (DuplicateNodeId (peer_id peer))
       else Inr (btree_insert (NodeId (peer_id peer)) addr addrs))"

definition peer_addrs ::
    "(string \<Rightarrow> u16 \<Rightarrow> SocketAddr list option) \<Rightarrow> PeerSection list
      \<Rightarrow> ConfigError + (NodeId \<times> SocketAddr) list" where
  "peer_addrs lookup peers =
     res_bind (fold_res (add_peer lookup) peers []) (\<lambda>addrs.
       if addrs = [] then Inl NoPeers else Inr addrs)"

definition parse_node_config ::
    "('t \<Rightarrow> ConfigFile option) \<Rightarrow> (string \<Rightarrow> u16 \<Rightarrow> SocketAddr list option) \<Rightarrow> 't
      \<Rightarrow> ConfigError + NodeConfig" where
  "parse_node_config toml lookup contents =
     res_bind (ok_or InvalidToml (toml contents)) (\<lambda>config.
     let node = file_node config; node_id = NodeId (section_id node) in
     res_bind (resolve_peer_addr lookup (section_host node) (section_client_port node)) (\<lambda>client_addr.
     res_bind (resolve_peer_addr lookup (section_host node) (section_raft_port node)) (\<lambda>raft_addr.
     res_bind (ok_or InvalidRaftKey (from_hex (section_raft_key (file_cluster config)))) (\<lambda>raft_key.
     res_bind (peer_addrs lookup (section_peers (file_cluster config))) (\<lambda>peers.
     case map_of peers node_id of
       Some peer_addr \<Rightarrow>
         if peer_addr = raft_addr
         then Inr \<lparr>nc_node_id = node_id, nc_client_addr = client_addr, nc_raft_addr = raft_addr,
                nc_peers = peers, nc_raft_key = raft_key,
                nc_storage = \<lparr>storage_name = ''default'',
                  storage_data_dir = section_data_dir (file_storage config)\<rparr>,
                nc_consensus = raft_config node_id\<rparr>
         else Inl (SelfAddressDiffers (node_raw node_id) peer_addr raft_addr)
     | None \<Rightarrow> Inl (SelfMissing (node_raw node_id)))))))"

section \<open>Validation at start\<close>

datatype RuntimeError =
    IdentityMismatch NodeId NodeId
  | InvalidSelfPeer NodeId SocketAddr
  | DuplicatePeerAddress SocketAddr
  | RuntimeStore StoreError
  | SnapshotTransportUnsupported
  | UnknownPeer NodeId
  | RuntimeFailed

text \<open>\<open>values().find(|address| !addresses.insert(**address))\<close>.\<close>

fun find_repeated :: "'a set \<Rightarrow> 'a list \<Rightarrow> 'a option" where
  "find_repeated addresses [] = None"
| "find_repeated addresses (x # xs) =
     (if x \<in> addresses then Some x else find_repeated (insert x addresses) xs)"

definition validate_config :: "NodeConfig \<Rightarrow> RuntimeError + unit" where
  "validate_config config =
     (if nc_node_id config \<noteq> cfg_id (nc_consensus config)
      then Inl (IdentityMismatch (nc_node_id config) (cfg_id (nc_consensus config)))
      else if map_of (nc_peers config) (nc_node_id config) \<noteq> Some (nc_raft_addr config)
      then Inl (InvalidSelfPeer (nc_node_id config) (nc_raft_addr config))
      else (case find_repeated {} (map snd (nc_peers config)) of
              Some address \<Rightarrow> Inl (DuplicatePeerAddress address)
            | None \<Rightarrow> Inr ()))"

section \<open>What is accepted\<close>

lemma find_repeated_None: "find_repeated A xs = None \<longleftrightarrow> distinct xs \<and> A \<inter> set xs = {}"
  by (induction xs arbitrary: A) auto

lemma validate_config_iff:
  "validate_config config = Inr () \<longleftrightarrow>
     cfg_id (nc_consensus config) = nc_node_id config \<and>
     map_of (nc_peers config) (nc_node_id config) = Some (nc_raft_addr config) \<and>
     distinct (map snd (nc_peers config))"
  using find_repeated_None [of "{}" "map snd (nc_peers config)"]
  by (auto simp: validate_config_def split: option.splits)

lemma resolve_peer_addr_iff:
  "resolve_peer_addr lookup host port = Inr addr \<longleftrightarrow> lookup host port = Some [addr]"
  by (auto simp: resolve_peer_addr_def split: option.splits list.splits)

text \<open>The peers read so far, as a set of pairs, with keys and addresses unique.\<close>

definition peers_of ::
    "(string \<Rightarrow> u16 \<Rightarrow> SocketAddr list option) \<Rightarrow> PeerSection list \<Rightarrow> (NodeId \<times> SocketAddr) set" where
  "peers_of lookup peers =
     {(NodeId (peer_id p), addr) | p addr. p \<in> set peers \<and> lookup (peer_host p) (peer_raft_port p) = Some [addr]}"

lemma add_peer_ok:
  assumes "add_peer lookup p addrs = Inr addrs'" "btree_ok addrs" "distinct (map snd addrs)"
  shows "btree_ok addrs' \<and> distinct (map snd addrs') \<and>
    (\<exists>addr. lookup (peer_host p) (peer_raft_port p) = Some [addr] \<and>
       set addrs' = insert (NodeId (peer_id p), addr) (set addrs)) \<and> length addrs' = Suc (length addrs)"
proof -
  let ?k = "NodeId (peer_id p)"
  from assms(1) obtain addr where r: "lookup (peer_host p) (peer_raft_port p) = Some [addr]"
    "addr \<notin> set (map snd addrs)" "map_of addrs ?k = None" "addrs' = btree_insert ?k addr addrs"
    by (auto simp: add_peer_def ressimps resolve_peer_addr_iff list_ex_iff split: if_splits)
  obtain xs ys where "addrs = xs @ ys" "addrs' = xs @ (?k, addr) # ys"
    using btree_insert_new [OF r(3), of addr] r(4) by metis
  moreover have "btree_ok addrs'" using r(4) btree_ok_insert [OF assms(2)] by simp
  ultimately show ?thesis using r(1,2) assms(3) by auto
qed

lemma fold_add_peer:
  assumes "fold_res (add_peer lookup) peers addrs = Inr addrs'" "btree_ok addrs" "distinct (map snd addrs)"
  shows "btree_ok addrs' \<and> distinct (map snd addrs') \<and> set addrs' = set addrs \<union> peers_of lookup peers \<and>
    (\<forall>p \<in> set peers. \<exists>addr. lookup (peer_host p) (peer_raft_port p) = Some [addr]) \<and>
    length addrs' = length addrs + length peers"
  using assms
proof (induction peers arbitrary: addrs)
  case Nil
  then show ?case by (simp add: peers_of_def)
next
  case (Cons p peers)
  from Cons.prems(1) obtain mid where mid: "add_peer lookup p addrs = Inr mid"
    "fold_res (add_peer lookup) peers mid = Inr addrs'"
    by (auto simp: ressimps)
  note ok = add_peer_ok [OF mid(1) Cons.prems(2,3)]
  then obtain addr where addr: "lookup (peer_host p) (peer_raft_port p) = Some [addr]"
    "set mid = insert (NodeId (peer_id p), addr) (set addrs)" by blast
  have "peers_of lookup (p # peers) = insert (NodeId (peer_id p), addr) (peers_of lookup peers)"
    using addr(1) by (auto simp: peers_of_def)
  then show ?case using Cons.IH [OF mid(2)] ok addr by auto
qed

text \<open>
  C40: Configurations. A configuration that is accepted from a file passes the validation at start.
  Its peers are, in ascending order and without repetition, exactly the peers of the file, each at
  the one address its host and port resolve to; the node itself is among them at its own Raft
  address; and the consensus part has the identity of the node, saves before it sends, and draws
  election timeouts from a proper range.
\<close>

theorem accepted_config_is_valid:
  assumes "parse_node_config toml lookup contents = Inr config" "toml contents = Some content"
  shows "validate_config config = Inr () \<and> btree_ok (nc_peers config) \<and>
    set (nc_peers config) = peers_of lookup (section_peers (file_cluster content)) \<and>
    length (nc_peers config) = length (section_peers (file_cluster content)) \<and>
    nc_node_id config = NodeId (section_id (file_node content)) \<and>
    cfg_parallel_disk_write (nc_consensus config) = False \<and>
    fst (cfg_election_timeout (nc_consensus config)) < snd (cfg_election_timeout (nc_consensus config))"
proof -
  let ?me = "NodeId (section_id (file_node content))" and ?ps = "section_peers (file_cluster content)"
  from assms obtain peers where p: "peer_addrs lookup ?ps = Inr peers" "nc_peers config = peers"
      "map_of peers ?me = Some (nc_raft_addr config)"
      "nc_node_id config = ?me" "nc_consensus config = raft_config ?me"
    by (auto simp: parse_node_config_def ressimps Let_def split: option.splits if_splits)
  then have "fold_res (add_peer lookup) ?ps [] = Inr peers"
    by (auto simp: peer_addrs_def ressimps split: if_splits)
  from fold_add_peer [OF this] have "btree_ok peers \<and> distinct (map snd peers) \<and>
      set peers = peers_of lookup ?ps \<and> length peers = length ?ps"
    by (simp add: btree_ok_def)
  then show ?thesis
    using p by (simp add: validate_config_iff raft_config_def with_parallel_disk_write_def config_new_def)
qed

definition sample_file :: ConfigFile where
  "sample_file =
     \<lparr>file_node = \<lparr>section_id = 1, section_host = ''a'', section_client_port = 80, section_raft_port = 90\<rparr>,
      file_storage = \<lparr>section_data_dir = ''/data''\<rparr>,
      file_cluster = \<lparr>section_raft_key = replicate 64 0x30,
        section_peers = [\<lparr>peer_id = 2, peer_host = ''b'', peer_raft_port = 90\<rparr>,
          \<lparr>peer_id = 1, peer_host = ''a'', peer_raft_port = 90\<rparr>]\<rparr>\<rparr>"

definition sample_lookup :: "string \<Rightarrow> u16 \<Rightarrow> SocketAddr list option" where
  "sample_lookup host port = Some [\<lparr>sa_octets = map (of_nat \<circ> of_char) host, sa_port = port\<rparr>]"

theorem accepted_config_is_valid_witness:
  "\<exists>config. parse_node_config Some sample_lookup sample_file = Inr config \<and>
     validate_config config = Inr () \<and> map fst (nc_peers config) = [NodeId 1, NodeId 2]"
proof -
  have "\<not> isl (parse_node_config Some sample_lookup sample_file)"
    "map_err (\<lambda>_. ()) (res_bind (parse_node_config Some sample_lookup sample_file)
       (\<lambda>config. Inr (map fst (nc_peers config)))) = Inr [NodeId 1, NodeId 2]"
    by code_simp+
  then obtain config where "parse_node_config Some sample_lookup sample_file = Inr config"
    "map fst (nc_peers config) = [NodeId 1, NodeId 2]"
    by (auto simp: ressimps)
  with accepted_config_is_valid [OF this(1) refl] show ?thesis by (intro exI [of _ config]) simp
qed

end
