(* ===== verification/Kv_State.thy ===== *)
theory Kv_State
  imports Exactly_Once
begin

text \<open>
  The replicated key-value state machine, \<open>cloud9-node/src/command.rs\<close>: the commands that go
  through the Raft log, the state they act on and their deterministic application, with the
  client sessions that make retried mutations idempotent. A \<open>String\<close> is the list of its UTF-8
  bytes (\<open>len\<close> counts bytes) and a \<open>HashMap\<close> a partial map. \<open>ConnectError\<close> values are only
  built here and never taken apart: its constructors are those the source calls, with the message.
  The response records carry the fields of \<open>cloud9-proto/proto/cloud9/kv/v1/kv.proto\<close>.
\<close>

section \<open>Data\<close>

datatype ConnectError =
    invalid_argument string
  | not_found string
  | aborted string
  | failed_precondition string
  | resource_exhausted string
  | internal string
  | unavailable string

definition MAX_VALUE_BYTES :: nat where "MAX_VALUE_BYTES = 64 * 1024"
definition MAX_NAMESPACE_BYTES :: nat where "MAX_NAMESPACE_BYTES = 255"
definition MAX_KEY_BYTES :: nat where "MAX_KEY_BYTES = 1024"
definition MAX_ETAG_BYTES :: nat where "MAX_ETAG_BYTES = 128"

datatype KvCommand =
    RegisterSession
  | ReadBarrier
  | Put (cmd_client: u64) (cmd_sequence: u64) string string "u8 list" string bool
  | Delete (cmd_client: u64) (cmd_sequence: u64) string string string

record RegisterSessionResponse =
  rs_client_id :: u64

record PutResponse =
  put_namespace :: string
  put_key :: string
  put_etag :: string
  put_generation :: u64
  put_size :: u64

record DeleteResponse =
  del_namespace :: string
  del_key :: string
  del_etag :: string
  del_generation :: u64
  del_deleted :: bool

datatype KvApplyResult =
    KvRegisterSession RegisterSessionResponse
  | KvPut PutResponse
  | KvDelete DeleteResponse
  | KvReadBarrier

record KvName =
  name_namespace :: string
  name_key :: string

record KvRecord =
  rec_body :: "u8 list"
  rec_etag :: string
  rec_generation :: u64

datatype MutationRequest =
    PutRequest KvName "u8 list" string bool
  | DeleteRequest KvName string

datatype MutationRejection = KeyExists | EtagMismatch | GenerationExhausted

datatype MutationResult =
    PutDone PutResponse
  | DeleteDone DeleteResponse
  | Rejected MutationRejection

record SessionState =
  ss_sequence :: u64
  ss_request :: "MutationRequest option"
  ss_result :: "MutationResult option"

record KvState =
  kv_next_client_id :: u64
  kv_next_generation :: u64
  kv_entries :: "KvName \<rightharpoonup> KvRecord"
  kv_sessions :: "u64 \<rightharpoonup> SessionState"

definition session_default :: SessionState where
  "session_default = \<lparr>ss_sequence = 0, ss_request = None, ss_result = None\<rparr>"

definition kv_new :: KvState where
  "kv_new = \<lparr>kv_next_client_id = 1, kv_next_generation = 1,
     kv_entries = Map.empty, kv_sessions = Map.empty\<rparr>"

section \<open>Validation\<close>

definition kv_name_new :: "string \<Rightarrow> string \<Rightarrow> ConnectError + KvName" where
  "kv_name_new namespace key =
     (if namespace = [] then Inl (invalid_argument ''namespace must not be empty'')
      else if length namespace > MAX_NAMESPACE_BYTES
      then Inl (invalid_argument ''namespace exceeds 255-byte limit'')
      else if key = [] then Inl (invalid_argument ''key must not be empty'')
      else if length key > MAX_KEY_BYTES
      then Inl (invalid_argument ''key exceeds 1024-byte limit'')
      else Inr \<lparr>name_namespace = namespace, name_key = key\<rparr>)"

definition connect_error :: "MutationRejection \<Rightarrow> ConnectError" where
  "connect_error rejection = (case rejection of
     KeyExists \<Rightarrow> failed_precondition ''key already exists''
   | EtagMismatch \<Rightarrow> failed_precondition ''ETag precondition failed''
   | GenerationExhausted \<Rightarrow> resource_exhausted ''kv generation space exhausted'')"

definition validate_mutation_request :: "u64 \<Rightarrow> u64 \<Rightarrow> ConnectError + unit" where
  "validate_mutation_request client_id sequence =
     (if client_id = 0 then Inl (invalid_argument ''client_id must be registered'')
      else if sequence = 0 then Inl (invalid_argument ''sequence must be positive'')
      else Inr ())"

definition validate_etag :: "string \<Rightarrow> ConnectError + unit" where
  "validate_etag etag =
     (if length etag > MAX_ETAG_BYTES then Inl (invalid_argument ''ETag exceeds 128-byte limit'')
      else Inr ())"

definition validate_put_preconditions :: "string \<Rightarrow> bool \<Rightarrow> ConnectError + unit" where
  "validate_put_preconditions if_match if_none_match =
     res_bind (validate_etag if_match) (\<lambda>_.
       if if_match \<noteq> [] \<and> if_none_match
       then Inl (invalid_argument ''if_match and if_none_match are mutually exclusive'')
       else Inr ())"

definition validate_value :: "u8 list \<Rightarrow> ConnectError + unit" where
  "validate_value body =
     (if length body > MAX_VALUE_BYTES
      then Inl (resource_exhausted ''value exceeds 65536-byte limit'') else Inr ())"

lemma validate_value_code [code]:
  "validate_value body =
     (if (65536 :: int) < int (length body)
      then Inl (resource_exhausted ''value exceeds 65536-byte limit'') else Inr ())"
  by (simp add: validate_value_def MAX_VALUE_BYTES_def)

definition check_put_preconditions ::
    "KvRecord option \<Rightarrow> string \<Rightarrow> bool \<Rightarrow> MutationRejection + unit" where
  "check_put_preconditions current if_match if_none_match =
     (if if_none_match \<and> current \<noteq> None then Inl KeyExists
      else if if_match \<noteq> []
      then (case current of
              Some record \<Rightarrow> if rec_etag record = if_match then Inr () else Inl EtagMismatch
            | None \<Rightarrow> Inl EtagMismatch)
      else Inr ())"

definition etag_for :: "u64 \<Rightarrow> string" where
  "etag_for generation = [CHR 0x22] @ ''c9-'' @ decimal (unat generation) @ [CHR 0x22]"

definition body_len :: "u8 list \<Rightarrow> ConnectError + u64" where
  "body_len body = ok_or (resource_exhausted ''value too large'') (u64_try_from (length body))"

definition key_not_found :: ConnectError where
  "key_not_found = not_found ''key not found''"

section \<open>Sessions\<close>

definition cached_mutation ::
    "SessionState \<Rightarrow> u64 \<Rightarrow> MutationRequest \<Rightarrow> ConnectError + MutationResult option" where
  "cached_mutation session sequence request =
     (if sequence < ss_sequence session then Inl (aborted ''stale client sequence'')
      else if sequence > ss_sequence session then Inr None
      else (case (ss_request session, ss_result session) of
              (Some cached, Some result) \<Rightarrow>
                if cached = request then Inr (Some result)
                else Inl (aborted ''sequence reused for different request'')
            | (None, None) \<Rightarrow> Inl (internal ''session cache is incomplete'')
            | _ \<Rightarrow> Inl (internal ''session cache is inconsistent'')))"

definition kv_session :: "KvState \<Rightarrow> u64 \<Rightarrow> ConnectError + SessionState" where
  "kv_session st client_id =
     ok_or (invalid_argument ''unknown client session'') (kv_sessions st client_id)"

definition cached_put ::
    "KvState \<Rightarrow> u64 \<Rightarrow> u64 \<Rightarrow> MutationRequest \<Rightarrow> ConnectError + PutResponse option" where
  "cached_put st client_id sequence request =
     res_bind (kv_session st client_id) (\<lambda>session.
     res_bind (cached_mutation session sequence request) (\<lambda>cached.
     case cached of
       Some (PutDone response) \<Rightarrow> Inr (Some response)
     | Some (Rejected rejection) \<Rightarrow> Inl (connect_error rejection)
     | Some (DeleteDone _) \<Rightarrow> Inl (internal ''session result mismatch'')
     | None \<Rightarrow> Inr None))"

definition cached_delete ::
    "KvState \<Rightarrow> u64 \<Rightarrow> u64 \<Rightarrow> MutationRequest \<Rightarrow> ConnectError + DeleteResponse option" where
  "cached_delete st client_id sequence request =
     res_bind (kv_session st client_id) (\<lambda>session.
     res_bind (cached_mutation session sequence request) (\<lambda>cached.
     case cached of
       Some (DeleteDone response) \<Rightarrow> Inr (Some response)
     | Some (Rejected rejection) \<Rightarrow> Inl (connect_error rejection)
     | Some (PutDone _) \<Rightarrow> Inl (internal ''session result mismatch'')
     | None \<Rightarrow> Inr None))"

definition session_record ::
    "u64 \<Rightarrow> MutationRequest \<Rightarrow> MutationResult \<Rightarrow> SessionState \<Rightarrow> SessionState" where
  "session_record sequence request result session =
     session\<lparr>ss_sequence := sequence, ss_request := Some request, ss_result := Some result\<rparr>"

text \<open>\<open>self.session_mut(client_id)?.record(sequence, request, result)\<close>.\<close>

definition record_in_session ::
    "u64 \<Rightarrow> u64 \<Rightarrow> MutationRequest \<Rightarrow> MutationResult \<Rightarrow> KvState \<Rightarrow> ConnectError + KvState" where
  "record_in_session client_id sequence request result st =
     res_bind (kv_session st client_id) (\<lambda>session.
       Inr (st\<lparr>kv_sessions := (kv_sessions st)
         (client_id \<mapsto> session_record sequence request result session)\<rparr>))"

definition next_client_id :: "KvState \<Rightarrow> (ConnectError + u64) \<times> KvState" where
  "next_client_id st =
     (let client_id = kv_next_client_id st in
      case checked_add client_id 1 of
        None \<Rightarrow> (Inl (resource_exhausted ''client id space exhausted''), st)
      | Some next \<Rightarrow>
          (Inr client_id, st\<lparr>kv_next_client_id := next,
             kv_sessions := (kv_sessions st)(client_id \<mapsto> session_default)\<rparr>))"

definition next_generation :: "KvState \<Rightarrow> (MutationRejection + u64) \<times> KvState" where
  "next_generation st =
     (let generation = kv_next_generation st in
      case checked_add generation 1 of
        None \<Rightarrow> (Inl GenerationExhausted, st)
      | Some next \<Rightarrow> (Inr generation, st\<lparr>kv_next_generation := next\<rparr>))"

definition kv_reject ::
    "u64 \<Rightarrow> u64 \<Rightarrow> MutationRequest \<Rightarrow> MutationRejection \<Rightarrow> KvState
      \<Rightarrow> (ConnectError + KvApplyResult) \<times> KvState" where
  "kv_reject client_id sequence request rejection st =
     (case record_in_session client_id sequence request (Rejected rejection) st of
        Inl e \<Rightarrow> (Inl e, st)
      | Inr st' \<Rightarrow> (Inl (connect_error rejection), st'))"

section \<open>Applying a command\<close>

definition apply_put ::
    "u64 \<Rightarrow> u64 \<Rightarrow> string \<Rightarrow> string \<Rightarrow> u8 list \<Rightarrow> string \<Rightarrow> bool \<Rightarrow> KvState
      \<Rightarrow> (ConnectError + KvApplyResult) \<times> KvState" where
  "apply_put client_id sequence namespace key body if_match if_none_match st =
     (case res_bind (validate_mutation_request client_id sequence) (\<lambda>_.
           res_bind (validate_put_preconditions if_match if_none_match) (\<lambda>_.
           res_bind (validate_value body) (\<lambda>_. kv_name_new namespace key))) of
        Inl e \<Rightarrow> (Inl e, st)
      | Inr name \<Rightarrow>
         (let request = PutRequest name body if_match if_none_match in
          case cached_put st client_id sequence request of
            Inl e \<Rightarrow> (Inl e, st)
          | Inr (Some response) \<Rightarrow> (Inr (KvPut response), st)
          | Inr None \<Rightarrow>
             (case check_put_preconditions (kv_entries st name) if_match if_none_match of
                Inl rejection \<Rightarrow> kv_reject client_id sequence request rejection st
              | Inr _ \<Rightarrow>
                 (case body_len body of
                    Inl e \<Rightarrow> (Inl e, st)
                  | Inr len \<Rightarrow>
                     (case next_generation st of
                        (Inl rejection, st1) \<Rightarrow>
                          kv_reject client_id sequence request rejection st1
                      | (Inr generation, st1) \<Rightarrow>
                         (let etag = etag_for generation;
                              response = \<lparr>put_namespace = name_namespace name,
                                put_key = name_key name, put_etag = etag,
                                put_generation = generation, put_size = len\<rparr>;
                              st2 = st1\<lparr>kv_entries := (kv_entries st1)(name \<mapsto>
                                \<lparr>rec_body = body, rec_etag = etag,
                                 rec_generation = generation\<rparr>)\<rparr>
                          in case record_in_session client_id sequence request
                                    (PutDone response) st2 of
                               Inl e \<Rightarrow> (Inl e, st2)
                             | Inr st3 \<Rightarrow> (Inr (KvPut response), st3)))))))"

definition apply_delete ::
    "u64 \<Rightarrow> u64 \<Rightarrow> string \<Rightarrow> string \<Rightarrow> string \<Rightarrow> KvState
      \<Rightarrow> (ConnectError + KvApplyResult) \<times> KvState" where
  "apply_delete client_id sequence namespace key if_match st =
     (case res_bind (validate_mutation_request client_id sequence) (\<lambda>_.
           res_bind (validate_etag if_match) (\<lambda>_. kv_name_new namespace key)) of
        Inl e \<Rightarrow> (Inl e, st)
      | Inr name \<Rightarrow>
         (let request = DeleteRequest name if_match in
          case cached_delete st client_id sequence request of
            Inl e \<Rightarrow> (Inl e, st)
          | Inr (Some response) \<Rightarrow> (Inr (KvDelete response), st)
          | Inr None \<Rightarrow>
             (if if_match \<noteq> [] \<and> (case kv_entries st name of
                   None \<Rightarrow> True | Some record \<Rightarrow> if_match \<noteq> rec_etag record)
              then kv_reject client_id sequence request EtagMismatch st
              else
                (let removed = kv_entries st name;
                     st1 = st\<lparr>kv_entries := (kv_entries st)(name := None)\<rparr>;
                     response = (case removed of
                       Some record \<Rightarrow> \<lparr>del_namespace = name_namespace name,
                         del_key = name_key name, del_etag = rec_etag record,
                         del_generation = rec_generation record, del_deleted = True\<rparr>
                     | None \<Rightarrow> \<lparr>del_namespace = name_namespace name,
                         del_key = name_key name, del_etag = [],
                         del_generation = 0, del_deleted = False\<rparr>)
                 in case record_in_session client_id sequence request
                           (DeleteDone response) st1 of
                      Inl e \<Rightarrow> (Inl e, st1)
                    | Inr st2 \<Rightarrow> (Inr (KvDelete response), st2)))))"

definition kv_apply :: "KvCommand \<Rightarrow> KvState \<Rightarrow> (ConnectError + KvApplyResult) \<times> KvState" where
  "kv_apply command st = (case command of
     RegisterSession \<Rightarrow>
       (case next_client_id st of
          (Inl e, st') \<Rightarrow> (Inl e, st')
        | (Inr client_id, st') \<Rightarrow> (Inr (KvRegisterSession \<lparr>rs_client_id = client_id\<rparr>), st'))
   | ReadBarrier \<Rightarrow> (Inr KvReadBarrier, st)
   | Put client_id sequence namespace key body if_match if_none_match \<Rightarrow>
       apply_put client_id sequence namespace key body if_match if_none_match st
   | Delete client_id sequence namespace key if_match \<Rightarrow>
       apply_delete client_id sequence namespace key if_match st)"

definition kv_run :: "KvCommand list \<Rightarrow> KvState \<Rightarrow> KvState" where
  "kv_run = fold (\<lambda>command st. snd (kv_apply command st))"

section \<open>A mutation seen through its session\<close>

text \<open>
  \<open>mutation_of\<close> is the validated form of a mutation, \<open>effect\<close> its meaning on the entries with
  the sessions left out, and \<open>outcome\<close> the answer a recorded result stands for. The lemmas of
  this section show that \<open>apply\<close> is the effect of a mutation when its sequence number is new to
  its session and the recorded answer or an error otherwise.
\<close>

definition mutation_of :: "KvCommand \<Rightarrow> ConnectError + MutationRequest" where
  "mutation_of command = (case command of
     Put client_id sequence namespace key body if_match if_none_match \<Rightarrow>
       res_bind (validate_mutation_request client_id sequence) (\<lambda>_.
       res_bind (validate_put_preconditions if_match if_none_match) (\<lambda>_.
       res_bind (validate_value body) (\<lambda>_.
       res_bind (kv_name_new namespace key) (\<lambda>name.
         Inr (PutRequest name body if_match if_none_match)))))
   | Delete client_id sequence namespace key if_match \<Rightarrow>
       res_bind (validate_mutation_request client_id sequence) (\<lambda>_.
       res_bind (validate_etag if_match) (\<lambda>_.
       res_bind (kv_name_new namespace key) (\<lambda>name.
         Inr (DeleteRequest name if_match))))
   | _ \<Rightarrow> Inl (internal ''not a mutation''))"

definition is_mutation :: "KvCommand \<Rightarrow> bool" where
  "is_mutation command = (case command of RegisterSession \<Rightarrow> False | ReadBarrier \<Rightarrow> False | _ \<Rightarrow> True)"

definition outcome :: "MutationResult \<Rightarrow> ConnectError + KvApplyResult" where
  "outcome result = (case result of
     PutDone response \<Rightarrow> Inr (KvPut response)
   | DeleteDone response \<Rightarrow> Inr (KvDelete response)
   | Rejected rejection \<Rightarrow> Inl (connect_error rejection))"

definition put_record :: "u64 \<Rightarrow> u8 list \<Rightarrow> KvRecord" where
  "put_record generation body =
     \<lparr>rec_body = body, rec_etag = etag_for generation, rec_generation = generation\<rparr>"

definition put_response :: "KvName \<Rightarrow> u64 \<Rightarrow> u8 list \<Rightarrow> PutResponse" where
  "put_response name generation body =
     \<lparr>put_namespace = name_namespace name, put_key = name_key name,
      put_etag = etag_for generation, put_generation = generation,
      put_size = of_nat (length body)\<rparr>"

definition delete_response :: "KvName \<Rightarrow> KvRecord option \<Rightarrow> DeleteResponse" where
  "delete_response name removed = (case removed of
     Some record \<Rightarrow> \<lparr>del_namespace = name_namespace name, del_key = name_key name,
       del_etag = rec_etag record, del_generation = rec_generation record, del_deleted = True\<rparr>
   | None \<Rightarrow> \<lparr>del_namespace = name_namespace name, del_key = name_key name,
       del_etag = [], del_generation = 0, del_deleted = False\<rparr>)"

definition effect :: "MutationRequest \<Rightarrow> KvState \<Rightarrow> MutationResult \<times> KvState" where
  "effect request st = (case request of
     PutRequest name body if_match if_none_match \<Rightarrow>
       (case check_put_preconditions (kv_entries st name) if_match if_none_match of
          Inl rejection \<Rightarrow> (Rejected rejection, st)
        | Inr _ \<Rightarrow>
           if kv_next_generation st = u64_max then (Rejected GenerationExhausted, st)
           else (PutDone (put_response name (kv_next_generation st) body),
                 st\<lparr>kv_next_generation := kv_next_generation st + 1,
                    kv_entries := (kv_entries st)
                      (name \<mapsto> put_record (kv_next_generation st) body)\<rparr>))
   | DeleteRequest name if_match \<Rightarrow>
       if if_match \<noteq> [] \<and> map_option rec_etag (kv_entries st name) \<noteq> Some if_match
       then (Rejected EtagMismatch, st)
       else (DeleteDone (delete_response name (kv_entries st name)),
             st\<lparr>kv_entries := (kv_entries st)(name := None)\<rparr>))"

lemma checked_add_one: "checked_add x 1 = (if x = u64_max then None else Some (x + 1))"
  by (auto simp: checked_add_alt u64_neq_max_iff)

lemma small_body_len [simp]:
  "length body \<le> MAX_VALUE_BYTES \<Longrightarrow> body_len body = Inr (of_nat (length body))"
  by (simp add: body_len_def u64_try_from_alt MAX_VALUE_BYTES_def)

lemma effect_sessions [simp]:
  "kv_sessions (snd (effect request st)) = kv_sessions st"
  "kv_next_client_id (snd (effect request st)) = kv_next_client_id st"
  by (auto simp: effect_def split: MutationRequest.splits sum.splits)

lemma invalid_mutation:
  assumes "is_mutation command" "mutation_of command = Inl e"
  shows "kv_apply command st = (Inl e, st)"
  using assms
  by (cases command)
    (auto simp: is_mutation_def mutation_of_def kv_apply_def apply_put_def apply_delete_def
      ressimps split: sum.splits)

lemma mutation_of_is_mutation: "mutation_of command = Inr request \<Longrightarrow> is_mutation command"
  by (cases command) (simp_all add: mutation_of_def is_mutation_def)

lemma mutation_of_InrD:
  assumes "mutation_of command = Inr request"
  shows "is_mutation command" "cmd_client command \<noteq> 0" "cmd_sequence command \<noteq> 0"
  using assms
  by (cases command; auto simp: mutation_of_def is_mutation_def validate_mutation_request_def
      ressimps split: if_splits)+

lemma unknown_session:
  assumes "mutation_of command = Inr request" "kv_sessions st (cmd_client command) = None"
  shows "kv_apply command st = (Inl (invalid_argument ''unknown client session''), st)"
  using assms
  by (cases command)
    (auto simp: mutation_of_def kv_apply_def apply_put_def apply_delete_def cached_put_def
      cached_delete_def kv_session_def ressimps split: sum.splits)

lemma stale_mutation:
  assumes "mutation_of command = Inr request"
    and "kv_sessions st (cmd_client command) = Some session"
    and "cmd_sequence command < ss_sequence session"
  shows "kv_apply command st = (Inl (aborted ''stale client sequence''), st)"
  using assms
  by (cases command)
    (auto simp: mutation_of_def kv_apply_def apply_put_def apply_delete_def cached_put_def
      cached_delete_def cached_mutation_def kv_session_def ressimps split: sum.splits)

lemma record_in_known_session:
  "kv_sessions st client_id = Some session \<Longrightarrow>
   record_in_session client_id sequence request result st =
     Inr (st\<lparr>kv_sessions := (kv_sessions st)
       (client_id \<mapsto> session_record sequence request result session)\<rparr>)"
  by (simp add: record_in_session_def kv_session_def)

lemma not_cached:
  assumes "kv_sessions st client_id = Some session" "ss_sequence session < sequence"
  shows "cached_put st client_id sequence request = Inr None"
    and "cached_delete st client_id sequence request = Inr None"
  using assms by (simp_all add: cached_put_def cached_delete_def cached_mutation_def kv_session_def)

definition fresh_state :: "KvCommand \<Rightarrow> MutationRequest \<Rightarrow> SessionState \<Rightarrow> KvState \<Rightarrow> KvState" where
  "fresh_state command request session st =
     (snd (effect request st))\<lparr>kv_sessions := (kv_sessions st)(cmd_client command \<mapsto>
        session_record (cmd_sequence command) request (fst (effect request st)) session)\<rparr>"

lemma fresh_put:
  assumes valid: "mutation_of (Put c n ns k body im inm) = Inr request"
    and session: "kv_sessions st c = Some session" and fresh: "ss_sequence session < n"
  shows "kv_apply (Put c n ns k body im inm) st =
    (outcome (fst (effect request st)), fresh_state (Put c n ns k body im inm) request session st)"
proof -
  from valid obtain name where small: "length body \<le> MAX_VALUE_BYTES"
    and pass: "validate_mutation_request c n = Inr ()" "validate_put_preconditions im inm = Inr ()"
      "validate_value body = Inr ()" "kv_name_new ns k = Inr name"
    and req: "request = PutRequest name body im inm"
    by (auto simp: mutation_of_def validate_value_def ressimps split: if_splits)
  note known = not_cached [OF session fresh] session
  show ?thesis
    using small
    by (auto simp: kv_apply_def apply_put_def pass known req effect_def next_generation_def Let_def
        checked_add_one kv_reject_def record_in_known_session outcome_def fresh_state_def
        put_response_def put_record_def split: sum.splits)
qed

lemma fresh_delete:
  assumes valid: "mutation_of (Delete c n ns k im) = Inr request"
    and session: "kv_sessions st c = Some session" and fresh: "ss_sequence session < n"
  shows "kv_apply (Delete c n ns k im) st =
    (outcome (fst (effect request st)), fresh_state (Delete c n ns k im) request session st)"
proof -
  from valid obtain name where
    pass: "validate_mutation_request c n = Inr ()" "validate_etag im = Inr ()"
      "kv_name_new ns k = Inr name" and req: "request = DeleteRequest name im"
    by (auto simp: mutation_of_def ressimps split: if_splits)
  note known = not_cached [OF session fresh] session
  show ?thesis
    by (cases "kv_entries st name")
      (auto simp: kv_apply_def apply_delete_def pass known req effect_def Let_def kv_reject_def
        record_in_known_session outcome_def fresh_state_def delete_response_def)
qed

lemma fresh_mutation:
  assumes "mutation_of command = Inr request"
    and "kv_sessions st (cmd_client command) = Some session"
    and "ss_sequence session < cmd_sequence command"
  shows "kv_apply command st =
    (outcome (fst (effect request st)), fresh_state command request session st)"
  using assms fresh_put fresh_delete
  by (cases command) (auto simp: mutation_of_def)

section \<open>The invariant of the state machine\<close>

fun answers :: "MutationRequest \<Rightarrow> MutationResult \<Rightarrow> bool" where
  "answers (PutRequest _ _ _ _) (DeleteDone _) = False"
| "answers (DeleteRequest _ _) (PutDone _) = False"
| "answers _ _ = True"

definition session_ok :: "SessionState \<Rightarrow> bool" where
  "session_ok session = (case (ss_request session, ss_result session) of
     (None, None) \<Rightarrow> ss_sequence session = 0
   | (Some request, Some result) \<Rightarrow> ss_sequence session \<noteq> 0 \<and> answers request result
   | _ \<Rightarrow> False)"

definition record_ok :: "u64 \<Rightarrow> KvRecord \<Rightarrow> bool" where
  "record_ok bound record \<longleftrightarrow>
     rec_generation record < bound \<and> rec_etag record = etag_for (rec_generation record)"

definition kv_inv :: "KvState \<Rightarrow> bool" where
  "kv_inv st \<longleftrightarrow>
     (\<forall>client_id session. kv_sessions st client_id = Some session \<longrightarrow>
        client_id < kv_next_client_id st \<and> session_ok session) \<and>
     (\<forall>name record. kv_entries st name = Some record \<longrightarrow>
        record_ok (kv_next_generation st) record)"

lemma kv_invD:
  assumes "kv_inv st"
  shows "kv_sessions st c = Some session \<Longrightarrow> c < kv_next_client_id st"
    and "kv_sessions st c = Some session \<Longrightarrow> session_ok session"
    and "kv_entries st name = Some record \<Longrightarrow> record_ok (kv_next_generation st) record"
  using assms by (auto simp: kv_inv_def)

lemma etag_for_inject [simp]: "etag_for g = etag_for h \<longleftrightarrow> g = h"
  by (simp add: etag_for_def word_unat_eq_iff)

lemma etag_for_not_empty [simp]: "etag_for g \<noteq> []"
  by (simp add: etag_for_def)

lemma seen_mutation:
  assumes "mutation_of command = Inr request"
    and "kv_sessions st (cmd_client command) = Some session" and "session_ok session"
    and "cmd_sequence command = ss_sequence session"
  shows "\<exists>cached result. ss_request session = Some cached \<and> ss_result session = Some result \<and>
    kv_apply command st =
      (if cached = request then outcome result
       else Inl (aborted ''sequence reused for different request''), st)"
proof -
  have "cmd_sequence command \<noteq> 0" using assms(1) by (rule mutation_of_InrD)
  then obtain cached result where recorded: "ss_request session = Some cached"
      "ss_result session = Some result" "answers cached result"
    using assms(3,4) by (auto simp: session_ok_def split: option.splits)
  then show ?thesis
    using assms
    by (cases command; cases cached; cases result)
      (auto simp: mutation_of_def kv_apply_def apply_put_def apply_delete_def cached_put_def
        cached_delete_def cached_mutation_def kv_session_def outcome_def ressimps
        split: sum.splits)
qed

lemma apply_register:
  "kv_apply RegisterSession st =
     (if kv_next_client_id st = u64_max
      then (Inl (resource_exhausted ''client id space exhausted''), st)
      else (Inr (KvRegisterSession \<lparr>rs_client_id = kv_next_client_id st\<rparr>),
            st\<lparr>kv_next_client_id := kv_next_client_id st + 1,
               kv_sessions := (kv_sessions st)(kv_next_client_id st \<mapsto> session_default)\<rparr>))"
  by (simp add: kv_apply_def next_client_id_def Let_def checked_add_one)

lemma apply_read_barrier: "kv_apply ReadBarrier st = (Inr KvReadBarrier, st)"
  by (simp add: kv_apply_def)

text \<open>What any command can do, as one case distinction: nothing, open a session, or carry out a
  mutation whose sequence number is new.\<close>

lemma kv_apply_cases:
  assumes "kv_inv st"
  obtains (same) "snd (kv_apply command st) = st"
  | (register) "command = RegisterSession" "kv_next_client_id st \<noteq> u64_max"
      "snd (kv_apply command st) = st\<lparr>kv_next_client_id := kv_next_client_id st + 1,
         kv_sessions := (kv_sessions st)(kv_next_client_id st \<mapsto> session_default)\<rparr>"
  | (fresh) request session where "mutation_of command = Inr request"
      "kv_sessions st (cmd_client command) = Some session"
      "ss_sequence session < cmd_sequence command"
      "kv_apply command st =
         (outcome (fst (effect request st)), fresh_state command request session st)"
proof (cases "is_mutation command")
  case False
  then show ?thesis
    using same register
    by (cases command; cases "kv_next_client_id st = u64_max")
      (auto simp: is_mutation_def apply_register apply_read_barrier)
next
  case True
  show ?thesis
  proof (cases "mutation_of command")
    case (Inl e)
    then show ?thesis using same invalid_mutation [OF True] by simp
  next
    case (Inr request)
    show ?thesis
    proof (cases "kv_sessions st (cmd_client command)")
      case None
      then show ?thesis using same unknown_session [OF Inr] by simp
    next
      case (Some session)
      have ok: "session_ok session" using kv_invD(2) [OF assms Some] .
      consider "cmd_sequence command < ss_sequence session"
        | "cmd_sequence command = ss_sequence session"
        | "ss_sequence session < cmd_sequence command"
        by (meson linorder_cases)
      then show ?thesis
      proof cases
        case 1
        then show ?thesis using same stale_mutation [OF Inr Some] by simp
      next
        case 2
        then show ?thesis using same seen_mutation [OF Inr Some ok] by auto
      next
        case 3
        show ?thesis by (rule fresh [OF Inr Some 3 fresh_mutation [OF Inr Some 3]])
      qed
    qed
  qed
qed

lemma effect_answers: "answers request (fst (effect request st))"
  by (cases request) (auto simp: effect_def split: sum.splits)

lemma record_ok_mono: "record_ok b record \<Longrightarrow> b \<le> b' \<Longrightarrow> record_ok b' record"
  by (auto simp: record_ok_def)

lemma effect_generation_mono: "kv_next_generation st \<le> kv_next_generation (snd (effect request st))"
  using u64_less_inc [of "kv_next_generation st"]
  by (auto simp: effect_def split: MutationRequest.splits sum.splits)

lemma effect_entries:
  assumes "kv_entries (snd (effect request st)) name = Some record"
  shows "kv_entries st name = Some record \<or>
    (kv_next_generation st \<noteq> u64_max \<and>
     kv_next_generation (snd (effect request st)) = kv_next_generation st + 1 \<and>
     rec_generation record = kv_next_generation st \<and>
     rec_etag record = etag_for (kv_next_generation st))"
  using assms
  by (auto simp: effect_def put_record_def split: MutationRequest.splits sum.splits if_splits)

lemma effect_records_ok:
  assumes "kv_inv st" "kv_entries (snd (effect request st)) name = Some record"
  shows "record_ok (kv_next_generation (snd (effect request st))) record"
  using effect_entries [OF assms(2)]
proof (elim disjE conjE)
  assume "kv_entries st name = Some record"
  then show ?thesis
    using kv_invD(3) [OF assms(1)] effect_generation_mono record_ok_mono by blast
qed (use u64_less_inc in \<open>simp add: record_ok_def\<close>)

lemma kv_inv_new [simp]: "kv_inv kv_new"
  by (simp add: kv_inv_def kv_new_def)

lemma kv_inv_apply:
  assumes inv: "kv_inv st"
  shows "kv_inv (snd (kv_apply command st))"
  using inv
proof (cases rule: kv_apply_cases [of st command])
  case same
  then show ?thesis using inv by simp
next
  case register
  then show ?thesis
    using inv u64_less_inc [of "kv_next_client_id st"]
    by (auto simp: kv_inv_def session_ok_def session_default_def
        intro: less_trans split: if_splits)
next
  case (fresh request session)
  have "session_ok (session_record (cmd_sequence command) request
          (fst (effect request st)) session)"
    using mutation_of_InrD(3) [OF fresh(1)] effect_answers
    by (simp add: session_ok_def session_record_def)
  then show ?thesis
    using inv fresh effect_records_ok [OF inv]
    by (auto simp: kv_inv_def fresh_state_def)
qed

lemma kv_run_simps [simp]:
  "kv_run [] st = st"
  "kv_run (command # commands) st = kv_run commands (snd (kv_apply command st))"
  by (simp_all add: kv_run_def)

lemma kv_inv_run: "kv_inv st \<Longrightarrow> kv_inv (kv_run commands st)"
  by (induction commands arbitrary: st) (auto simp: kv_inv_apply)

section \<open>Mutations are applied at most once\<close>

definition sample_put :: "u64 \<Rightarrow> u8 list \<Rightarrow> string \<Rightarrow> KvCommand" where
  "sample_put n body if_match = Put 1 n ''n'' ''k'' body if_match False"

text \<open>A mutation of the same client with a greater sequence number.\<close>

definition supersedes :: "KvCommand \<Rightarrow> KvCommand \<Rightarrow> bool" where
  "supersedes command other \<longleftrightarrow> is_mutation other \<and> cmd_client other = cmd_client command \<and>
     cmd_sequence command < cmd_sequence other"

lemma session_kept_apply:
  assumes inv: "kv_inv st" and known: "kv_sessions st c = Some session"
  obtains (same) "kv_sessions (snd (kv_apply command st)) c = Some session"
  | (later) session' where "kv_sessions (snd (kv_apply command st)) c = Some session'"
      "is_mutation command" "cmd_client command = c"
      "ss_sequence session < ss_sequence session'" "ss_sequence session' = cmd_sequence command"
  using inv
proof (cases rule: kv_apply_cases [of st command])
  case same
  then show thesis using known that(1) by simp
next
  case register
  then show thesis using known kv_invD(1) [OF inv known] that(1) by auto
next
  case (fresh request session0)
  then show thesis
    using known that by (cases "cmd_client command = c")
      (auto simp: fresh_state_def session_record_def dest: mutation_of_is_mutation)
qed

text \<open>What a session says about a mutation after it has been applied.\<close>

lemma applied_mutation_in_session:
  assumes inv: "kv_inv st" and valid: "mutation_of command = Inr request"
    and known: "kv_sessions st (cmd_client command) = Some session"
    and run: "kv_apply command st = (answer, st')"
  shows "\<exists>session'. kv_sessions st' (cmd_client command) = Some session' \<and> session_ok session' \<and>
    cmd_sequence command \<le> ss_sequence session' \<and>
    kv_apply command st' = (answer, st')"
proof -
  have ok: "session_ok session" using kv_invD(2) [OF inv known] .
  have inv': "kv_inv st'" using kv_inv_apply [OF inv, of command] run by simp
  consider "cmd_sequence command \<le> ss_sequence session"
    | "ss_sequence session < cmd_sequence command" by (meson not_le)
  then show ?thesis
  proof cases
    case 1
    then have "st' = st"
      using stale_mutation [OF valid known] seen_mutation [OF valid known ok] run
      by (auto simp: order_le_less)
    then show ?thesis using 1 known ok run by simp
  next
    case 2
    note fresh = fresh_mutation [OF valid known 2]
    let ?session' = "session_record (cmd_sequence command) request
      (fst (effect request st)) session"
    have known': "kv_sessions st' (cmd_client command) = Some ?session'"
      using fresh run by (simp add: fresh_state_def)
    have seq: "cmd_sequence command = ss_sequence ?session'" by (simp add: session_record_def)
    note ok' = kv_invD(2) [OF inv' known']
    have "kv_apply command st' = (outcome (fst (effect request st)), st')"
      using seen_mutation [OF valid known' ok' seq] by (auto simp: session_record_def)
    then show ?thesis using known' ok' fresh run by (auto simp: session_record_def)
  qed
qed

definition kv_seen :: "KvCommand \<Rightarrow> ConnectError + KvApplyResult \<Rightarrow> KvState \<Rightarrow> bool" where
  "kv_seen command answer st \<longleftrightarrow> is_mutation command \<and> (case mutation_of command of
     Inl e \<Rightarrow> answer = Inl e
   | Inr request \<Rightarrow> \<exists>session. kv_sessions st (cmd_client command) = Some session \<and>
       cmd_sequence command \<le> ss_sequence session \<and>
       (cmd_sequence command = ss_sequence session \<longrightarrow> fst (kv_apply command st) = answer))"

text \<open>The answer of a mutation that is in its session, or older, depends on the session only.\<close>

lemma kv_apply_session:
  assumes "kv_inv st" "kv_inv st'" "mutation_of command = Inr request"
    and "kv_sessions st (cmd_client command) = Some session" "kv_sessions st' (cmd_client command) = Some session"
    and "cmd_sequence command \<le> ss_sequence session"
  shows "fst (kv_apply command st') = fst (kv_apply command st)"
proof (cases "cmd_sequence command = ss_sequence session")
  case True
  then show ?thesis
    using seen_mutation [OF assms(3,4) kv_invD(2) [OF assms(1,4)]]
      seen_mutation [OF assms(3,5) kv_invD(2) [OF assms(2,5)]] by auto
next
  case False
  then have "cmd_sequence command < ss_sequence session" using assms(6) by simp
  then show ?thesis using stale_mutation [OF assms(3,4)] stale_mutation [OF assms(3,5)] by simp
qed

lemma kv_seen_kept:
  assumes inv: "kv_inv st" and seen: "kv_seen command answer st"
  shows "kv_seen command answer (snd (kv_apply other st))"
proof (cases "mutation_of command")
  case (Inr request)
  with seen obtain session where s: "kv_sessions st (cmd_client command) = Some session"
    "cmd_sequence command \<le> ss_sequence session"
    "cmd_sequence command = ss_sequence session \<longrightarrow> fst (kv_apply command st) = answer"
    by (auto simp: kv_seen_def)
  from inv s(1) show ?thesis
  proof (cases rule: session_kept_apply [where command = other])
    case same
    then show ?thesis
      using seen s Inr kv_apply_session [OF inv kv_inv_apply [OF inv] Inr s(1) same s(2)]
      by (auto simp: kv_seen_def)
  next
    case (later session')
    then show ?thesis using seen s(2) Inr by (auto simp: kv_seen_def)
  qed
qed (use seen in \<open>simp add: kv_seen_def\<close>)

text \<open>As long as no later mutation of the client is recorded, its answer is the first one.\<close>

definition kv_cached :: "KvCommand \<Rightarrow> ConnectError + KvApplyResult \<Rightarrow> KvState \<Rightarrow> bool" where
  "kv_cached command answer st \<longleftrightarrow> kv_seen command answer st \<and> fst (kv_apply command st) = answer"

lemma kv_cached_kept:
  assumes inv: "kv_inv st" and cached: "kv_cached command answer st" and old: "\<not> supersedes command other"
  shows "kv_cached command answer (snd (kv_apply other st))"
proof (cases "mutation_of command")
  case (Inl e)
  with cached have "is_mutation command" "answer = Inl e" by (auto simp: kv_cached_def kv_seen_def)
  with Inl show ?thesis by (simp add: kv_cached_def kv_seen_def invalid_mutation)
next
  case (Inr request)
  with cached obtain session where s: "kv_sessions st (cmd_client command) = Some session"
    "cmd_sequence command \<le> ss_sequence session" by (auto simp: kv_cached_def kv_seen_def)
  have seen: "kv_seen command answer (snd (kv_apply other st))"
    using cached kv_seen_kept [OF inv] by (simp add: kv_cached_def)
  from inv s(1) show ?thesis
  proof (cases rule: session_kept_apply [where command = other])
    case same
    then show ?thesis
      using seen cached kv_apply_session [OF inv kv_inv_apply [OF inv] Inr s(1) same s(2)]
      by (simp add: kv_cached_def)
  next
    case (later session')
    then show ?thesis using old s(2) by (auto simp: supersedes_def)
  qed
qed

lemma kv_seen_repeats:
  assumes inv: "kv_inv st" and seen: "kv_seen command answer st"
  shows "snd (kv_apply command st) = st \<and>
    fst (kv_apply command st) \<in> {answer, Inl (aborted ''stale client sequence'')}"
proof (cases "mutation_of command")
  case (Inl e)
  then show ?thesis using seen invalid_mutation [of command e] by (simp add: kv_seen_def)
next
  case (Inr request)
  with seen obtain session where s: "kv_sessions st (cmd_client command) = Some session"
    "cmd_sequence command \<le> ss_sequence session"
    "cmd_sequence command = ss_sequence session \<longrightarrow> fst (kv_apply command st) = answer"
    by (auto simp: kv_seen_def)
  then consider "cmd_sequence command < ss_sequence session" | "cmd_sequence command = ss_sequence session"
    by (auto simp: order_le_less)
  then show ?thesis
  proof cases
    case 1
    then show ?thesis using stale_mutation [OF Inr s(1)] by simp
  next
    case 2
    then show ?thesis using s(3) seen_mutation [OF Inr s(1) kv_invD(2) [OF inv s(1)] 2] by auto
  qed
qed

lemma kv_seen_applied:
  assumes "kv_inv st" "is_mutation command" "cmd_client command \<in> dom (kv_sessions st)"
  shows "kv_seen command (fst (kv_apply command st)) (snd (kv_apply command st))"
proof (cases "mutation_of command")
  case (Inl e)
  then show ?thesis using assms(2) invalid_mutation [of command e] by (simp add: kv_seen_def)
next
  case (Inr request)
  from assms(3) obtain session where "kv_sessions st (cmd_client command) = Some session" by blast
  from applied_mutation_in_session [OF assms(1) Inr this prod.collapse [symmetric]] show ?thesis
    using Inr assms(2) by (auto simp: kv_seen_def)
qed

lemma kv_cached_applied:
  assumes "kv_inv st" "is_mutation command" "cmd_client command \<in> dom (kv_sessions st)"
  shows "kv_cached command (fst (kv_apply command st)) (snd (kv_apply command st))"
proof (cases "mutation_of command")
  case (Inl e)
  then show ?thesis
    using kv_seen_applied [OF assms] assms(2) invalid_mutation [of command e] by (simp add: kv_cached_def)
next
  case (Inr request)
  from assms(3) obtain session where "kv_sessions st (cmd_client command) = Some session" by blast
  from applied_mutation_in_session [OF assms(1) Inr this prod.collapse [symmetric]] show ?thesis
    using kv_seen_applied [OF assms] by (auto simp: kv_cached_def)
qed

interpretation kv_once: cached_answers kv_inv "\<lambda>command st. snd (kv_apply command st)" kv_apply
    "\<lambda>command st. is_mutation command \<and> cmd_client command \<in> dom (kv_sessions st)" kv_seen
    "\<lambda>_ _ _. True" "Inl (aborted ''stale client sequence'')" kv_cached supersedes
proof
  show "fst (kv_apply command st) = answer" if "kv_cached command answer st" for command answer st
    using that by (simp add: kv_cached_def)
qed (simp_all add: kv_inv_apply kv_seen_applied kv_seen_kept kv_seen_repeats kv_cached_applied
    kv_cached_kept del: insert_iff)

text \<open>
  C34: Exactly-once mutations. From any state the machine can be in, let a client with a registered
  session have a put or delete applied, and any further commands of any clients after it. When the
  same command is applied again, because the client retried it or because it was proposed twice,
  the state does not change, and the answer is the first answer. Only if the commands in between have
  a mutation of the same client with a greater sequence number, the answer may be the error for a
  stale sequence number instead.
\<close>

theorem mutation_applied_at_most_once:
  assumes "st = kv_run history kv_new"
    and "is_mutation command" "cmd_client command \<in> dom (kv_sessions st)"
    and "kv_apply command st = (answer, st1)" "st2 = kv_run commands st1"
  shows "snd (kv_apply command st2) = st2 \<and>
    fst (kv_apply command st2) \<in> {answer, Inl (aborted ''stale client sequence'')} \<and>
    ((\<exists>other \<in> set commands. supersedes command other) \<or> fst (kv_apply command st2) = answer)"
proof (rule kv_once.retry_answered_alike)
  show "kv_inv st" using assms(1) kv_inv_run kv_inv_new by simp
qed (use assms in \<open>simp_all add: kv_run_def\<close>)

theorem mutation_applied_at_most_once_witness:
  "\<exists>answer st1.
     kv_apply (sample_put 1 [7] []) (kv_run [RegisterSession] kv_new) = (answer, st1) \<and>
     answer = Inr (KvPut \<lparr>put_namespace = ''n'', put_key = ''k'', put_etag = etag_for 1,
       put_generation = 1, put_size = 1\<rparr>) \<and>
     kv_apply (sample_put 1 [7] []) (kv_run [RegisterSession] st1) =
       (answer, kv_run [RegisterSession] st1) \<and>
     snd (kv_apply (sample_put 1 [7] []) (kv_run [sample_put 2 [8] []] st1)) =
       kv_run [sample_put 2 [8] []] st1"
proof -
  let ?put = "sample_put 1 [7] []" and ?st = "kv_run [RegisterSession] kv_new"
  have eval: "fst (kv_apply ?put ?st) = Inr (KvPut \<lparr>put_namespace = ''n'', put_key = ''k'',
      put_etag = etag_for 1, put_generation = 1, put_size = 1\<rparr>)"
    "kv_sessions ?st 1 \<noteq> None"
    by code_simp+
  have put: "is_mutation ?put" "cmd_client ?put \<in> dom (kv_sessions ?st)"
    using eval(2) by (auto simp: is_mutation_def sample_put_def)
  have "\<not> supersedes ?put RegisterSession" by (simp add: supersedes_def is_mutation_def)
  then show ?thesis
    using mutation_applied_at_most_once [OF refl put prod.collapse [symmetric] refl, of "[RegisterSession]"]
      mutation_applied_at_most_once [OF refl put prod.collapse [symmetric] refl, of "[sample_put 2 [8] []]"] eval(1)
    by (intro exI [of _ "fst (kv_apply ?put ?st)"] exI [of _ "snd (kv_apply ?put ?st)"])
      (auto simp: prod_eq_iff)
qed

section \<open>Entity tags identify writes\<close>

lemma generation_mono_apply:
  assumes "kv_inv st"
  shows "kv_next_generation st \<le> kv_next_generation (snd (kv_apply command st))"
  using assms
  by (cases rule: kv_apply_cases [of st command])
    (auto simp: fresh_state_def effect_generation_mono)

lemma entries_old_or_new_apply:
  assumes "kv_inv st" "kv_entries (snd (kv_apply command st)) name = Some record"
  shows "kv_entries st name = Some record \<or> kv_next_generation st \<le> rec_generation record"
  using assms(1)
proof (cases rule: kv_apply_cases [of st command])
  case (fresh request session)
  then show ?thesis
    using assms(2) effect_entries [of request st name "record"] by (auto simp: fresh_state_def)
qed (use assms(2) in auto)

lemma entries_old_or_new_run:
  assumes "kv_inv st" "kv_entries (kv_run commands st) name = Some record"
  shows "kv_entries st name = Some record \<or> kv_next_generation st \<le> rec_generation record"
  using assms
proof (induction commands arbitrary: st)
  case (Cons command commands)
  let ?st = "snd (kv_apply command st)"
  have "kv_entries ?st name = Some record \<or> kv_next_generation ?st \<le> rec_generation record"
    using Cons kv_inv_apply by simp
  then show ?case
    using entries_old_or_new_apply [OF Cons.prems(1)] generation_mono_apply [OF Cons.prems(1)]
    by (meson order_trans)
qed simp

lemma same_etag_same_record:
  assumes "kv_inv st" "kv_entries st name = Some record"
    and "kv_entries (kv_run commands st) name' = Some record'" "rec_etag record' = rec_etag record"
  shows "kv_entries st name' = Some record'"
proof -
  have "record_ok (kv_next_generation st) record" using kv_invD(3) assms(1,2) by blast
  moreover have "record_ok (kv_next_generation (kv_run commands st)) record'"
    using kv_invD(3) kv_inv_run assms(1,3) by blast
  ultimately have "rec_generation record' < kv_next_generation st"
    using assms(4) by (simp add: record_ok_def)
  then show ?thesis using entries_old_or_new_run [OF assms(1,3)] by auto
qed

text \<open>
  C35: Compare and swap. Let a reader see a record under a name, and any commands be applied after
  that. A put of a new body whose \<open>if_match\<close> is the entity tag that was read, valid and with a
  sequence number new to its session, replaces the entry exactly if the entry is still the record
  that was read: no intervening write, deletion or re-creation goes unnoticed. If it is not, the
  answer is the precondition error and the entries stay as they are.
\<close>

theorem conditional_put_is_compare_and_swap:
  assumes "st = kv_run history kv_new" "kv_entries st name = Some record"
    and "st' = kv_run commands st"
    and "put = Put c n (name_namespace name) (name_key name) body (rec_etag record) False"
    and "mutation_of put = Inr (PutRequest name body (rec_etag record) False)"
    and "kv_sessions st' c = Some session" "ss_sequence session < n"
    and "kv_next_generation st' \<noteq> u64_max"
  shows "(fst (kv_apply put st'), kv_entries (snd (kv_apply put st'))) =
    (if kv_entries st' name = Some record
     then (Inr (KvPut (put_response name (kv_next_generation st') body)),
           (kv_entries st')(name \<mapsto> put_record (kv_next_generation st') body))
     else (Inl (failed_precondition ''ETag precondition failed''), kv_entries st'))"
proof -
  have inv: "kv_inv st" using assms(1) kv_inv_run kv_inv_new by simp
  have tag: "rec_etag record = etag_for (rec_generation record)"
    using kv_invD(3) [OF inv assms(2)] by (simp add: record_ok_def)
  have unique: "kv_entries st' name = Some record' \<Longrightarrow>
      rec_etag record' = rec_etag record \<longleftrightarrow> record' = record" for record'
    using same_etag_same_record [OF inv assms(2), of commands name record'] assms(2,3) by auto
  have "kv_apply put st' =
      (outcome (fst (effect (PutRequest name body (rec_etag record) False) st')),
       fresh_state put (PutRequest name body (rec_etag record) False) session st')"
    using assms(4-7) by (intro fresh_mutation) auto
  then show ?thesis
    using unique assms(8) tag
    by (cases "kv_entries st' name")
      (auto simp: fresh_state_def effect_def check_put_preconditions_def outcome_def
        connect_error_def)
qed

theorem conditional_put_is_compare_and_swap_witness:
  "let st = kv_run [RegisterSession, sample_put 1 [7] []] kv_new;
       st' = kv_run [sample_put 2 [8] []] st;
       name = \<lparr>name_namespace = ''n'', name_key = ''k''\<rparr>
   in fst (kv_apply (sample_put 2 [9] (etag_for 1)) st) = Inr (KvPut (put_response name 2 [9])) \<and>
      fst (kv_apply (sample_put 3 [9] (etag_for 1)) st') =
        Inl (failed_precondition ''ETag precondition failed'')"
proof -
  let ?st = "kv_run [RegisterSession, sample_put 1 [7] []] kv_new"
  let ?st' = "kv_run [sample_put 2 [8] []] ?st"
  let ?name = "\<lparr>name_namespace = ''n'', name_key = ''k''\<rparr>"
  have entry: "kv_entries ?st ?name = Some (put_record 1 [7])"
      "kv_entries ?st' ?name = Some (put_record 2 [8])" by code_simp+
  have generation: "kv_next_generation ?st = 2" "kv_next_generation ?st' = 3" by code_simp+
  have sequence: "map_option ss_sequence (kv_sessions ?st 1) = Some 1"
    "map_option ss_sequence (kv_sessions ?st' 1) = Some 2" by code_simp+
  then obtain s s' where session: "kv_sessions ?st 1 = Some s" "ss_sequence s = 1"
    "kv_sessions ?st' 1 = Some s'" "ss_sequence s' = 2" by auto
  have valid: "mutation_of (Put 1 n (name_namespace ?name) (name_key ?name) [9]
      (rec_etag (put_record 1 [7])) False) = Inr (PutRequest ?name [9] (rec_etag (put_record 1 [7])) False)"
    if "n \<noteq> 0" for n :: u64
  proof -
    have "validate_etag (rec_etag (put_record 1 [7])) = Inr ()" by code_simp
    then show ?thesis
      using that by (simp add: mutation_of_def validate_mutation_request_def validate_value_def
          validate_put_preconditions_def kv_name_new_def MAX_VALUE_BYTES_def
          MAX_NAMESPACE_BYTES_def MAX_KEY_BYTES_def)
  qed
  show ?thesis
    using conditional_put_is_compare_and_swap [OF refl entry(1) refl refl valid,
        where commands = "[]" and n = 2 and session = s]
      conditional_put_is_compare_and_swap [OF refl entry(1) refl refl valid,
        where commands = "[sample_put 2 [8] []]" and n = 3 and session = s']
      session entry generation
    by (simp add: sample_put_def put_record_def Let_def)
qed

section \<open>Reading back\<close>

text \<open>
  The reads of \<open>cloud9-node/src/service.rs\<close>: \<open>get\<close> and \<open>head\<close> wait for a read barrier, whose
  outcome is the first argument, and then look the name up in the entries.
\<close>

record HeadResponse =
  head_namespace :: string
  head_key :: string
  head_etag :: string
  head_generation :: u64
  head_size :: u64

record GetResponse = HeadResponse +
  get_body :: "u8 list"

definition service_head ::
    "ConnectError + unit \<Rightarrow> string \<Rightarrow> string \<Rightarrow> KvState \<Rightarrow> ConnectError + HeadResponse" where
  "service_head barrier namespace key st =
     res_bind (kv_name_new namespace key) (\<lambda>name.
     res_bind barrier (\<lambda>_.
     res_bind (ok_or key_not_found (kv_entries st name)) (\<lambda>record.
     res_bind (body_len (rec_body record)) (\<lambda>len.
     Inr \<lparr>head_namespace = name_namespace name, head_key = name_key name,
          head_etag = rec_etag record, head_generation = rec_generation record,
          head_size = len\<rparr>))))"

definition service_get ::
    "ConnectError + unit \<Rightarrow> string \<Rightarrow> string \<Rightarrow> KvState \<Rightarrow> ConnectError + GetResponse" where
  "service_get barrier namespace key st =
     res_bind (kv_name_new namespace key) (\<lambda>name.
     res_bind barrier (\<lambda>_.
     res_bind (ok_or key_not_found (kv_entries st name)) (\<lambda>record.
     res_bind (body_len (rec_body record)) (\<lambda>len.
     Inr \<lparr>head_namespace = name_namespace name, head_key = name_key name,
          head_etag = rec_etag record, head_generation = rec_generation record,
          head_size = len, get_body = rec_body record\<rparr>))))"

text \<open>The name a mutation is about.\<close>

definition touches :: "string \<Rightarrow> string \<Rightarrow> KvCommand \<Rightarrow> bool" where
  "touches namespace key command = (case command of
     Put _ _ ns k _ _ _ \<Rightarrow> ns = namespace \<and> k = key
   | Delete _ _ ns k _ \<Rightarrow> ns = namespace \<and> k = key
   | _ \<Rightarrow> False)"

fun request_name :: "MutationRequest \<Rightarrow> KvName" where
  "request_name (PutRequest name _ _ _) = name"
| "request_name (DeleteRequest name _) = name"

lemma mutation_of_name:
  "mutation_of command = Inr request \<Longrightarrow>
   touches (name_namespace (request_name request)) (name_key (request_name request)) command"
  by (cases command)
    (auto simp: mutation_of_def touches_def kv_name_new_def ressimps split: if_splits)

lemma effect_other_entry:
  "name \<noteq> request_name request \<Longrightarrow> kv_entries (snd (effect request st)) name = kv_entries st name"
  by (cases request) (auto simp: effect_def split: sum.splits)

lemma untouched_entry_run:
  assumes "kv_inv st" "list_all (\<lambda>command. \<not> touches namespace key command) commands"
  shows "kv_entries (kv_run commands st) \<lparr>name_namespace = namespace, name_key = key\<rparr> =
    kv_entries st \<lparr>name_namespace = namespace, name_key = key\<rparr>"
  using assms
proof (induction commands arbitrary: st)
  case (Cons command commands)
  let ?name = "\<lparr>name_namespace = namespace, name_key = key\<rparr>"
  from Cons.prems(1) have "kv_entries (snd (kv_apply command st)) ?name = kv_entries st ?name"
  proof (cases rule: kv_apply_cases [of st command])
    case (fresh request session)
    with Cons.prems(2) have "?name \<noteq> request_name request"
      using mutation_of_name [OF fresh(1)] by (cases "request_name request") auto
    then show ?thesis using fresh effect_other_entry by (simp add: fresh_state_def)
  qed auto
  then show ?case using Cons kv_inv_apply by simp
qed simp

text \<open>
  C36: Read your writes. When a put with a new sequence number is answered with a response, and the
  commands applied after it do not mutate the same name, then \<open>get\<close> of that name, once its barrier
  has passed, returns the body that was put, with the entity tag, generation and size of the response.
\<close>

theorem put_then_get:
  assumes "st = kv_run history kv_new"
    and "kv_sessions st c = Some session" "ss_sequence session < n"
    and "kv_apply (Put c n namespace key body if_match if_none_match) st =
          (Inr (KvPut response), st1)"
    and "list_all (\<lambda>command. \<not> touches namespace key command) commands"
  shows "service_get (Inr ()) namespace key (kv_run commands st1) =
    Inr \<lparr>head_namespace = namespace, head_key = key, head_etag = put_etag response,
         head_generation = put_generation response, head_size = put_size response,
         get_body = body\<rparr>"
proof -
  have inv: "kv_inv st" using assms(1) kv_inv_run kv_inv_new by simp
  let ?put = "Put c n namespace key body if_match if_none_match"
  let ?name = "\<lparr>name_namespace = namespace, name_key = key\<rparr>"
  let ?request = "PutRequest ?name body if_match if_none_match"
  have valid: "mutation_of ?put = Inr ?request" and name: "kv_name_new namespace key = Inr ?name"
    and small: "length body \<le> MAX_VALUE_BYTES"
    using assms(4) invalid_mutation [of ?put _ st]
    by (cases "mutation_of ?put"; force simp: is_mutation_def mutation_of_def kv_name_new_def
        validate_value_def ressimps split: if_splits)+
  have fresh: "kv_apply ?put st =
      (outcome (fst (effect ?request st)), fresh_state ?put ?request session st)"
    using assms(2,3) by (intro fresh_mutation [OF valid]) auto
  then have result: "outcome (fst (effect ?request st)) = Inr (KvPut response)"
    and st1: "st1 = fresh_state ?put ?request session st" using assms(4) by auto
  then have entry: "kv_entries st1 ?name = Some (put_record (kv_next_generation st) body)"
      "response = put_response ?name (kv_next_generation st) body"
    by (auto simp: effect_def outcome_def fresh_state_def split: sum.splits if_splits)
  have "kv_inv st1" using kv_inv_apply [OF inv, of ?put] assms(4) by simp
  then show ?thesis
    using untouched_entry_run [OF _ assms(5)] entry small name
    by (simp add: service_get_def put_record_def put_response_def)
qed

theorem put_then_get_witness:
  "\<exists>response st1. kv_apply (sample_put 1 [7] []) (kv_run [RegisterSession] kv_new) =
       (Inr (KvPut response), st1) \<and>
     service_get (Inr ()) ''n'' ''k'' (kv_run [RegisterSession, Delete 1 2 ''n'' ''other'' []] st1) =
       Inr \<lparr>head_namespace = ''n'', head_key = ''k'', head_etag = put_etag response,
            head_generation = put_generation response, head_size = put_size response,
            get_body = [7]\<rparr>"
proof -
  let ?st = "kv_run [RegisterSession] kv_new"
  have "kv_sessions ?st 1 = Some session_default" by code_simp
  moreover have "fst (kv_apply (sample_put 1 [7] []) ?st) =
      Inr (KvPut \<lparr>put_namespace = ''n'', put_key = ''k'', put_etag = etag_for 1,
        put_generation = 1, put_size = 1\<rparr>)"
    by code_simp
  ultimately show ?thesis
    using put_then_get [OF refl, where c = 1 and n = 1 and session = session_default and
        namespace = "''n''" and key = "''k''" and body = "[7]" and if_match = "[]" and
        if_none_match = False and history = "[RegisterSession]" and
        commands = "[RegisterSession, Delete 1 2 ''n'' ''other'' []]"]
    by (cases "kv_apply (sample_put 1 [7] []) ?st")
      (auto simp: sample_put_def session_default_def touches_def)
qed

lemma validation_error:
  "is_mutation command \<Longrightarrow> mutation_of command = Inl e \<Longrightarrow> e \<noteq> internal message"
  by (cases command)
    (auto simp: is_mutation_def mutation_of_def validate_mutation_request_def validate_value_def
      validate_put_preconditions_def validate_etag_def kv_name_new_def ressimps split: if_splits)

lemma mutation_answer:
  assumes inv: "kv_inv st" and mutation: "is_mutation command"
  shows "(\<exists>e. fst (kv_apply command st) = Inl e \<and> (\<forall>message. e \<noteq> internal message)) \<or>
    (\<exists>request result. mutation_of command = Inr request \<and> answers request result \<and>
       fst (kv_apply command st) = outcome result)"
proof (cases "mutation_of command")
  case (Inl e)
  then show ?thesis
    using invalid_mutation [OF mutation] validation_error [OF mutation] by fastforce
next
  case (Inr request)
  show ?thesis
  proof (cases "kv_sessions st (cmd_client command)")
    case None
    then show ?thesis using unknown_session [OF Inr] by simp
  next
    case (Some session)
    have ok: "session_ok session" using kv_invD(2) [OF inv Some] .
    consider "cmd_sequence command < ss_sequence session"
      | "cmd_sequence command = ss_sequence session"
      | "ss_sequence session < cmd_sequence command"
      by (meson linorder_cases)
    then show ?thesis
    proof cases
      case 1
      then show ?thesis using stale_mutation [OF Inr Some] by simp
    next
      case 2
      then show ?thesis
        using seen_mutation [OF Inr Some ok] ok Inr by (fastforce simp: session_ok_def)
    next
      case 3
      then show ?thesis using fresh_mutation [OF Inr Some 3] Inr effect_answers by auto
    qed
  qed
qed

text \<open>
  The session cache is never found broken. In every state the machine can be in, no command is
  answered with one of its internal errors (an incomplete or inconsistent cache, or a cached answer
  of the wrong kind), and a command that succeeds is answered with the response of its own kind.
\<close>

lemma no_internal_error:
  assumes "st = kv_run history kv_new"
  shows "(\<forall>message. fst (kv_apply command st) \<noteq> Inl (internal message)) \<and>
    (case fst (kv_apply command st) of
       Inl e \<Rightarrow> True
     | Inr (KvRegisterSession r) \<Rightarrow> command = RegisterSession
     | Inr KvReadBarrier \<Rightarrow> command = ReadBarrier
     | Inr (KvPut r) \<Rightarrow> \<exists>c n ns k b im inm. command = Put c n ns k b im inm
     | Inr (KvDelete r) \<Rightarrow> \<exists>c n ns k im. command = Delete c n ns k im)"
proof (cases "is_mutation command")
  case False
  then show ?thesis
    by (cases command) (auto simp: is_mutation_def apply_register apply_read_barrier)
next
  case True
  have inv: "kv_inv st" using assms kv_inv_run kv_inv_new by simp
  have "connect_error rejection \<noteq> internal message" for rejection message
    by (simp add: connect_error_def split: MutationRejection.splits)
  then have "outcome result \<noteq> Inl (internal message)" for result message
    by (simp add: outcome_def split: MutationResult.splits)
  moreover have "answers request result \<Longrightarrow> mutation_of command = Inr request \<Longrightarrow>
      (case outcome result of Inl e \<Rightarrow> True
       | Inr (KvPut r) \<Rightarrow> \<exists>c n ns k b im inm. command = Put c n ns k b im inm
       | Inr (KvDelete r) \<Rightarrow> \<exists>c n ns k im. command = Delete c n ns k im
       | _ \<Rightarrow> False)" for request result
    by (cases command; cases result) (auto simp: mutation_of_def outcome_def ressimps)
  ultimately show ?thesis
    using mutation_answer [OF inv True]
    by (fastforce split: sum.splits KvApplyResult.splits)
qed

end
