(* ===== verification/Kv_Service.thy ===== *)
theory Kv_Service
  imports Kv_State
begin

text \<open>
  The request handlers of the public service, \<open>cloud9-node/src/service.rs\<close>, with the requests of
  \<open>cloud9-proto/proto/cloud9/kv/v1/kv.proto\<close>. A handler validates the request, proposes a command
  and waits for its result: \<open>propose\<close>, the first argument, is the function from a command to the
  result that \<open>RaftRuntime::propose\<close> delivers for it. The reads \<open>service_head\<close> and \<open>service_get\<close> are
  in \<open>Kv_State\<close>; \<open>read_barrier\<close>, of \<open>runtime.rs\<close>, gives their barrier.
\<close>

record PutRpc =
  put_client_id :: u64
  put_sequence :: u64
  putreq_namespace :: string
  putreq_key :: string
  putreq_body :: "u8 list"
  putreq_if_match :: string
  putreq_if_none_match :: bool

record DeleteRpc =
  delreq_client_id :: u64
  delreq_sequence :: u64
  delreq_namespace :: string
  delreq_key :: string
  delreq_if_match :: string

record StatusResponse =
  status_node_id :: u64
  status_mode :: string
  status_key_count :: u64

definition service_register_session ::
    "(KvCommand \<Rightarrow> ConnectError + KvApplyResult) \<Rightarrow> ConnectError + RegisterSessionResponse" where
  "service_register_session propose =
     res_bind (propose RegisterSession) (\<lambda>result. case result of
       KvRegisterSession response \<Rightarrow> Inr response
     | _ \<Rightarrow> Inl (internal ''Raft session command mismatch''))"

definition service_put ::
    "(KvCommand \<Rightarrow> ConnectError + KvApplyResult) \<Rightarrow> PutRpc \<Rightarrow> ConnectError + PutResponse" where
  "service_put propose request =
     res_bind (validate_mutation_request (put_client_id request) (put_sequence request)) (\<lambda>_.
     res_bind (validate_put_preconditions (putreq_if_match request) (putreq_if_none_match request)) (\<lambda>_.
     res_bind (validate_value (putreq_body request)) (\<lambda>_.
     res_bind (kv_name_new (putreq_namespace request) (putreq_key request)) (\<lambda>_.
     res_bind (propose (Put (put_client_id request) (put_sequence request)
         (putreq_namespace request) (putreq_key request) (putreq_body request)
         (putreq_if_match request) (putreq_if_none_match request))) (\<lambda>result. case result of
       KvPut response \<Rightarrow> Inr response
     | _ \<Rightarrow> Inl (internal ''Raft put command mismatch''))))))"

definition service_delete ::
    "(KvCommand \<Rightarrow> ConnectError + KvApplyResult) \<Rightarrow> DeleteRpc \<Rightarrow> ConnectError + DeleteResponse" where
  "service_delete propose request =
     res_bind (validate_mutation_request (delreq_client_id request) (delreq_sequence request)) (\<lambda>_.
     res_bind (validate_etag (delreq_if_match request)) (\<lambda>_.
     res_bind (kv_name_new (delreq_namespace request) (delreq_key request)) (\<lambda>_.
     res_bind (propose (Delete (delreq_client_id request) (delreq_sequence request)
         (delreq_namespace request) (delreq_key request) (delreq_if_match request))) (\<lambda>result.
       case result of
         KvDelete response \<Rightarrow> Inr response
       | _ \<Rightarrow> Inl (internal ''Raft delete command mismatch'')))))"

definition read_barrier ::
    "(KvCommand \<Rightarrow> ConnectError + KvApplyResult) \<Rightarrow> ConnectError + unit" where
  "read_barrier propose =
     res_bind (propose ReadBarrier) (\<lambda>result. case result of
       KvReadBarrier \<Rightarrow> Inr ()
     | _ \<Rightarrow> Inl (internal ''Raft read barrier mismatch''))"

definition usize_to_u64 :: "nat \<Rightarrow> ConnectError + u64" where
  "usize_to_u64 n = ok_or (resource_exhausted ''key count overflow'') (u64_try_from n)"

definition service_status :: "u64 \<Rightarrow> string \<Rightarrow> KvState \<Rightarrow> ConnectError + StatusResponse" where
  "service_status node_id mode st =
     res_bind (usize_to_u64 (card (dom (kv_entries st)))) (\<lambda>count.
     Inr \<lparr>status_node_id = node_id, status_mode = mode, status_key_count = count\<rparr>)"

section \<open>The handlers answer what the state machine answers\<close>

definition put_command :: "PutRpc \<Rightarrow> KvCommand" where
  "put_command request = Put (put_client_id request) (put_sequence request)
     (putreq_namespace request) (putreq_key request) (putreq_body request)
     (putreq_if_match request) (putreq_if_none_match request)"

definition delete_command :: "DeleteRpc \<Rightarrow> KvCommand" where
  "delete_command request = Delete (delreq_client_id request) (delreq_sequence request)
     (delreq_namespace request) (delreq_key request) (delreq_if_match request)"

lemma put_invalid:
  assumes "mutation_of (put_command request) = Inl e"
  shows "service_put propose request = Inl e \<and> fst (kv_apply (put_command request) st) = Inl e"
proof -
  have "fst (kv_apply (put_command request) st) = Inl e"
    using invalid_mutation [of "put_command request" e st] assms
    by (simp add: put_command_def is_mutation_def)
  moreover have "service_put propose request = Inl e"
    using assms by (auto simp: put_command_def mutation_of_def service_put_def ressimps)
  ultimately show ?thesis by simp
qed

lemma delete_invalid:
  assumes "mutation_of (delete_command request) = Inl e"
  shows "service_delete propose request = Inl e \<and> fst (kv_apply (delete_command request) st) = Inl e"
proof -
  have "fst (kv_apply (delete_command request) st) = Inl e"
    using invalid_mutation [of "delete_command request" e st] assms
    by (simp add: delete_command_def is_mutation_def)
  moreover have "service_delete propose request = Inl e"
    using assms by (auto simp: delete_command_def mutation_of_def service_delete_def ressimps)
  ultimately show ?thesis by simp
qed

lemma put_passed:
  assumes "mutation_of (put_command request) = Inr mutation"
  shows "service_put propose request = res_bind (propose (put_command request)) (\<lambda>result. case result of
     KvPut response \<Rightarrow> Inr response | _ \<Rightarrow> Inl (internal ''Raft put command mismatch''))"
  using assms by (auto simp: put_command_def mutation_of_def service_put_def ressimps)

lemma delete_passed:
  assumes "mutation_of (delete_command request) = Inr mutation"
  shows "service_delete propose request = res_bind (propose (delete_command request)) (\<lambda>result.
     case result of KvDelete response \<Rightarrow> Inr response | _ \<Rightarrow> Inl (internal ''Raft delete command mismatch''))"
  using assms by (auto simp: delete_command_def mutation_of_def service_delete_def ressimps)

text \<open>
  C37: Request handlers. When the result of a proposal is what the state machine answers, in any
  state it can be in, a handler responds with exactly that answer: a response if the command
  succeeds, and otherwise the error of the state machine, never a mismatch error of its own. A
  request that the handler rejects before proposing is one that the state machine would reject
  with the same error, whatever \<open>propose\<close> would deliver.
\<close>

theorem handlers_answer_like_state_machine:
  assumes "st = kv_run history kv_new" "propose = (\<lambda>command. fst (kv_apply command st))"
  shows "(service_put propose put = Inr p \<longleftrightarrow> propose (put_command put) = Inr (KvPut p)) \<and>
    (service_put propose put = Inl e \<longleftrightarrow> propose (put_command put) = Inl e) \<and>
    (service_delete propose delete = Inr d \<longleftrightarrow> propose (delete_command delete) = Inr (KvDelete d)) \<and>
    (service_delete propose delete = Inl e \<longleftrightarrow> propose (delete_command delete) = Inl e) \<and>
    (service_register_session propose = Inr r \<longleftrightarrow> propose RegisterSession = Inr (KvRegisterSession r)) \<and>
    (service_register_session propose = Inl e \<longleftrightarrow> propose RegisterSession = Inl e) \<and>
    read_barrier propose = Inr () \<and>
    (mutation_of (put_command put) = Inl e \<longrightarrow> service_put other put = Inl e) \<and>
    (mutation_of (delete_command delete) = Inl e \<longrightarrow> service_delete other delete = Inl e)"
proof -
  note kind = no_internal_error [OF assms(1)]
  have "(service_put propose put = Inr p \<longleftrightarrow> propose (put_command put) = Inr (KvPut p)) \<and>
      (service_put propose put = Inl e \<longleftrightarrow> propose (put_command put) = Inl e)"
  proof (cases "mutation_of (put_command put)")
    case (Inl e')
    then show ?thesis using put_invalid [OF Inl] assms(2) by auto
  next
    case (Inr mutation)
    then show ?thesis
      using kind [of "put_command put"] assms(2)
      by (auto simp: put_passed ressimps put_command_def split: sum.splits KvApplyResult.splits)
  qed
  moreover have "(service_delete propose delete = Inr d \<longleftrightarrow> propose (delete_command delete) = Inr (KvDelete d)) \<and>
      (service_delete propose delete = Inl e \<longleftrightarrow> propose (delete_command delete) = Inl e)"
  proof (cases "mutation_of (delete_command delete)")
    case (Inl e')
    then show ?thesis using delete_invalid [OF Inl] assms(2) by auto
  next
    case (Inr mutation)
    then show ?thesis
      using kind [of "delete_command delete"] assms(2)
      by (auto simp: delete_passed ressimps delete_command_def split: sum.splits KvApplyResult.splits)
  qed
  moreover have "(service_register_session propose = Inr r \<longleftrightarrow>
      propose RegisterSession = Inr (KvRegisterSession r)) \<and>
      (service_register_session propose = Inl e \<longleftrightarrow> propose RegisterSession = Inl e)"
    using kind [of RegisterSession] assms(2) by (cases "propose RegisterSession")
      (auto simp: service_register_session_def split: KvApplyResult.splits)
  moreover have "read_barrier propose = Inr ()"
    by (simp add: read_barrier_def assms(2) kv_apply_def)
  ultimately show ?thesis using put_invalid delete_invalid by blast
qed

definition sample_rpc :: PutRpc where
  "sample_rpc = \<lparr>put_client_id = 1, put_sequence = 1, putreq_namespace = ''n'', putreq_key = ''k'',
     putreq_body = [7], putreq_if_match = [], putreq_if_none_match = True\<rparr>"

theorem handlers_answer_like_state_machine_witness:
  "let propose = (\<lambda>command. fst (kv_apply command (kv_run [RegisterSession] kv_new))) in
   service_put propose sample_rpc = Inr (put_response \<lparr>name_namespace = ''n'', name_key = ''k''\<rparr> 1 [7])"
proof -
  let ?propose = "\<lambda>command. fst (kv_apply command (kv_run [RegisterSession] kv_new))"
  have "?propose (put_command sample_rpc) =
      Inr (KvPut (put_response \<lparr>name_namespace = ''n'', name_key = ''k''\<rparr> 1 [7]))"
    by code_simp
  then show ?thesis
    using handlers_answer_like_state_machine [OF refl refl, of "[RegisterSession]" sample_rpc]
    by (simp add: Let_def)
qed

end
