(* ===== verification/Node_Runtime.thy ===== *)
theory Node_Runtime
  imports Node_Config Kv_Service Raft_Node
begin

text \<open>
  The driver of a node, \<open>cloud9-node/src/runtime.rs\<close>, and the peer transport it sends through,
  \<open>cloud9-node/src/transport.rs\<close>. The driver steps the Raft state machine, saves its persistent state,
  hands its messages to the transport, applies committed commands to the key-value state and
  completes the proposals that wait for them.

  The machine (node and store) is behind a mutex that an operation holds from its first step to its
  last, so an operation is a function of the runtime; \<open>None\<close> is a panic of the state machine. Two
  things happen at other times and are separate definitions: the check of the failure flag, which
  comes before the lock, and the end of a proposal, which comes after it. A \<open>oneshot\<close> channel is named
  by the identifier of its proposal; what is sent over it is appended to \<open>rt_answers\<close>, and a message
  for which the transport spawns a task to \<open>rt_outbox\<close>.

  \<open>Externals\<close> holds the functions of third-party crates: the checksum, the JSON codecs, HMAC-SHA256
  and the rendering of errors. \<open>Env\<close> holds what the environment decides in the course of one operation:
  the faults of the disk, whether a peer has a free slot for a message, and the number of turns of the
  apply loop before the task ends or is cancelled at its only point of suspension there.
\<close>

section \<open>Data\<close>

record Externals =
  ext_crc :: "bytes \<Rightarrow> u32"
  ext_enc_delta :: "PersistentDelta \<Rightarrow> bytes option"
  ext_dec_delta :: "bytes \<Rightarrow> PersistentDelta option"
  ext_enc_command :: "KvCommand \<Rightarrow> bytes option"
  ext_dec_command :: "bytes \<Rightarrow> KvCommand option"
  ext_enc_message :: "Message \<Rightarrow> bytes option"
  ext_dec_message :: "bytes \<Rightarrow> Message option"
  ext_mac :: "bytes \<Rightarrow> bytes \<Rightarrow> bytes option"
  ext_show :: "RuntimeError \<Rightarrow> string"

record Env =
  env_faults :: Faults
  env_sync_fails :: bool
  env_permits :: "Message \<Rightarrow> bool"
  env_turns :: nat

datatype MessageError =
    WrongRecipient NodeId NodeId
  | UnknownSender NodeId
  | SelfMessage

record PeerTransport =
  tr_peers :: "(NodeId \<times> SocketAddr) list"
  tr_key :: RaftKey

record PendingProposal =
  pp_id :: u64
  pp_command :: bytes

type_synonym ApplyResult = "ConnectError + KvApplyResult"

record RaftRuntime =
  rt_config :: NodeConfig
  rt_node :: RaftNode
  rt_store :: RaftStore
  rt_state :: KvState
  rt_waiters :: "LogIndex \<rightharpoonup> PendingProposal"
  rt_next_proposal_id :: u64
  rt_transport :: PeerTransport
  rt_failed :: bool
  rt_outbox :: "Message list"
  rt_answers :: "(u64 \<times> ApplyResult) list"

section \<open>The transport\<close>

definition MAX_RAFT_MESSAGE_BYTES :: nat where
  "MAX_RAFT_MESSAGE_BYTES = 2 * 1024 * 1024"

definition transport_new :: "NodeId \<Rightarrow> RaftKey \<Rightarrow> (NodeId \<times> SocketAddr) list \<Rightarrow> PeerTransport" where
  "transport_new me key peers =
     \<lparr>tr_peers = filter (\<lambda>(peer, _). peer \<noteq> me) peers, tr_key = key\<rparr>"

text \<open>The message for which a task is spawned, if any; the unknown recipient otherwise.\<close>

definition transport_send :: "bool \<Rightarrow> PeerTransport \<Rightarrow> Message \<Rightarrow> NodeId + Message list" where
  "transport_send permit transport message =
     (case map_of (tr_peers transport) (msg_to message) of
        None \<Rightarrow> Inl (msg_to message)
      | Some addr \<Rightarrow> Inr (if permit then [message] else []))"

text \<open>The signature header and the body of the request that is posted to the peer.\<close>

definition post_raft_message :: "Externals \<Rightarrow> RaftKey \<Rightarrow> Message \<Rightarrow> (bytes \<times> bytes) option" where
  "post_raft_message ext key message = do {
     body \<leftarrow> ext_enc_message ext message;
     if length body > MAX_RAFT_MESSAGE_BYTES then None
     else do {
       sig \<leftarrow> key_signature (ext_mac ext) key body;
       Some (sig, body)
     }
   }"

lemma post_raft_message_code [code]:
  "post_raft_message ext key message = do {
     body \<leftarrow> ext_enc_message ext message;
     if int (length body) > 2097152 then None
     else do {
       sig \<leftarrow> key_signature (ext_mac ext) key body;
       Some (sig, body)
     }
   }"
  by (simp add: post_raft_message_def MAX_RAFT_MESSAGE_BYTES_def)

section \<open>Proposals\<close>

definition pending_complete :: "PendingProposal \<Rightarrow> Command \<Rightarrow> ApplyResult \<Rightarrow> u64 \<times> ApplyResult" where
  "pending_complete pending command result =
     (pp_id pending,
      if pp_command pending = command_bytes command then result
      else Inl (aborted ''Raft proposal was superseded''))"

definition complete_waiter :: "LogIndex \<Rightarrow> Command \<Rightarrow> ApplyResult \<Rightarrow> RaftRuntime \<Rightarrow> RaftRuntime" where
  "complete_waiter index command result rt =
     (case rt_waiters rt index of
        None \<Rightarrow> rt
      | Some pending \<Rightarrow>
          rt\<lparr>rt_waiters := (rt_waiters rt)(index := None),
             rt_answers := rt_answers rt @ [pending_complete pending command result]\<rparr>)"

definition remove_pending :: "LogIndex \<Rightarrow> u64 \<Rightarrow> RaftRuntime \<Rightarrow> RaftRuntime" where
  "remove_pending index ident rt =
     (case rt_waiters rt index of
        None \<Rightarrow> rt
      | Some pending \<Rightarrow>
          if pp_id pending = ident then rt\<lparr>rt_waiters := (rt_waiters rt)(index := None)\<rparr> else rt)"

definition propose_error :: "ProposeError \<Rightarrow> ConnectError" where
  "propose_error error = (case error of
     ProposeNotLeader (Some leader) \<Rightarrow>
       failed_precondition (''not leader; leader is '' @ decimal (unat (node_raw leader)))
   | ProposeNotLeader None \<Rightarrow> failed_precondition ''not leader; leader unknown''
   | Throttled \<Rightarrow> resource_exhausted ''too many Raft proposals'')"

definition runtime_connect_error :: "Externals \<Rightarrow> RuntimeError \<Rightarrow> ConnectError" where
  "runtime_connect_error ext error = internal (''Raft runtime failed: '' @ ext_show ext error)"

section \<open>Effects\<close>

definition ensure_healthy :: "RaftRuntime \<Rightarrow> RuntimeError + unit" where
  "ensure_healthy rt = (if rt_failed rt then Inl RuntimeFailed else Inr ())"

definition send_message :: "Env \<Rightarrow> Message \<Rightarrow> RaftRuntime \<Rightarrow> RuntimeError + RaftRuntime" where
  "send_message env message rt =
     (case transport_send (env_permits env message) (rt_transport rt) message of
        Inl peer \<Rightarrow> Inl (UnknownPeer peer)
      | Inr spawned \<Rightarrow> Inr (rt\<lparr>rt_outbox := rt_outbox rt @ spawned\<rparr>))"

fun send_messages :: "Env \<Rightarrow> Message list \<Rightarrow> RaftRuntime \<Rightarrow> (RuntimeError + unit) \<times> RaftRuntime" where
  "send_messages env [] rt = (Inr (), rt)"
| "send_messages env (message # messages) rt =
     (case send_message env message rt of
        Inl e \<Rightarrow> (Inl e, rt)
      | Inr rt' \<Rightarrow> send_messages env messages rt')"

definition apply_command :: "Externals \<Rightarrow> Command \<Rightarrow> KvState \<Rightarrow> ApplyResult \<times> KvState" where
  "apply_command ext command st =
     (case ext_dec_command ext (command_bytes command) of
        None \<Rightarrow> (Inl (internal ''invalid Raft command payload''), st)
      | Some command \<Rightarrow> kv_apply command st)"

text \<open>The first argument is the number of turns of the loop.\<close>

fun apply_committed :: "nat \<Rightarrow> Externals \<Rightarrow> RaftRuntime \<Rightarrow> RaftRuntime" where
  "apply_committed 0 ext rt = rt"
| "apply_committed (Suc turns) ext rt =
     (case node_committed (rt_node rt) of
        [] \<Rightarrow> rt
      | entry # _ \<Rightarrow>
         (let (result, st) = apply_command ext (ce_command entry) (rt_state rt) in
          apply_committed turns ext
            (complete_waiter (ce_index entry) (ce_command entry) result
              (rt\<lparr>rt_state := st, rt_node := node_advance (rt_node rt) (ce_index entry)\<rparr>))))"

definition handle_effects ::
    "Externals \<Rightarrow> Env \<Rightarrow> Effects \<Rightarrow> RaftRuntime \<Rightarrow> ((RuntimeError + unit) \<times> RaftRuntime) option" where
  "handle_effects ext env effects rt = do {
     (saved, store) \<leftarrow>
       (if eff_persist effects
        then store_save (ext_crc ext) (ext_enc_delta ext) (env_faults env) (env_sync_fails env)
               (node_persistent (rt_node rt)) (rt_store rt)
        else Some (Inr (), rt_store rt));
     let rt = rt\<lparr>rt_store := store\<rparr>;
     Some (case saved of
        Inl e \<Rightarrow> (Inl (RuntimeStore e), rt)
      | Inr _ \<Rightarrow>
          if eff_send_snapshots effects \<noteq> [] then (Inl SnapshotTransportUnsupported, rt)
          else (case send_messages env (eff_messages effects) rt of
                  (Inl e, rt) \<Rightarrow> (Inl e, rt)
                | (Inr _, rt) \<Rightarrow> (Inr (), apply_committed (env_turns env) ext rt)))
   }"

section \<open>Operations\<close>

text \<open>\<open>self.handle_effects(...).await.map_err(|error| self.fail(error))\<close>.\<close>

definition settle_effects ::
    "Externals \<Rightarrow> Env \<Rightarrow> RaftNode \<times> Effects \<Rightarrow> RaftRuntime \<Rightarrow> ((RuntimeError + unit) \<times> RaftRuntime) option"
    where
  "settle_effects ext env moved rt = do {
     (r, rt) \<leftarrow> handle_effects ext env (snd moved) (rt\<lparr>rt_node := fst moved\<rparr>);
     Some (case r of
        Inl e \<Rightarrow> (Inl e, rt\<lparr>rt_failed := True\<rparr>)
      | Inr _ \<Rightarrow> (Inr (), rt))
   }"

text \<open>\<open>step\<close> and \<open>tick_once\<close> from the moment they hold the lock.\<close>

definition locked_step ::
    "Externals \<Rightarrow> Env \<Rightarrow> Message \<Rightarrow> RaftRuntime \<Rightarrow> ((RuntimeError + unit) \<times> RaftRuntime) option" where
  "locked_step ext env message rt = do {
     moved \<leftarrow> node_step (rt_node rt) message;
     settle_effects ext env moved rt
   }"

definition locked_tick ::
    "Externals \<Rightarrow> Env \<Rightarrow> RaftRuntime \<Rightarrow> ((RuntimeError + unit) \<times> RaftRuntime) option" where
  "locked_tick ext env rt = do {
     moved \<leftarrow> node_tick (rt_node rt);
     settle_effects ext env moved rt
   }"

definition runtime_step ::
    "Externals \<Rightarrow> Env \<Rightarrow> Message \<Rightarrow> RaftRuntime \<Rightarrow> ((RuntimeError + unit) \<times> RaftRuntime) option" where
  "runtime_step ext env message rt =
     (case ensure_healthy rt of
        Inl e \<Rightarrow> Some (Inl e, rt)
      | Inr _ \<Rightarrow> locked_step ext env message rt)"

definition tick_once ::
    "Externals \<Rightarrow> Env \<Rightarrow> RaftRuntime \<Rightarrow> ((RuntimeError + unit) \<times> RaftRuntime) option" where
  "tick_once ext env rt =
     (case ensure_healthy rt of
        Inl e \<Rightarrow> Some (Inl e, rt)
      | Inr _ \<Rightarrow> locked_tick ext env rt)"

definition validate_message :: "RaftRuntime \<Rightarrow> Message \<Rightarrow> MessageError + unit" where
  "validate_message rt message =
     (let me = nc_node_id (rt_config rt) in
      if msg_to message \<noteq> me then Inl (WrongRecipient me (msg_to message))
      else if msg_from message = me then Inl SelfMessage
      else if map_of (nc_peers (rt_config rt)) (msg_from message) = None
      then Inl (UnknownSender (msg_from message))
      else Inr ())"

definition verify_signature :: "Externals \<Rightarrow> RaftRuntime \<Rightarrow> bytes \<Rightarrow> bytes \<Rightarrow> bool" where
  "verify_signature ext rt body sig = key_verify (ext_mac ext) (nc_raft_key (rt_config rt)) body sig"

text \<open>\<open>propose\<close> up to the release of the lock: the index and the identifier of the proposal.\<close>

definition propose_start ::
    "Externals \<Rightarrow> Env \<Rightarrow> KvCommand \<Rightarrow> RaftRuntime
      \<Rightarrow> ((ConnectError + LogIndex \<times> u64) \<times> RaftRuntime) option" where
  "propose_start ext env command rt =
     (case ensure_healthy rt of
        Inl e \<Rightarrow> Some (Inl (runtime_connect_error ext e), rt)
      | Inr _ \<Rightarrow>
     (case checked_add (rt_next_proposal_id rt) 1 of
        None \<Rightarrow> Some (Inl (resource_exhausted ''proposal id space exhausted''), rt)
      | Some next_id \<Rightarrow>
         (let ident = rt_next_proposal_id rt; rt = rt\<lparr>rt_next_proposal_id := next_id\<rparr> in
          case ext_enc_command ext command of
            None \<Rightarrow> Some (Inl (internal ''failed to encode Raft command''), rt)
          | Some bytes \<Rightarrow> do {
              (node, answer) \<leftarrow> node_propose (rt_node rt) (Command bytes);
              let rt = rt\<lparr>rt_node := node\<rparr>;
              (case answer of
                 Inl e \<Rightarrow> Some (Inl (propose_error e), rt)
               | Inr (index, effects) \<Rightarrow> do {
                   (r, rt) \<leftarrow> handle_effects ext env effects
                     (rt\<lparr>rt_waiters := (rt_waiters rt)(index \<mapsto> \<lparr>pp_id = ident, pp_command = bytes\<rparr>)\<rparr>);
                   Some (case r of
                      Inl e \<Rightarrow> (Inl (runtime_connect_error ext e),
                        (remove_pending index ident rt)\<lparr>rt_failed := True\<rparr>)
                    | Inr _ \<Rightarrow> (Inr (index, ident), rt))
                 })
            })))"

text \<open>The rest of \<open>propose\<close>: what the receiver yields, with the cleanup. A receiver yields the value
  sent to it; an error when its sender is gone, which is when the proposal no longer waits; and
  otherwise the timeout runs out.\<close>

definition propose_finish :: "LogIndex \<times> u64 \<Rightarrow> RaftRuntime \<Rightarrow> ApplyResult \<times> RaftRuntime" where
  "propose_finish ticket rt =
     (let (index, ident) = ticket in
      (case map_of (rt_answers rt) ident of
         Some result \<Rightarrow> result
       | None \<Rightarrow>
          if map_option pp_id (rt_waiters rt index) = Some ident
          then Inl (unavailable ''Raft proposal timed out'')
          else Inl (aborted ''Raft proposal was dropped''),
       remove_pending index ident rt))"

text \<open>A proposal whose task is cancelled: \<open>PendingCleanup\<close> is dropped.\<close>

definition propose_cancel :: "LogIndex \<times> u64 \<Rightarrow> RaftRuntime \<Rightarrow> RaftRuntime" where
  "propose_cancel ticket rt = remove_pending (fst ticket) (snd ticket) rt"

definition runtime_mode :: "RaftRuntime \<Rightarrow> string" where
  "runtime_mode rt =
     (if node_is_leader (rt_node rt) then ''leader''
      else if node_is_candidate (rt_node rt) then ''candidate''
      else if node_is_precandidate (rt_node rt) then ''precandidate''
      else ''follower'')"

definition runtime_open ::
    "Externals \<Rightarrow> bool \<Rightarrow> NodeConfig \<Rightarrow> Dir \<Rightarrow> (RuntimeError + RaftRuntime) option" where
  "runtime_open ext lock_held config dir =
     (case validate_config config of
        Inl e \<Rightarrow> Some (Inl e)
      | Inr _ \<Rightarrow> do {
          initial \<leftarrow> node_new (nc_consensus config) (map fst (nc_peers config));
          (case store_open (ext_crc ext) (ext_dec_delta ext) lock_held dir (node_persistent initial) of
             Inl e \<Rightarrow> Some (Inl (RuntimeStore e))
           | Inr store \<Rightarrow> do {
               node \<leftarrow> node_restore (nc_consensus config) (st_durable store);
               Some (Inr \<lparr>rt_config = config, rt_node = node, rt_store = store, rt_state = kv_new,
                 rt_waiters = Map.empty, rt_next_proposal_id = 1,
                 rt_transport = transport_new (nc_node_id config) (nc_raft_key config) (nc_peers config),
                 rt_failed = False, rt_outbox = [], rt_answers = []\<rparr>)
             })
        })"

section \<open>Receiving\<close>

datatype StatusCode = NO_CONTENT | UNAUTHORIZED | BAD_REQUEST | INTERNAL_SERVER_ERROR

text \<open>The limit on the size of a body that \<open>raft_app\<close> installs is not represented: it is the one that
  \<open>post_raft_message\<close> keeps to.\<close>

definition receive_raft ::
    "Externals \<Rightarrow> Env \<Rightarrow> bytes option \<Rightarrow> bytes \<Rightarrow> RaftRuntime \<Rightarrow> (StatusCode \<times> RaftRuntime) option" where
  "receive_raft ext env header body rt =
     (case header of
        None \<Rightarrow> Some (UNAUTHORIZED, rt)
      | Some sig \<Rightarrow>
          if \<not> verify_signature ext rt body sig then Some (UNAUTHORIZED, rt)
          else (case ext_dec_message ext body of
            None \<Rightarrow> Some (BAD_REQUEST, rt)
          | Some message \<Rightarrow>
              (case validate_message rt message of
                 Inl e \<Rightarrow> Some (BAD_REQUEST, rt)
               | Inr _ \<Rightarrow> do {
                   (r, rt) \<leftarrow> runtime_step ext env message rt;
                   Some (case r of Inl e \<Rightarrow> INTERNAL_SERVER_ERROR | Inr _ \<Rightarrow> NO_CONTENT, rt)
                 })))"

text \<open>What is relied on of the third-party functions: bytes that encode a value decode to it, and the
  tags of the message authentication code have 32 bytes.\<close>

definition lawful :: "Externals \<Rightarrow> bool" where
  "lawful ext \<longleftrightarrow> faithful (ext_enc_delta ext) (ext_dec_delta ext) \<and>
     (\<forall>c b. ext_enc_command ext c = Some b \<longrightarrow> ext_dec_command ext b = Some c) \<and>
     (\<forall>m b. ext_enc_message ext m = Some b \<longrightarrow> ext_dec_message ext b = Some m) \<and>
     (\<forall>k b tag. ext_mac ext k b = Some tag \<longrightarrow> length tag = 32)"

section \<open>What an operation changes\<close>

lemma send_messages_outbox:
  assumes "send_messages env messages rt = (r, rt')"
  shows "\<exists>sent. rt' = rt\<lparr>rt_outbox := rt_outbox rt @ sent\<rparr> \<and> set sent \<subseteq> set messages"
  using assms
proof (induction messages arbitrary: rt)
  case Nil
  then show ?case by (auto intro: exI [of _ "[]"])
next
  case (Cons message messages)
  show ?case
  proof (cases "send_message env message rt")
    case (Inl e)
    then show ?thesis using Cons.prems by (auto intro: exI [of _ "[]"])
  next
    case (Inr rt1)
    then have "rt1 = rt\<lparr>rt_outbox := rt_outbox rt @ (if env_permits env message then [message] else [])\<rparr>"
      by (auto simp: send_message_def transport_send_def split: option.splits)
    moreover have "set (if env_permits env message then [message] else []) \<subseteq> {message}" by auto
    ultimately obtain first where first: "rt1 = rt\<lparr>rt_outbox := rt_outbox rt @ first\<rparr>" "set first \<subseteq> {message}"
      by blast
    from Cons.IH [of rt1] Cons.prems Inr obtain sent where
      "rt' = rt1\<lparr>rt_outbox := rt_outbox rt1 @ sent\<rparr>" "set sent \<subseteq> set messages" by auto
    with first show ?thesis by (intro exI [of _ "first @ sent"]) auto
  qed
qed

text \<open>The part of a runtime that applying commands leaves alone, and the node it ends with.\<close>

definition applies :: "RaftRuntime \<Rightarrow> RaftRuntime \<Rightarrow> bool" where
  "applies rt rt' \<longleftrightarrow>
     (\<exists>xs. rt_node rt' = fold (\<lambda>x n. node_advance n x) xs (rt_node rt)) \<and>
     rt_config rt' = rt_config rt \<and> rt_store rt' = rt_store rt \<and> rt_transport rt' = rt_transport rt \<and>
     rt_failed rt' = rt_failed rt \<and> rt_outbox rt' = rt_outbox rt \<and>
     rt_next_proposal_id rt' = rt_next_proposal_id rt"

lemma complete_waiter_frame [simp]:
  "rt_node (complete_waiter i c r rt) = rt_node rt" "rt_config (complete_waiter i c r rt) = rt_config rt"
  "rt_store (complete_waiter i c r rt) = rt_store rt" "rt_failed (complete_waiter i c r rt) = rt_failed rt"
  "rt_transport (complete_waiter i c r rt) = rt_transport rt"
  "rt_outbox (complete_waiter i c r rt) = rt_outbox rt" "rt_state (complete_waiter i c r rt) = rt_state rt"
  "rt_next_proposal_id (complete_waiter i c r rt) = rt_next_proposal_id rt"
  by (simp_all add: complete_waiter_def split: option.splits)

lemma remove_pending_frame [simp]:
  "rt_node (remove_pending i k rt) = rt_node rt" "rt_config (remove_pending i k rt) = rt_config rt"
  "rt_store (remove_pending i k rt) = rt_store rt" "rt_failed (remove_pending i k rt) = rt_failed rt"
  "rt_transport (remove_pending i k rt) = rt_transport rt" "rt_state (remove_pending i k rt) = rt_state rt"
  "rt_outbox (remove_pending i k rt) = rt_outbox rt" "rt_answers (remove_pending i k rt) = rt_answers rt"
  "rt_next_proposal_id (remove_pending i k rt) = rt_next_proposal_id rt"
  by (simp_all add: remove_pending_def split: option.splits)

lemma applies_refl: "applies rt rt"
  by (auto simp: applies_def intro: exI [of _ "[]"])

lemma applies_step:
  assumes "applies rt1 rt'" "rt1 = complete_waiter i c r (rt\<lparr>rt_state := st, rt_node := node_advance (rt_node rt) x\<rparr>)"
  shows "applies rt rt'"
proof -
  from assms obtain xs where "rt_node rt' = fold (\<lambda>x n. node_advance n x) xs (node_advance (rt_node rt) x)"
    by (auto simp: applies_def)
  then have "rt_node rt' = fold (\<lambda>x n. node_advance n x) (x # xs) (rt_node rt)" by simp
  then have "\<exists>xs. rt_node rt' = fold (\<lambda>x n. node_advance n x) xs (rt_node rt)" by blast
  then show ?thesis using assms unfolding applies_def by simp
qed

lemma apply_committed_applies: "applies rt (apply_committed turns ext rt)"
proof (induction turns arbitrary: rt)
  case 0
  show ?case by (simp add: applies_refl)
next
  case (Suc turns)
  show ?case
  proof (cases "node_committed (rt_node rt)")
    case Nil
    then show ?thesis by (simp add: applies_refl)
  next
    case (Cons entry rest)
    then show ?thesis using applies_step [OF Suc.IH refl] by (simp add: split_beta)
  qed
qed

lemma advances_persistent: "node_persistent (fold (\<lambda>x n. node_advance n x) xs n) = node_persistent n"
  by (induction xs arbitrary: n) (simp_all add: node_advance_def node_persistent_def)

lemma applies_persistent: "applies rt rt' \<Longrightarrow> node_persistent (rt_node rt') = node_persistent (rt_node rt)"
  by (auto simp: applies_def advances_persistent)

lemma store_save_durable:
  assumes "store_save crc enc faults sync_fails current store = Some (r, store')"
  shows "st_durable store' = (case r of Inl e \<Rightarrow> st_durable store | Inr _ \<Rightarrow> current)"
  using assms by (auto simp: store_save_def split: if_splits option.splits sum.splits prod.splits)

text \<open>The outcomes of handling effects: the save failed and nothing else has happened, or the state
  is saved where that was asked for, messages may have been sent and commands applied.\<close>

lemma handle_effects_cases:
  assumes "handle_effects ext env effects rt = Some (r, rt')"
  obtains (unsaved) e store where "eff_persist effects" "r = Inl (RuntimeStore e)" "rt' = rt\<lparr>rt_store := store\<rparr>"
      "store_save (ext_crc ext) (ext_enc_delta ext) (env_faults env) (env_sync_fails env)
         (node_persistent (rt_node rt)) (rt_store rt) = Some (Inl e, store)"
  | (settled) store sent where
      "if eff_persist effects
       then store_save (ext_crc ext) (ext_enc_delta ext) (env_faults env) (env_sync_fails env)
         (node_persistent (rt_node rt)) (rt_store rt) = Some (Inr (), store)
       else store = rt_store rt"
      "set sent \<subseteq> set (eff_messages effects)"
      "applies (rt\<lparr>rt_store := store, rt_outbox := rt_outbox rt @ sent\<rparr>) rt'"
      "rt' = rt\<lparr>rt_store := store, rt_outbox := rt_outbox rt @ sent\<rparr> \<or>
       r = Inr () \<and> rt' = apply_committed (env_turns env) ext
         (rt\<lparr>rt_store := store, rt_outbox := rt_outbox rt @ sent\<rparr>)"
proof -
  from assms obtain saved store where
    save: "(if eff_persist effects
        then store_save (ext_crc ext) (ext_enc_delta ext) (env_faults env) (env_sync_fails env)
               (node_persistent (rt_node rt)) (rt_store rt)
        else Some (Inr (), rt_store rt)) = Some (saved, store)"
    and rest: "(r, rt') = (case saved of
        Inl e \<Rightarrow> (Inl (RuntimeStore e), rt\<lparr>rt_store := store\<rparr>)
      | Inr _ \<Rightarrow>
          if eff_send_snapshots effects \<noteq> [] then (Inl SnapshotTransportUnsupported, rt\<lparr>rt_store := store\<rparr>)
          else (case send_messages env (eff_messages effects) (rt\<lparr>rt_store := store\<rparr>) of
                  (Inl e, rt) \<Rightarrow> (Inl e, rt)
                | (Inr _, rt) \<Rightarrow> (Inr (), apply_committed (env_turns env) ext rt)))"
    by (auto simp: handle_effects_def Option.bind_eq_Some_conv Let_def)
  show thesis
  proof (cases saved)
    case (Inl e)
    then show thesis using save rest by (intro unsaved) (auto split: if_splits)
  next
    case (Inr u)
    then have store: "if eff_persist effects
       then store_save (ext_crc ext) (ext_enc_delta ext) (env_faults env) (env_sync_fails env)
         (node_persistent (rt_node rt)) (rt_store rt) = Some (Inr (), store)
       else store = rt_store rt"
      using save by (auto split: if_splits)
    obtain r1 rt1 where send: "send_messages env (eff_messages effects) (rt\<lparr>rt_store := store\<rparr>) = (r1, rt1)"
      by (cases "send_messages env (eff_messages effects) (rt\<lparr>rt_store := store\<rparr>)")
    from send_messages_outbox [OF this] obtain sent where
      sent: "rt1 = rt\<lparr>rt_store := store, rt_outbox := rt_outbox rt @ sent\<rparr>" "set sent \<subseteq> set (eff_messages effects)"
      by auto
    consider "rt' = rt\<lparr>rt_store := store, rt_outbox := rt_outbox rt @ []\<rparr>" | "rt' = rt1"
      | "r = Inr ()" "rt' = apply_committed (env_turns env) ext rt1"
      using rest Inr send by (auto split: if_splits sum.splits)
    then show thesis
    proof cases
      case 1
      then show thesis by (intro settled [OF store, of "[]"]) (auto simp: applies_refl)
    next
      case 2
      then show thesis using sent by (intro settled [OF store sent(2)]) (auto simp: applies_refl)
    next
      case 3
      then show thesis
        using sent apply_committed_applies [of rt1] by (intro settled [OF store sent(2)]) auto
    qed
  qed
qed

lemma runtime_openD:
  assumes "runtime_open ext lock_held config dir = Some (Inr rt)"
  obtains initial store n where "validate_config config = Inr ()"
    "node_new (nc_consensus config) (map fst (nc_peers config)) = Some initial"
    "store_open (ext_crc ext) (ext_dec_delta ext) lock_held dir (node_persistent initial) = Inr store"
    "node_restore (nc_consensus config) (st_durable store) = Some n"
    "rt = \<lparr>rt_config = config, rt_node = n, rt_store = store, rt_state = kv_new,
       rt_waiters = Map.empty, rt_next_proposal_id = 1,
       rt_transport = transport_new (nc_node_id config) (nc_raft_key config) (nc_peers config),
       rt_failed = False, rt_outbox = [], rt_answers = []\<rparr>"
proof -
  obtain initial where initial: "validate_config config = Inr ()"
      "node_new (nc_consensus config) (map fst (nc_peers config)) = Some initial"
    using assms by (cases "validate_config config") (auto simp: runtime_open_def Option.bind_eq_Some_conv)
  show thesis
  proof (cases "store_open (ext_crc ext) (ext_dec_delta ext) lock_held dir (node_persistent initial)")
    case (Inl e)
    then show thesis using assms initial by (simp add: runtime_open_def)
  next
    case (Inr store)
    then show thesis
      using assms initial that [OF initial Inr] by (auto simp: runtime_open_def Option.bind_eq_Some_conv)
  qed
qed

lemma settle_effectsD:
  assumes "settle_effects ext env moved rt = Some (r, rt')"
  obtains r1 rt1 where "handle_effects ext env (snd moved) (rt\<lparr>rt_node := fst moved\<rparr>) = Some (r1, rt1)"
    "(r, rt') = (case r1 of Inl e \<Rightarrow> (Inl e, rt1\<lparr>rt_failed := True\<rparr>) | Inr _ \<Rightarrow> (Inr (), rt1))"
  using assms by (auto simp: settle_effects_def Option.bind_eq_Some_conv)

lemma receive_raft_cases:
  assumes "receive_raft ext env header body rt = Some (status, rt')"
  obtains (refused) "rt' = rt" "status = UNAUTHORIZED \<or> status = BAD_REQUEST"
  | (stepped) sig m r where "header = Some sig" "verify_signature ext rt body sig"
      "ext_dec_message ext body = Some m" "validate_message rt m = Inr ()"
      "runtime_step ext env m rt = Some (r, rt')"
      "status = (case r of Inl e \<Rightarrow> INTERNAL_SERVER_ERROR | Inr _ \<Rightarrow> NO_CONTENT)"
  using assms
  by (cases header; cases "ext_dec_message ext body";
      cases "validate_message rt (the (ext_dec_message ext body))")
    (auto simp: receive_raft_def Option.bind_eq_Some_conv split: if_splits)

lemma checked_inc: "checked_add x 1 = Some y \<Longrightarrow> y = x + 1 \<and> x < y"
  by (auto simp: checked_add_one u64_less_inc split: if_splits)

lemma node_propose_refused: "node_propose n cmd = Some (n', Inl e) \<Longrightarrow> n' = n"
  by (auto simp: node_propose_def Option.bind_eq_Some_conv split: RoleState.splits if_splits)

lemma propose_start_cases:
  assumes "propose_start ext env command rt = Some (r, rt')"
  obtains (refused) e next_id where "r = Inl e" "rt' = rt\<lparr>rt_next_proposal_id := next_id\<rparr>"
      "rt_next_proposal_id rt \<le> next_id"
  | (started) bytes next_id n index effects r1 rt1 where
      "ext_enc_command ext command = Some bytes" "rt_next_proposal_id rt < next_id" "\<not> rt_failed rt"
      "node_propose (rt_node rt) (Command bytes) = Some (n, Inr (index, effects))"
      "handle_effects ext env effects (rt\<lparr>rt_next_proposal_id := next_id, rt_node := n, rt_waiters :=
         (rt_waiters rt)(index \<mapsto> \<lparr>pp_id = rt_next_proposal_id rt, pp_command = bytes\<rparr>)\<rparr>) = Some (r1, rt1)"
      "(r, rt') = (case r1 of
         Inl e \<Rightarrow> (Inl (runtime_connect_error ext e),
           (remove_pending index (rt_next_proposal_id rt) rt1)\<lparr>rt_failed := True\<rparr>)
       | Inr _ \<Rightarrow> (Inr (index, rt_next_proposal_id rt), rt1))"
proof (cases "rt_failed rt")
  case True
  then show thesis
    using assms refused [of _ "rt_next_proposal_id rt"] by (auto simp: propose_start_def ensure_healthy_def)
next
  case healthy: False
  show thesis
  proof (cases "checked_add (rt_next_proposal_id rt) 1")
    case None
    then show thesis using assms healthy refused [of _ "rt_next_proposal_id rt"]
      by (auto simp: propose_start_def ensure_healthy_def)
  next
    case (Some next_id)
    note next_id = conjunct2 [OF checked_inc [OF Some]]
    show thesis
    proof (cases "ext_enc_command ext command")
      case None
      then show thesis using assms healthy Some next_id refused [of _ next_id]
        by (auto simp: propose_start_def ensure_healthy_def Let_def)
    next
      case enc: (Some bytes)
      with assms healthy Some obtain n answer where
        moved: "node_propose (rt_node rt) (Command bytes) = Some (n, answer)"
        by (auto simp: propose_start_def ensure_healthy_def Option.bind_eq_Some_conv Let_def)
      show thesis
      proof (cases answer)
        case (Inl e)
        then have "n = rt_node rt" using moved node_propose_refused by blast
        then show thesis using assms healthy Some enc moved Inl next_id refused [of _ next_id]
          by (auto simp: propose_start_def ensure_healthy_def Let_def)
      next
        case (Inr b)
        then show thesis
          using assms healthy Some moved started [OF enc next_id healthy, of n]
          by (cases b) (auto simp: propose_start_def ensure_healthy_def enc Option.bind_eq_Some_conv Let_def)
      qed
    qed
  qed
qed

section \<open>Nothing is visible before it is durable\<close>

definition synced :: "RaftRuntime \<Rightarrow> bool" where
  "synced rt \<longleftrightarrow> st_durable (rt_store rt) = node_persistent (rt_node rt)"

text \<open>What clients and peers can see of a runtime.\<close>

definition visible :: "RaftRuntime \<Rightarrow> Message list \<times> KvState \<times> (u64 \<times> ApplyResult) list" where
  "visible rt = (rt_outbox rt, rt_state rt, rt_answers rt)"

lemma handle_effects_synced:
  assumes "handle_effects ext env effects rt = Some (r, rt')" "eff_persist effects \<or> synced rt"
  shows "(visible rt' \<noteq> visible rt \<or> r = Inr () \<longrightarrow> synced rt') \<and> rt_failed rt' = rt_failed rt"
  using assms(1)
proof (cases rule: handle_effects_cases)
  case (unsaved e store)
  then show ?thesis by (simp add: visible_def)
next
  case (settled store sent)
  from settled(1) assms(2) have "st_durable store = node_persistent (rt_node rt)"
    by (auto simp: synced_def dest: store_save_durable split: if_splits)
  moreover have "rt_store rt' = store" "rt_failed rt' = rt_failed rt"
    using settled(3) by (simp_all add: applies_def)
  ultimately show ?thesis using applies_persistent [OF settled(3)] by (simp add: synced_def)
qed

text \<open>
  C10: Durable before visible. Let the durable state of a runtime be that of its node. When a message
  is processed, whatever the disk does, a message is released, a command applied or a proposal
  answered only if the durable state is again that of the node; and unless the runtime has failed,
  it is. The call returns an error exactly if the runtime has failed. The message must not contradict
  a snapshot in the log, which no message does as long as the log has none.
\<close>

theorem nothing_visible_before_sync:
  assumes "runtime_step ext env m rt = Some (r, rt')" "synced rt"
    and "term_room (node_core (rt_node rt)) (MessageEvent m)"
    and "wf_log (core_log (node_core (rt_node rt)))"
    and "agrees_with_snapshot (core_log (node_core (rt_node rt))) (MessageEvent m)"
  shows "(visible rt' \<noteq> visible rt \<or> \<not> rt_failed rt' \<longrightarrow> synced rt') \<and> (r = Inr () \<longleftrightarrow> \<not> rt_failed rt')"
proof (cases "rt_failed rt")
  case True
  then show ?thesis using assms(1,2) by (auto simp: runtime_step_def ensure_healthy_def)
next
  case False
  with assms(1) obtain n e r1 rt1 where
    step: "step_event (rt_node rt) (MessageEvent m) = Some (n, e)"
    and handle: "handle_effects ext env e (rt\<lparr>rt_node := n\<rparr>) = Some (r1, rt1)"
    and out: "(r, rt') = (case r1 of Inl e \<Rightarrow> (Inl e, rt1\<lparr>rt_failed := True\<rparr>) | Inr _ \<Rightarrow> (Inr (), rt1))"
    by (auto simp: runtime_step_def ensure_healthy_def locked_step_def settle_effects_def node_step_def
        Option.bind_eq_Some_conv)
  have "eff_persist e \<or> synced (rt\<lparr>rt_node := n\<rparr>)"
    using step_event_persisted [OF step assms(3-5)] assms(2)
    by (auto simp: persisted_def synced_def node_persistent_def)
  from handle_effects_synced [OF handle this] out False show ?thesis
    by (auto simp: visible_def synced_def split: sum.splits)
qed

text \<open>Stand-ins for the third-party functions: codecs given by tables.\<close>

definition table_dec :: "('a \<times> bytes) list \<Rightarrow> bytes \<Rightarrow> 'a option" where
  "table_dec table b = map_of (map prod.swap table) b"

lemma table_dec_enc:
  assumes "distinct (map snd table)" "map_of table x = Some b"
  shows "table_dec table b = Some x"
proof -
  have "(b, x) \<in> set (map prod.swap table)" using map_of_SomeD [OF assms(2)] by force
  moreover have "distinct (map fst (map prod.swap table))" using assms(1) by (simp add: comp_def)
  ultimately show ?thesis unfolding table_dec_def by (rule map_of_is_SomeI [rotated])
qed

definition sample_externals ::
    "(PersistentDelta \<times> bytes) list \<Rightarrow> (KvCommand \<times> bytes) list \<Rightarrow> (Message \<times> bytes) list \<Rightarrow> Externals" where
  "sample_externals deltas commands messages =
     \<lparr>ext_crc = sum_crc, ext_enc_delta = map_of deltas, ext_dec_delta = table_dec deltas,
      ext_enc_command = map_of commands, ext_dec_command = table_dec commands,
      ext_enc_message = map_of messages, ext_dec_message = table_dec messages,
      ext_mac = sample_mac, ext_show = (\<lambda>_. [])\<rparr>"

lemma sample_externals_lawful:
  assumes "distinct (map snd deltas)" "distinct (map snd commands)" "distinct (map snd messages)"
  shows "lawful (sample_externals deltas commands messages)"
  using assms by (auto simp: lawful_def faithful_def sample_externals_def sample_mac_def intro: table_dec_enc)

definition calm :: Env where
  "calm = \<lparr>env_faults = no_faults, env_sync_fails = False, env_permits = (\<lambda>_. True), env_turns = 5\<rparr>"

definition sample_addr :: "u16 \<Rightarrow> SocketAddr" where
  "sample_addr port = \<lparr>sa_octets = [127, 0, 0, 1], sa_port = port\<rparr>"

definition sample_node_config :: NodeConfig where
  "sample_node_config =
     \<lparr>nc_node_id = NodeId 1, nc_client_addr = sample_addr 80, nc_raft_addr = sample_addr 91,
      nc_peers = [(NodeId 1, sample_addr 91), (NodeId 2, sample_addr 92), (NodeId 3, sample_addr 93)],
      nc_raft_key = RaftKey (replicate 32 0),
      nc_storage = \<lparr>storage_name = ''default'', storage_data_dir = ''/data''\<rparr>,
      nc_consensus = raft_config (NodeId 1)\<rparr>"

definition leader_append :: "Entry list \<Rightarrow> Message" where
  "leader_append es = \<lparr>msg_from = NodeId 2, msg_to = NodeId 1, msg_term = 1, msg_payload =
     AppendRequest \<lparr>areq_prev_log_index = 0, areq_prev_log_term = 0, areq_entries = es,
       areq_leader_commit = 0\<rparr>\<rparr>"

definition sample_entry1 :: Entry where
  "sample_entry1 = \<lparr>entry_term = 1, entry_index = 1, entry_payload = CommandEntry (Command [1])\<rparr>"

definition append_delta :: PersistentDelta where
  "append_delta = \<lparr>pd_term = 1, pd_voted_for = None,
     pd_bootstrap_config = config_simple [NodeId 1, NodeId 2, NodeId 3],
     pd_truncate_after = 0, pd_entries = [sample_entry1]\<rparr>"

definition append_externals :: Externals where
  "append_externals = sample_externals [(append_delta, [1])] [] []"

definition opened_runtime :: "RaftRuntime option" where
  "opened_runtime = Option.bind (runtime_open (append_externals) False sample_node_config [])
     (\<lambda>r. case r of Inl e \<Rightarrow> None | Inr rt \<Rightarrow> Some rt)"

theorem nothing_visible_before_sync_witness:
  "\<exists>rt rt'. opened_runtime = Some rt \<and>
     runtime_step (append_externals) calm (leader_append [sample_entry1]) rt = Some (Inr (), rt') \<and>
     visible rt' \<noteq> visible rt \<and> synced rt' \<and>
     entries (p_log (st_durable (rt_store rt'))) = [sample_entry1]"
proof -
  let ?ext = "append_externals" and ?m = "leader_append [sample_entry1]"
  have "map_option (\<lambda>rt. st_durable (rt_store rt) = node_persistent (rt_node rt) \<and>
      term_room (node_core (rt_node rt)) (MessageEvent ?m) \<and> wf_log (core_log (node_core (rt_node rt))) \<and>
      agrees_with_snapshot (core_log (node_core (rt_node rt))) (MessageEvent ?m) \<and> rt_outbox rt = [] \<and>
      map_option (\<lambda>(r, rt'). (r, length (rt_outbox rt'), entries (p_log (st_durable (rt_store rt')))))
        (runtime_step ?ext calm ?m rt) = Some (Inr (), 1, [sample_entry1])) opened_runtime = Some True"
    by code_simp
  then obtain rt r rt' where rt: "opened_runtime = Some rt" "synced rt" "rt_outbox rt = []"
    "term_room (node_core (rt_node rt)) (MessageEvent ?m)" "wf_log (core_log (node_core (rt_node rt)))"
    "agrees_with_snapshot (core_log (node_core (rt_node rt))) (MessageEvent ?m)"
    and step: "runtime_step ?ext calm ?m rt = Some (r, rt')" "r = Inr ()" "length (rt_outbox rt') = 1"
    "entries (p_log (st_durable (rt_store rt'))) = [sample_entry1]"
    by (auto simp: synced_def)
  then have "visible rt' \<noteq> visible rt" by (auto simp: visible_def)
  with nothing_visible_before_sync [OF step(1) rt(2,4-6)] rt step show ?thesis by blast
qed

text \<open>
  C11: The health check is taken before the lock. An operation that found the runtime healthy may wait
  for the lock while the operation before it fails to save and marks the runtime failed; it then runs
  all the same. Here a follower fails to write an entry to disk, and a waiting heartbeat of the same
  leader makes it acknowledge that entry: the message is released, although the entry is neither in
  the durable state nor found by a restart.
\<close>

theorem unsynced_entry_acknowledged:
  "let ext = append_externals; torn = calm\<lparr>env_faults := no_faults\<lparr>torn_write := Some 7\<rparr>\<rparr> in
   \<exists>rt rt1 e rt2. opened_runtime = Some rt \<and> ensure_healthy rt = Inr () \<and>
     locked_step ext torn (leader_append [sample_entry1]) rt = Some (Inl e, rt1) \<and> rt_failed rt1 \<and>
     locked_step ext calm (leader_append []) rt1 = Some (Inr (), rt2) \<and>
     map msg_payload (rt_outbox rt2) =
       [AppendResponse \<lparr>aresp_success = True, aresp_last_log_index = 1\<rparr>] \<and>
     entries (p_log (st_durable (rt_store rt2))) = [] \<and>
     (\<exists>rt3. runtime_open ext False sample_node_config (snd (st_wal (rt_store rt2))) = Some (Inr rt3) \<and>
        entries (core_log (node_core (rt_node rt3))) = [])"
proof -
  let ?ext = "append_externals" and ?torn = "calm\<lparr>env_faults := no_faults\<lparr>torn_write := Some 7\<rparr>\<rparr>"
  let ?look = "\<lambda>(r, rt2). (r, map msg_payload (rt_outbox rt2), entries (p_log (st_durable (rt_store rt2))),
      map_option (\<lambda>r. case r of Inl e \<Rightarrow> None | Inr rt3 \<Rightarrow> Some (entries (core_log (node_core (rt_node rt3)))))
        (runtime_open ?ext False sample_node_config (snd (st_wal (rt_store rt2)))))"
  have "map_option (\<lambda>rt. (rt_failed rt, map_option (\<lambda>(r, rt1). (isl r, rt_failed rt1,
        map_option ?look (locked_step ?ext calm (leader_append []) rt1)))
      (locked_step ?ext ?torn (leader_append [sample_entry1]) rt))) opened_runtime =
    Some (False, Some (True, True, Some (Inr (),
      [AppendResponse \<lparr>aresp_success = True, aresp_last_log_index = 1\<rparr>], [], Some (Some []))))"
    by code_simp
  then obtain rt r rt1 rt2 zb where "opened_runtime = Some rt" "\<not> rt_failed rt"
    "locked_step ?ext ?torn (leader_append [sample_entry1]) rt = Some (r, rt1)" "isl r" "rt_failed rt1"
    "locked_step ?ext calm (leader_append []) rt1 = Some (Inr (), rt2)"
    "map msg_payload (rt_outbox rt2) = [AppendResponse \<lparr>aresp_success = True, aresp_last_log_index = 1\<rparr>]"
    "entries (p_log (st_durable (rt_store rt2))) = []"
    "runtime_open ?ext False sample_node_config (snd (st_wal (rt_store rt2))) = Some zb"
    "(case zb of Inl e \<Rightarrow> None | Inr rt3 \<Rightarrow> Some (entries (core_log (node_core (rt_node rt3))))) = Some []"
    by (auto simp: map_option_eq_Some)
  moreover then obtain e rt3 where "r = Inl e" "zb = Inr rt3" by (cases r; cases zb) auto
  ultimately show ?thesis unfolding Let_def ensure_healthy_def by fastforce
qed

section \<open>The apply loop\<close>

definition apply_entry :: "Externals \<Rightarrow> CommittedEntry \<Rightarrow> RaftRuntime \<Rightarrow> RaftRuntime" where
  "apply_entry ext entry rt =
     (let (result, st) = apply_command ext (ce_command entry) (rt_state rt) in
      complete_waiter (ce_index entry) (ce_command entry) result
        (rt\<lparr>rt_state := st, rt_node := node_advance (rt_node rt) (ce_index entry)\<rparr>))"

lemma apply_entry_node [simp]:
  "rt_node (apply_entry ext entry rt) = node_advance (rt_node rt) (ce_index entry)"
  by (simp add: apply_entry_def split_beta)

lemma apply_committed_Suc:
  "apply_committed (Suc turns) ext rt =
     (case node_committed (rt_node rt) of
        [] \<Rightarrow> rt | entry # _ \<Rightarrow> apply_committed turns ext (apply_entry ext entry rt))"
  by (simp add: apply_entry_def split: list.splits prod.splits)

lemma as_committed_index: "as_committed x = Some e \<Longrightarrow> ce_index e = entry_index x"
  by (auto split: EntryPayload.splits)

declare as_committed.simps [simp del]

lemma map_filter_after_hd:
  assumes "sorted_wrt (<) (map entry_index xs)" "List.map_filter as_committed xs = e # es"
  shows "List.map_filter as_committed (filter (\<lambda>x. ce_index e < entry_index x) xs) = es"
  using assms
proof (induction xs)
  case (Cons x xs)
  have sorted: "\<forall>y \<in> set xs. entry_index x < entry_index y" "sorted_wrt (<) (map entry_index xs)"
    using Cons.prems(1) by simp_all
  show ?case
  proof (cases "as_committed x")
    case None
    then have rest: "List.map_filter as_committed xs = e # es"
      using Cons.prems(2) by (simp add: map_filter_simps)
    then have "e \<in> set (List.map_filter as_committed xs)" by simp
    then obtain y where "y \<in> set xs" "as_committed y = Some e"
      by (auto simp: map_filter_def)
    with sorted(1) have "\<not> ce_index e < entry_index x"
      using as_committed_index [of y e] by (fastforce)
    then show ?thesis using Cons.IH [OF sorted(2) rest] by simp
  next
    case (Some e')
    then have e: "e' = e" "List.map_filter as_committed xs = es"
      using Cons.prems(2) by (simp_all add: map_filter_simps)
    then have "ce_index e = entry_index x" using as_committed_index [OF Some] by simp
    then have "filter (\<lambda>y. ce_index e < entry_index y) (x # xs) = xs"
      using sorted(1) by (simp add: filter_id_conv)
    then show ?thesis using e(2) by simp
  qed
qed (simp add: map_filter_simps)

lemma map_filter_index:
  "map ce_index (List.map_filter as_committed xs) =
     map entry_index (filter (\<lambda>x. as_committed x \<noteq> None) xs)"
  unfolding map_filter_def
  by (auto simp: as_committed_index)

abbreviation in_order :: "RaftNode \<Rightarrow> bool" where
  "in_order n \<equiv> wf_log (core_log (node_core n)) \<and> last_applied (node_core n) \<noteq> u64_max \<and>
     commit_index (node_core n) \<noteq> u64_max"

lemma committed_sorted: "in_order n \<Longrightarrow> sorted_wrt (<) (map ce_index (node_committed n))"
  using sorted_entries [of "core_log (node_core n)"]
  by (simp add: node_committed_eq map_filter_index sorted_wrt_map sorted_wrt_filter)

lemma committed_bound:
  assumes "in_order n" "e \<in> set (node_committed n)"
  shows "last_applied (node_core n) < ce_index e \<and> ce_index e \<le> commit_index (node_core n)"
proof -
  have "ce_index e \<in> set (map ce_index (node_committed n))" using assms(2) by simp
  then show ?thesis using assms(1) by (auto simp: node_committed_eq map_filter_index)
qed

lemma committed_advance:
  assumes "in_order n" "node_committed n = e # es"
  shows "in_order (node_advance n (ce_index e))" "node_committed (node_advance n (ce_index e)) = es"
proof -
  let ?n = "node_advance n (ce_index e)"
  have bound: "last_applied (node_core n) < ce_index e" "ce_index e \<le> commit_index (node_core n)"
    using committed_bound [OF assms(1)] assms(2) by auto
  then have "ce_index e \<noteq> u64_max" using assms(1) word_order.extremum_unique by fastforce
  then show order: "in_order ?n"
    using assms(1) by (auto simp: node_advance_def core_log_def)
  let ?xs = "filter (\<lambda>x. last_applied (node_core n) < entry_index x \<and>
       entry_index x \<le> commit_index (node_core n)) (entries (core_log (node_core n)))"
  have "sorted_wrt (<) (map entry_index ?xs)"
    using sorted_entries [of "core_log (node_core n)"] assms(1) by (simp add: sorted_wrt_map sorted_wrt_filter)
  moreover have "List.map_filter as_committed ?xs = e # es" using assms by (simp add: node_committed_eq)
  ultimately have "List.map_filter as_committed (filter (\<lambda>x. ce_index e < entry_index x) ?xs) = es"
    by (rule map_filter_after_hd)
  moreover have "filter (\<lambda>x. ce_index e < entry_index x) ?xs =
      filter (\<lambda>x. ce_index e < entry_index x \<and> entry_index x \<le> commit_index (node_core n))
        (entries (core_log (node_core n)))"
    using bound(1) by (auto intro!: filter_cong)
  ultimately show "node_committed ?n = es"
    using order by (simp add: node_committed_eq) (simp add: node_advance_def core_log_def)
qed

text \<open>
  C13: The apply loop. However many turns the loop over the committed entries runs before its task is
  cancelled, it applies exactly that many of them, in the order of the log and each once, although
  it asks the node again in each turn; what it has not applied is what is left to apply. With as
  many turns as there are committed entries it comes to its end.
\<close>

theorem apply_loop_takes_committed:
  assumes "wf_log (core_log (node_core (rt_node rt)))" "last_applied (node_core (rt_node rt)) \<noteq> u64_max"
    and "commit_index (node_core (rt_node rt)) \<noteq> u64_max"
  shows "apply_committed turns ext rt =
      fold (apply_entry ext) (take turns (node_committed (rt_node rt))) rt \<and>
    node_committed (rt_node (apply_committed turns ext rt)) = drop turns (node_committed (rt_node rt)) \<and>
    sorted_wrt (<) (map ce_index (node_committed (rt_node rt)))"
proof -
  have "in_order (rt_node rt)" using assms by simp
  then have "apply_committed turns ext rt =
      fold (apply_entry ext) (take turns (node_committed (rt_node rt))) rt \<and>
    node_committed (rt_node (apply_committed turns ext rt)) = drop turns (node_committed (rt_node rt))"
  proof (induction turns arbitrary: rt)
    case (Suc turns)
    show ?case
    proof (cases "node_committed (rt_node rt)")
      case (Cons e es)
      then show ?thesis
        using Suc.IH [of "apply_entry ext e rt"] committed_advance [OF Suc.prems Cons]
        by (auto simp: apply_committed_Suc simp del: apply_committed.simps)
    qed (simp add: apply_committed_Suc del: apply_committed.simps)
  qed simp
  then show ?thesis using committed_sorted [of "rt_node rt"] assms by blast
qed

definition sample_applying :: "RaftRuntime option" where
  "sample_applying = map_option (\<lambda>rt. rt\<lparr>rt_node :=
     sample_node\<lparr>node_core := sample_core\<lparr>commit_index := 7\<rparr>\<rparr>\<rparr>) opened_runtime"

theorem apply_loop_takes_committed_witness:
  "\<exists>rt. sample_applying = Some rt \<and> map ce_index (node_committed (rt_node rt)) = [6, 7] \<and>
     map ce_index (node_committed (rt_node (apply_committed 1 (append_externals) rt))) = [7]"
proof -
  have "map_option (\<lambda>rt. wf_log (core_log (node_core (rt_node rt))) \<and>
      last_applied (node_core (rt_node rt)) \<noteq> u64_max \<and> commit_index (node_core (rt_node rt)) \<noteq> u64_max \<and>
      map ce_index (node_committed (rt_node rt)) = [6, 7]) sample_applying = Some True"
    by code_simp
  then obtain rt where rt: "sample_applying = Some rt" "map ce_index (node_committed (rt_node rt)) = [6, 7]"
    "wf_log (core_log (node_core (rt_node rt)))" "last_applied (node_core (rt_node rt)) \<noteq> u64_max"
    "commit_index (node_core (rt_node rt)) \<noteq> u64_max"
    by auto
  note left = conjunct1 [OF conjunct2 [OF apply_loop_takes_committed [OF rt(3-5),
        of 1 "append_externals"]]]
  have "map ce_index (node_committed (rt_node (apply_committed 1 (append_externals) rt))) = [7]"
    unfolding left using rt(2) by (simp flip: drop_map)
  with rt show ?thesis by (intro exI [of _ rt] conjI)
qed

section \<open>The way of a message\<close>

text \<open>
  C14: Messages between nodes. What a node posts to a peer that holds the same key is processed there
  exactly as the message that was sent: it is refused if it is not addressed to the peer or not from
  another member of the cluster, and otherwise stepped, with the status telling whether that
  succeeded. With another body the signature is refused and nothing happens, unless the
  authentication code of the two bodies is the same.
\<close>

theorem posted_message_is_processed:
  assumes "lawful ext" "nc_raft_key (rt_config rt) = RaftKey key"
    and "post_raft_message ext (RaftKey key) m = Some (sig, body)"
  shows "receive_raft ext env (Some sig) body rt =
      (case validate_message rt m of
         Inl e \<Rightarrow> Some (BAD_REQUEST, rt)
       | Inr _ \<Rightarrow> map_option (\<lambda>(r, rt'). (case r of Inl e \<Rightarrow> INTERNAL_SERVER_ERROR | Inr _ \<Rightarrow> NO_CONTENT, rt'))
           (runtime_step ext env m rt)) \<and>
    (ext_mac ext key body' = ext_mac ext key body \<or>
     receive_raft ext env (Some sig) body' rt = Some (UNAUTHORIZED, rt))"
proof -
  from assms(3) have enc: "ext_enc_message ext m = Some body"
    and sig: "key_signature (ext_mac ext) (RaftKey key) body = Some sig"
    by (auto simp: post_raft_message_def Option.bind_eq_Some_conv split: if_splits)
  have dec: "ext_dec_message ext body = Some m" using assms(1) enc by (simp add: lawful_def)
  have verify: "verify_signature ext rt b sig \<longleftrightarrow> ext_mac ext key b = ext_mac ext key body" for b
    using signature_accepted_iff [OF _ sig] assms(1,2) by (simp add: verify_signature_def lawful_def)
  have "receive_raft ext env (Some sig) body rt =
      (case validate_message rt m of
         Inl e \<Rightarrow> Some (BAD_REQUEST, rt)
       | Inr _ \<Rightarrow> map_option (\<lambda>(r, rt'). (case r of Inl e \<Rightarrow> INTERNAL_SERVER_ERROR | Inr _ \<Rightarrow> NO_CONTENT, rt'))
           (runtime_step ext env m rt))"
    by (cases "validate_message rt m"; cases "runtime_step ext env m rt")
      (simp_all add: receive_raft_def verify dec split_beta)
  moreover have "ext_mac ext key body' = ext_mac ext key body \<or>
      receive_raft ext env (Some sig) body' rt = Some (UNAUTHORIZED, rt)"
    by (simp add: receive_raft_def verify)
  ultimately show ?thesis ..
qed

definition post_externals :: Externals where
  "post_externals = sample_externals [(append_delta, [1])] [] [(leader_append [sample_entry1], [9])]"

theorem posted_message_is_processed_witness:
  "\<exists>rt sig rt'. opened_runtime = Some rt \<and>
     post_raft_message post_externals (RaftKey (replicate 32 0)) (leader_append [sample_entry1]) = Some (sig, [9]) \<and>
     receive_raft post_externals calm (Some sig) [9] rt = Some (NO_CONTENT, rt') \<and>
     entries (core_log (node_core (rt_node rt'))) = [sample_entry1] \<and>
     receive_raft post_externals calm (Some sig) [8] rt = Some (UNAUTHORIZED, rt)"
proof -
  let ?m = "leader_append [sample_entry1]" and ?key = "replicate 32 0 :: u8 list"
  have "map_option (\<lambda>rt. (nc_raft_key (rt_config rt) = RaftKey ?key, isl (validate_message rt ?m),
      map_option (\<lambda>(r, rt'). (r, entries (core_log (node_core (rt_node rt')))))
        (runtime_step post_externals calm ?m rt))) opened_runtime =
    Some (True, False, Some (Inr (), [sample_entry1]))"
    by code_simp
  then obtain rt rt' where rt: "opened_runtime = Some rt" "nc_raft_key (rt_config rt) = RaftKey ?key"
    "\<not> isl (validate_message rt ?m)" "runtime_step post_externals calm ?m rt = Some (Inr (), rt')"
    "entries (core_log (node_core (rt_node rt'))) = [sample_entry1]"
    by auto
  have "map_option snd (post_raft_message post_externals (RaftKey ?key) ?m) = Some [9]" by code_simp
  then obtain sig where post: "post_raft_message post_externals (RaftKey ?key) ?m = Some (sig, [9])"
    by auto
  have mac: "ext_mac post_externals ?key [8] \<noteq> ext_mac post_externals ?key [9]" by code_simp
  have "lawful post_externals"
    unfolding post_externals_def by (rule sample_externals_lawful) simp_all
  note processed = posted_message_is_processed [OF this rt(2) post, of calm "[8]"]
  obtain u where "validate_message rt ?m = Inr u" using rt(3) by (cases "validate_message rt ?m") auto
  then have "receive_raft post_externals calm (Some sig) [9] rt = Some (NO_CONTENT, rt')"
    using conjunct1 [OF processed] rt(4) by simp
  moreover have "receive_raft post_externals calm (Some sig) [8] rt = Some (UNAUTHORIZED, rt)"
    using conjunct2 [OF processed] mac by blast
  ultimately show ?thesis using rt(1,5) post by blast
qed

end
