(* ===== verification/Node_History.thy ===== *)
theory Node_History
  imports Node_Runtime
begin

text \<open>
  The history of a runtime: the committed entries it has applied since it was opened, and the
  proposals it has accepted. The operations of \<open>cloud9-node/src/runtime.rs\<close> are taken in any order,
  and an answer that a client receives is traced back to the place of its command in the history.
\<close>

section \<open>The history of a runtime\<close>

datatype RtOp =
    OpTick Env
  | OpReceive Env "bytes option" bytes
  | OpPropose Env KvCommand
  | OpFinish "LogIndex \<times> u64"
  | OpCancel "LogIndex \<times> u64"

fun runtime_op :: "Externals \<Rightarrow> RtOp \<Rightarrow> RaftRuntime \<Rightarrow> RaftRuntime option" where
  "runtime_op ext (OpTick env) rt = map_option snd (tick_once ext env rt)"
| "runtime_op ext (OpReceive env header body) rt = map_option snd (receive_raft ext env header body rt)"
| "runtime_op ext (OpPropose env command) rt = map_option snd (propose_start ext env command rt)"
| "runtime_op ext (OpFinish ticket) rt = Some (snd (propose_finish ticket rt))"
| "runtime_op ext (OpCancel ticket) rt = Some (propose_cancel ticket rt)"

definition replay :: "Externals \<Rightarrow> CommittedEntry list \<Rightarrow> KvState \<Rightarrow> KvState" where
  "replay ext = fold (\<lambda>e st. snd (apply_command ext (ce_command e) st))"

text \<open>The commands of the entries that have one.\<close>

definition commands :: "Externals \<Rightarrow> CommittedEntry list \<Rightarrow> KvCommand list" where
  "commands ext = List.map_filter (\<lambda>e. ext_dec_command ext (command_bytes (ce_command e)))"

lemma commands_append: "commands ext (xs @ ys) = commands ext xs @ commands ext ys"
  by (simp add: commands_def map_filter_def)

lemma replay_commands: "replay ext es st = kv_run (commands ext es) st"
  by (induction es arbitrary: st)
    (simp_all add: replay_def commands_def kv_run_def apply_command_def split: option.splits)

text \<open>An answer that was sent is that of the entry at the proposal's index with the proposal's bytes.\<close>

definition explained ::
    "Externals \<Rightarrow> (u64 \<rightharpoonup> LogIndex \<times> bytes) \<Rightarrow> CommittedEntry list \<Rightarrow> u64 \<times> ApplyResult \<Rightarrow> bool" where
  "explained ext proposed applied answer \<longleftrightarrow>
     (\<forall>result. snd answer = Inr result \<longrightarrow>
        (\<exists>pre e post. applied = pre @ e # post \<and>
           proposed (fst answer) = Some (ce_index e, command_bytes (ce_command e)) \<and>
           fst (apply_command ext (ce_command e) (replay ext pre kv_new)) = Inr result))"

definition history ::
    "Externals \<Rightarrow> (u64 \<rightharpoonup> LogIndex \<times> bytes) \<Rightarrow> CommittedEntry list \<Rightarrow> RaftRuntime \<Rightarrow> bool" where
  "history ext proposed applied rt \<longleftrightarrow>
     rt_state rt = replay ext applied kv_new \<and>
     (\<forall>i p. rt_waiters rt i = Some p \<longrightarrow> proposed (pp_id p) = Some (i, pp_command p)) \<and>
     (\<forall>answer \<in> set (rt_answers rt). explained ext proposed applied answer \<and> proposed (fst answer) \<noteq> None) \<and>
     (\<forall>ident. proposed ident \<noteq> None \<longrightarrow> ident < rt_next_proposal_id rt)"

lemma explained_more: "explained ext P A answer \<Longrightarrow> explained ext P (A @ B) answer"
  unfolding explained_def by (metis append_Cons append_assoc)

lemma explained_proposed:
  "explained ext P A answer \<Longrightarrow> P (fst answer) \<noteq> None \<Longrightarrow> P \<subseteq>\<^sub>m P' \<Longrightarrow> explained ext P' A answer"
  unfolding explained_def map_le_def by (metis domIff option.distinct(1))

lemma history_cong:
  assumes "history ext P A rt" "rt_state rt' = rt_state rt" "rt_answers rt' = rt_answers rt"
    "rt_waiters rt' \<subseteq>\<^sub>m rt_waiters rt" "rt_next_proposal_id rt' = rt_next_proposal_id rt"
  shows "history ext P A rt'"
proof -
  have "rt_waiters rt i = Some p" if "rt_waiters rt' i = Some p" for i p
    using assms(4) that by (metis domI map_le_def)
  then show ?thesis using assms(1-3,5) unfolding history_def by auto
qed

lemma history_apply_entry:
  assumes "history ext P A rt"
  shows "history ext P (A @ [entry]) (apply_entry ext entry rt)"
proof -
  let ?e = "\<lambda>st. apply_command ext (ce_command entry) st"
  have st: "rt_state rt = replay ext A kv_new" using assms by (simp add: history_def)
  have new: "rt_state (apply_entry ext entry rt) = replay ext (A @ [entry]) kv_new"
    using st by (simp add: apply_entry_def replay_def split_beta)
  have answers: "explained ext P (A @ [entry]) (pending_complete p (ce_command entry) (fst (?e (rt_state rt))))"
    if "rt_waiters rt (ce_index entry) = Some p" for p
  proof -
    have "P (pp_id p) = Some (ce_index entry, pp_command p)" using assms that by (simp add: history_def)
    moreover have "\<exists>pre e post. A @ [entry] = pre @ e # post \<and> P i = Some (ce_index e, command_bytes (ce_command e)) \<and>
        fst (apply_command ext (ce_command e) (replay ext pre kv_new)) = Inr result"
      if "P i = Some (ce_index entry, command_bytes (ce_command entry))" "fst (?e (rt_state rt)) = Inr result"
      for i result
      using that st by - (rule exI [of _ A], rule exI [of _ entry], rule exI [of _ "[]"], simp)
    ultimately show ?thesis by (auto simp: explained_def pending_complete_def split: if_splits)
  qed
  show ?thesis
  proof (cases "rt_waiters rt (ce_index entry)")
    case None
    then show ?thesis
      using assms new explained_more
      by (auto simp: history_def apply_entry_def complete_waiter_def split_beta)
  next
    case (Some p)
    then have "P (pp_id p) \<noteq> None" using assms by (auto simp: history_def)
    then show ?thesis
      using assms new explained_more answers [OF Some] Some
      by (auto simp: history_def apply_entry_def complete_waiter_def split_beta pending_complete_def)
  qed
qed

lemma history_apply_committed:
  "history ext P A rt \<Longrightarrow> \<exists>B. history ext P (A @ B) (apply_committed turns ext rt)"
proof (induction turns arbitrary: A rt)
  case 0
  then show ?case by (intro exI [of _ "[]"]) simp
next
  case (Suc turns)
  show ?case
  proof (cases "node_committed (rt_node rt)")
    case Nil
    then show ?thesis using Suc.prems by (intro exI [of _ "[]"]) simp
  next
    case (Cons entry rest)
    from Suc.IH [OF history_apply_entry [OF Suc.prems, of entry]] obtain B where
      "history ext P (A @ entry # B) (apply_committed turns ext (apply_entry ext entry rt))" by auto
    then show ?thesis using Cons by (auto simp: apply_committed_Suc simp del: apply_committed.simps)
  qed
qed

lemma history_handle_effects:
  assumes "handle_effects ext env effects rt = Some (r, rt')" "history ext P A rt"
  shows "\<exists>B. history ext P (A @ B) rt'"
  using assms(1)
proof (cases rule: handle_effects_cases)
  case (unsaved e store)
  then show ?thesis using assms(2) by (intro exI [of _ "[]"]) (auto intro: history_cong)
next
  case (settled store sent)
  have "history ext P A (rt\<lparr>rt_store := store, rt_outbox := rt_outbox rt @ sent\<rparr>)"
    using assms(2) by (rule history_cong) auto
  then show ?thesis
    using settled(4) history_apply_committed by (metis append_Nil2)
qed

lemma history_settle:
  assumes "settle_effects ext env moved rt = Some (r, rt')" "history ext P A rt"
  shows "\<exists>B. history ext P (A @ B) rt'"
proof -
  obtain r1 rt1 where handle: "handle_effects ext env (snd moved) (rt\<lparr>rt_node := fst moved\<rparr>) = Some (r1, rt1)"
    and out: "(r, rt') = (case r1 of Inl e \<Rightarrow> (Inl e, rt1\<lparr>rt_failed := True\<rparr>) | Inr _ \<Rightarrow> (Inr (), rt1))"
    using assms(1) by (rule settle_effectsD)
  have "history ext P A (rt\<lparr>rt_node := fst moved\<rparr>)" using assms(2) by (rule history_cong) auto
  from history_handle_effects [OF handle this] obtain B where "history ext P (A @ B) rt1" by blast
  then have "history ext P (A @ B) rt'" by (rule history_cong) (use out in \<open>auto split: sum.splits\<close>)
  then show ?thesis ..
qed

lemma history_unchanged: "history ext P A rt \<Longrightarrow> \<exists>B. history ext P (A @ B) rt"
  by (rule exI [of _ "[]"]) simp

lemma history_tick:
  "tick_once ext env rt = Some (r, rt') \<Longrightarrow> history ext P A rt \<Longrightarrow> \<exists>B. history ext P (A @ B) rt'"
  by (auto simp: tick_once_def ensure_healthy_def locked_tick_def Option.bind_eq_Some_conv
      intro: history_settle history_unchanged split: if_splits)

lemma history_step:
  "runtime_step ext env m rt = Some (r, rt') \<Longrightarrow> history ext P A rt \<Longrightarrow> \<exists>B. history ext P (A @ B) rt'"
  by (auto simp: runtime_step_def ensure_healthy_def locked_step_def Option.bind_eq_Some_conv
      intro: history_settle history_unchanged split: if_splits)

lemma history_remove: "history ext P A rt \<Longrightarrow> history ext P A (remove_pending i k rt)"
  by (erule history_cong) (auto simp: remove_pending_def map_le_def split: option.splits)

lemma map_le_new: "P k = None \<Longrightarrow> P \<subseteq>\<^sub>m P(k \<mapsto> v)"
  by (auto simp: map_le_def)

lemma history_next:
  assumes "history ext P A rt" "rt_next_proposal_id rt < next_id"
  shows "history ext P A (rt\<lparr>rt_next_proposal_id := next_id\<rparr>)"
proof -
  have "k < next_id" if "P k \<noteq> None" for k
    using that assms less_trans unfolding history_def by blast
  then show ?thesis using assms(1) by (simp add: history_def)
qed

text \<open>A proposal gets an identifier that no earlier one has.\<close>

lemma history_insert:
  assumes hist: "history ext P A rt" and next_id: "rt_next_proposal_id rt < next_id"
  defines "ident \<equiv> rt_next_proposal_id rt"
  shows "history ext (P(ident \<mapsto> (index, bytes))) A
      (rt\<lparr>rt_next_proposal_id := next_id, rt_node := n,
          rt_waiters := (rt_waiters rt)(index \<mapsto> \<lparr>pp_id = ident, pp_command = bytes\<rparr>)\<rparr>)"
    and "P \<subseteq>\<^sub>m P(ident \<mapsto> (index, bytes))"
proof -
  have "P ident = None"
    using hist less_irrefl unfolding history_def ident_def by blast
  then show le: "P \<subseteq>\<^sub>m P(ident \<mapsto> (index, bytes))" by (rule map_le_new)
  have other: "k \<noteq> ident" if "P k = Some v" for k v using that \<open>P ident = None\<close> by auto
  have waiters: "\<forall>i p. rt_waiters rt i = Some p \<longrightarrow> P (pp_id p) = Some (i, pp_command p)"
    and answers: "\<forall>a \<in> set (rt_answers rt). explained ext P A a \<and> P (fst a) \<noteq> None"
    and ids: "\<forall>k. P k \<noteq> None \<longrightarrow> k < rt_next_proposal_id rt"
    and state: "rt_state rt = replay ext A kv_new"
    using hist by (simp_all add: history_def)
  have "(P(ident \<mapsto> (index, bytes))) (pp_id p) = Some (i, pp_command p)" if "rt_waiters rt i = Some p" for i p
    using that waiters other by (metis fun_upd_other)
  moreover have "\<forall>a \<in> set (rt_answers rt). explained ext (P(ident \<mapsto> (index, bytes))) A a \<and>
      (P(ident \<mapsto> (index, bytes))) (fst a) \<noteq> None"
    using answers explained_proposed [OF _ _ le] by auto
  moreover have "\<forall>k. (P(ident \<mapsto> (index, bytes))) k \<noteq> None \<longrightarrow> k < next_id"
    using ids next_id less_trans unfolding ident_def by (metis fun_upd_apply)
  ultimately show "history ext (P(ident \<mapsto> (index, bytes))) A
      (rt\<lparr>rt_next_proposal_id := next_id, rt_node := n,
          rt_waiters := (rt_waiters rt)(index \<mapsto> \<lparr>pp_id = ident, pp_command = bytes\<rparr>)\<rparr>)"
    using state by (simp add: history_def)
qed

lemma history_propose:
  assumes "propose_start ext env command rt = Some (r, rt')" "history ext P A rt"
  shows "\<exists>P' B. P \<subseteq>\<^sub>m P' \<and> history ext P' (A @ B) rt' \<and>
    (\<forall>index ident. r = Inr (index, ident) \<longrightarrow>
       (\<exists>bytes. ext_enc_command ext command = Some bytes \<and> P' ident = Some (index, bytes)))"
  using assms(1)
proof (cases rule: propose_start_cases)
  case (refused e next_id)
  then have "history ext P (A @ []) rt'"
    using history_next [OF assms(2)] assms(2) by (cases "rt_next_proposal_id rt = next_id") auto
  then show ?thesis using refused(1) map_le_refl by blast
next
  case (started bytes next_id n index effects r1 rt1)
  let ?P = "P(rt_next_proposal_id rt \<mapsto> (index, bytes))"
  note le = history_insert(2) [OF assms(2) started(2), where index = index and bytes = bytes]
  from history_handle_effects [OF started(5) history_insert(1) [OF assms(2) started(2)]] obtain B where
    B: "history ext ?P (A @ B) rt1" by blast
  have "history ext ?P (A @ B) ((remove_pending index (rt_next_proposal_id rt) rt1)\<lparr>rt_failed := True\<rparr>)"
    by (rule history_cong [OF history_remove [OF B, of index "rt_next_proposal_id rt"]]) auto
  with B have "history ext ?P (A @ B) rt'" using started(6) by (auto split: sum.splits)
  moreover have "\<forall>i k. r = Inr (i, k) \<longrightarrow> (\<exists>b. ext_enc_command ext command = Some b \<and> ?P k = Some (i, b))"
    using started(1,6) by (auto split: sum.splits)
  ultimately show ?thesis using le by blast
qed

lemma history_op:
  assumes "runtime_op ext op rt = Some rt'" "history ext P A rt"
  shows "\<exists>P' B. P \<subseteq>\<^sub>m P' \<and> history ext P' (A @ B) rt'"
proof -
  have same: ?thesis if "\<exists>B. history ext P (A @ B) rt'" using that map_le_refl by blast
  have removed: ?thesis if "rt' = remove_pending i k rt" for i k
    using that history_remove [OF assms(2)] by (intro same history_unchanged) simp
  show ?thesis
  proof (cases op)
    case (OpTick env)
    with assms(1) obtain r where "tick_once ext env rt = Some (r, rt')" by auto
    then show ?thesis by (intro same history_tick [OF _ assms(2)])
  next
    case (OpReceive env header body)
    with assms(1) obtain status where "receive_raft ext env header body rt = Some (status, rt')" by auto
    then show ?thesis
    proof (cases rule: receive_raft_cases)
      case refused
      then show ?thesis using assms(2) by (intro same history_unchanged) simp
    next
      case (stepped sig m r)
      then show ?thesis by (intro same history_step [OF _ assms(2)])
    qed
  next
    case (OpPropose env command)
    with assms(1) obtain r where "propose_start ext env command rt = Some (r, rt')" by auto
    from history_propose [OF this assms(2)] show ?thesis by blast
  next
    case (OpFinish ticket)
    then show ?thesis using assms(1) by (intro removed [of "fst ticket" "snd ticket"])
        (auto simp: propose_finish_def split_beta)
  next
    case (OpCancel ticket)
    then show ?thesis using assms(1) by (intro removed [of "fst ticket" "snd ticket"])
        (simp add: propose_cancel_def)
  qed
qed

lemma history_ops:
  assumes "fold_opt (runtime_op ext) ops rt = Some rt'" "history ext P A rt"
  shows "\<exists>P' B. P \<subseteq>\<^sub>m P' \<and> history ext P' (A @ B) rt'"
  using assms
proof (induction ops arbitrary: rt P A)
  case Nil
  then have "rt' = rt" by simp
  then show ?case using history_unchanged [OF Nil.prems(2)] map_le_refl by blast
next
  case (Cons op ops)
  from Cons.prems(1) obtain rt1 where rt1: "runtime_op ext op rt = Some rt1"
    "fold_opt (runtime_op ext) ops rt1 = Some rt'" by (auto simp: Option.bind_eq_Some_conv)
  from history_op [OF rt1(1) Cons.prems(2)] obtain P1 B1 where
    one: "P \<subseteq>\<^sub>m P1" "history ext P1 (A @ B1) rt1" by blast
  from Cons.IH [OF rt1(2) one(2)] obtain P2 B2 where "P1 \<subseteq>\<^sub>m P2" "history ext P2 (A @ B1 @ B2) rt'" by auto
  then show ?case using one(1) map_le_trans by blast
qed

lemma history_opened:
  assumes "runtime_open ext lock_held config dir = Some (Inr rt)"
  shows "history ext Map.empty [] rt"
  using assms by (rule runtime_openD) (simp add: history_def replay_def)

text \<open>
  C12: Acknowledged commands are applied. Open a runtime, with any contents of its directory, and run
  any operations: ticks, requests of peers, proposals, and ends and cancellations of proposals, with
  any disk faults and cancelled apply loops. When a client proposes a command and, after any further
  operations, is answered with a result, then the state is that of a sequence of commands that has
  the client's command at some place, and the result is what the state machine answers to the
  command at that place.
\<close>

theorem acknowledged_commands_are_applied:
  assumes "lawful ext" "runtime_open ext lock_held config dir = Some (Inr rt0)"
    and "fold_opt (runtime_op ext) ops rt0 = Some rt"
    and "propose_start ext env command rt = Some (Inr ticket, rt1)"
    and "fold_opt (runtime_op ext) ops' rt1 = Some rt2"
    and "fst (propose_finish ticket rt2) = Inr result"
  shows "\<exists>before after. rt_state rt2 = kv_run (before @ command # after) kv_new \<and>
    fst (kv_apply command (kv_run before kv_new)) = Inr result"
proof -
  obtain index ident where ticket: "ticket = (index, ident)" by (cases ticket)
  obtain P A where "history ext P A rt"
    using history_ops [OF assms(3) history_opened [OF assms(2)]] by auto
  from history_propose [OF assms(4) this] ticket obtain P1 A1 bytes where
    one: "history ext P1 A1 rt1" "ext_enc_command ext command = Some bytes" "P1 ident = Some (index, bytes)"
    by blast
  from history_ops [OF assms(5) one(1)] obtain P2 A2 where
    two: "P1 \<subseteq>\<^sub>m P2" "history ext P2 A2 rt2" by blast
  from two(1) one(3) have ident: "P2 ident = Some (index, bytes)" by (metis domI map_le_def)
  have "(ident, Inr result) \<in> set (rt_answers rt2)"
    using assms(6) ticket
    by (auto simp: propose_finish_def dest: map_of_SomeD split: option.splits if_splits)
  then have "explained ext P2 A2 (ident, Inr result)" using two(2) unfolding history_def by blast
  then obtain pre e post where e: "A2 = pre @ e # post"
    "P2 ident = Some (ce_index e, command_bytes (ce_command e))"
    "fst (apply_command ext (ce_command e) (replay ext pre kv_new)) = Inr result"
    by (auto simp: explained_def)
  have "ext_dec_command ext (command_bytes (ce_command e)) = Some command"
    using assms(1) one(2) e(2) ident by (auto simp: lawful_def)
  then have "commands ext A2 = commands ext pre @ command # commands ext post"
    "fst (kv_apply command (kv_run (commands ext pre) kv_new)) = Inr result"
    using e(1,3) by (simp_all add: commands_append replay_commands apply_command_def) (simp add: commands_def)
  moreover have "rt_state rt2 = kv_run (commands ext A2) kv_new"
    using two(2) by (simp add: history_def replay_commands)
  ultimately show ?thesis by auto
qed

text \<open>A node on its own, which elects itself in its first tick.\<close>

definition solo_config :: NodeConfig where
  "solo_config = sample_node_config\<lparr>nc_peers := [(NodeId 1, sample_addr 91)],
     nc_consensus := with_election_timeout (raft_config (NodeId 1)) 1 2\<rparr>"

definition solo_delta :: "Entry list \<Rightarrow> PersistentDelta" where
  "solo_delta es = \<lparr>pd_term = 1, pd_voted_for = Some (NodeId 1),
     pd_bootstrap_config = config_simple [NodeId 1], pd_truncate_after = 0, pd_entries = es\<rparr>"

definition solo_externals :: Externals where
  "solo_externals = sample_externals [(solo_delta [], [1]), (solo_delta [sample_entry1], [2])]
     [(RegisterSession, [1])] []"

definition solo_leader :: "RaftRuntime option" where
  "solo_leader = Option.bind (runtime_open solo_externals False solo_config [])
     (\<lambda>r. case r of Inl e \<Rightarrow> None | Inr rt \<Rightarrow> fold_opt (runtime_op solo_externals) [OpTick calm] rt)"

theorem acknowledged_commands_are_applied_witness:
  "\<exists>rt ticket rt1 before after. solo_leader = Some rt \<and>
     propose_start solo_externals calm RegisterSession rt = Some (Inr ticket, rt1) \<and>
     fst (propose_finish ticket rt1) = Inr (KvRegisterSession \<lparr>rs_client_id = 1\<rparr>) \<and>
     rt_state rt1 = kv_run (before @ RegisterSession # after) kv_new \<and>
     fst (kv_apply RegisterSession (kv_run before kv_new)) = Inr (KvRegisterSession \<lparr>rs_client_id = 1\<rparr>)"
proof -
  have "Option.bind solo_leader (\<lambda>rt. map_option (\<lambda>(r, rt1). case r of
        Inl e \<Rightarrow> None | Inr ticket \<Rightarrow> Some (fst (propose_finish ticket rt1)))
      (propose_start solo_externals calm RegisterSession rt)) =
    Some (Some (Inr (KvRegisterSession \<lparr>rs_client_id = 1\<rparr>)))"
    by code_simp
  then obtain rt r rt1 where rt: "solo_leader = Some rt"
    "propose_start solo_externals calm RegisterSession rt = Some (r, rt1)"
    "(case r of Inl e \<Rightarrow> None | Inr ticket \<Rightarrow> Some (fst (propose_finish ticket rt1))) =
      Some (Inr (KvRegisterSession \<lparr>rs_client_id = 1\<rparr>))"
    by (auto simp: Option.bind_eq_Some_conv)
  then obtain ticket where r: "r = Inr ticket"
    "fst (propose_finish ticket rt1) = Inr (KvRegisterSession \<lparr>rs_client_id = 1\<rparr>)"
    by (auto split: sum.splits)
  from rt(1) [unfolded solo_leader_def Option.bind_eq_Some_conv] obtain y where "runtime_open solo_externals False solo_config [] = Some y"
    "(case y of Inl e \<Rightarrow> None | Inr rt \<Rightarrow> fold_opt (runtime_op solo_externals) [OpTick calm] rt) = Some rt"
    by blast
  then obtain rt0 where rt0: "runtime_open solo_externals False solo_config [] = Some (Inr rt0)"
    "fold_opt (runtime_op solo_externals) [OpTick calm] rt0 = Some rt"
    by (cases y) (simp_all del: fold_opt.simps)
  have "lawful solo_externals"
    unfolding solo_externals_def by (rule sample_externals_lawful) simp_all
  from acknowledged_commands_are_applied [OF this rt0 rt(2) [unfolded r(1)] _ r(2), of "[]"]
  obtain before after where "rt_state rt1 = kv_run (before @ RegisterSession # after) kv_new"
    "fst (kv_apply RegisterSession (kv_run before kv_new)) = Inr (KvRegisterSession \<lparr>rs_client_id = 1\<rparr>)"
    by auto
  then show ?thesis
    using rt(1,2) r by - (rule exI [of _ rt], rule exI [of _ ticket], rule exI [of _ rt1],
      rule exI [of _ before], rule exI [of _ after], simp)
qed

end
