(* ===== verification/Node_Cluster.thy ===== *)
theory Node_Cluster
  imports Node_History Raft_Matching Raft_Progress
begin

text \<open>
  A cluster of runtimes, each with its write-ahead log on its own disk, that exchange signed requests.
  The steps are the operations of \<open>cloud9-node/src/runtime.rs\<close> and the receiving end of
  \<open>transport.rs\<close>, with any disk faults, dropped messages and cancelled tasks, and restarts from the
  directory that is left. The network keeps every request that was ever posted and may deliver it to
  any node, any number of times or never. The check \<open>ensure_healthy\<close> and the critical section that
  follows it are one step here: an operation that has passed the check of a runtime that then fails
  while it waits for the lock is the subject of \<open>unsynced_entry_acknowledged\<close> in \<open>Node_Runtime\<close>.

  The system is shown to be an implementation of the abstract cluster of \<open>Raft_Cluster\<close>, in which a
  node is the Raft state machine alone and its disk a value. The interesting case is a save that
  fails: the runtime stops, and only a later restart tells whether the state had reached the disk. The
  abstract step is taken only then, which is possible because nobody has seen anything of it.
\<close>

section \<open>Every state that is saved succeeds the one before\<close>

lemma cluster_step_succeeds:
  assumes "reachable cfg vs s" "cluster_step s s'"
    and "last_index (core_log (node_core (cl_nodes s' i))) \<noteq> u64_max"
  shows "succeeds (node_persistent (cl_nodes s i)) (node_persistent (cl_nodes s' i))"
proof -
  note reach' = reachable.step [OF assms(1,2)]
  have plain: "plain_log (core_log (node_core (cl_nodes s i)))" "plain_log (core_log (node_core (cl_nodes s' i)))"
    using reachable_inv [OF assms(1)] reachable_inv [OF reach']
    by (simp_all add: cluster_inv_def node_inv_def Let_def)
  have "traced (cl_ledger s) (node_entries s i)" "traced (cl_ledger s') (node_entries s' i)"
    using reachable_matching [OF assms(1)] reachable_matching [OF reach'] by (simp_all add: matching_inv_def)
  moreover have "traced (cl_ledger s') (node_entries s i)"
    using calculation(1) ledger_append_only [OF assms(1,2)] by (rule traced_grow)
  ultimately have "versions_match (node_entries s i) (node_entries s' i)"
    by (auto simp: versions_match_def intro: traced_agree)
  moreover obtain j n e where "s' = settle j n e s" "node_move (cl_ballots s) (cl_nodes s j) n e"
    using cluster_step_move [OF reachable_inv [OF assms(1)] assms(2)] by blast
  then have "core_term (node_core (cl_nodes s i)) \<le> core_term (node_core (cl_nodes s' i))"
    by (auto simp: node_move_def core_evolves_def)
  ultimately show ?thesis
    using plain assms(3) by (simp add: succeeds_def plain_log_def node_persistent_def core_log_def core_term_def)
qed

section \<open>The system\<close>

record System =
  sys_runtimes :: "NodeId \<Rightarrow> RaftRuntime"
  sys_posts :: "(bytes \<times> bytes) set"

definition posts :: "Externals \<Rightarrow> RaftRuntime \<Rightarrow> (bytes \<times> bytes) set" where
  "posts ext rt = {p. \<exists>m \<in> set (rt_outbox rt). post_raft_message ext (tr_key (rt_transport rt)) m = Some p}"

definition put_runtime :: "Externals \<Rightarrow> NodeId \<Rightarrow> RaftRuntime \<Rightarrow> System \<Rightarrow> System" where
  "put_runtime ext i rt sys =
     sys\<lparr>sys_runtimes := (sys_runtimes sys)(i := rt), sys_posts := sys_posts sys \<union> posts ext rt\<rparr>"

text \<open>Terms and log positions are kept below the wrap-around of \<open>u64\<close>.\<close>

definition in_bounds :: "RaftRuntime \<Rightarrow> bool" where
  "in_bounds rt \<longleftrightarrow>
     node_term (rt_node rt) \<noteq> u64_max \<and> last_index (core_log (node_core (rt_node rt))) \<noteq> u64_max"

inductive system_step :: "Externals \<Rightarrow> (NodeId \<Rightarrow> NodeConfig) \<Rightarrow> NodeId list \<Rightarrow> System \<Rightarrow> System \<Rightarrow> bool"
  for ext config vs where
  sys_tick: "\<lbrakk>i \<in> set vs; rt = sys_runtimes sys i; tick_once ext env rt = Some (r, rt');
      in_bounds rt; in_bounds rt'\<rbrakk>
      \<Longrightarrow> system_step ext config vs sys (put_runtime ext i rt' sys)"
| sys_receive: "\<lbrakk>i \<in> set vs; rt = sys_runtimes sys i; (sig, body) \<in> sys_posts sys;
      receive_raft ext env (Some sig) body rt = Some (status, rt'); in_bounds rt; in_bounds rt';
      \<forall>m. ext_dec_message ext body = Some m \<longrightarrow> msg_term m \<noteq> u64_max\<rbrakk>
      \<Longrightarrow> system_step ext config vs sys (put_runtime ext i rt' sys)"
| sys_propose: "\<lbrakk>i \<in> set vs; rt = sys_runtimes sys i; propose_start ext env command rt = Some (answer, rt');
      in_bounds rt; in_bounds rt'\<rbrakk>
      \<Longrightarrow> system_step ext config vs sys (put_runtime ext i rt' sys)"
| sys_finish: "\<lbrakk>i \<in> set vs; rt = sys_runtimes sys i; propose_finish ticket rt = (result, rt')\<rbrakk>
      \<Longrightarrow> system_step ext config vs sys (put_runtime ext i rt' sys)"
| sys_cancel: "\<lbrakk>i \<in> set vs; rt = sys_runtimes sys i; propose_cancel ticket rt = rt'\<rbrakk>
      \<Longrightarrow> system_step ext config vs sys (put_runtime ext i rt' sys)"
| sys_restart: "\<lbrakk>i \<in> set vs; rt = sys_runtimes sys i;
      runtime_open ext False (config i) (snd (st_wal (rt_store rt))) = Some (Inr rt')\<rbrakk>
      \<Longrightarrow> system_step ext config vs sys (put_runtime ext i rt' sys)"

text \<open>The members start from empty directories, with the same set of peers.\<close>

definition system_start :: "Externals \<Rightarrow> (NodeId \<Rightarrow> NodeConfig) \<Rightarrow> NodeId list \<Rightarrow> System \<Rightarrow> bool" where
  "system_start ext config vs sys \<longleftrightarrow> sys_posts sys = {} \<and>
     (\<forall>i \<in> set vs. nc_node_id (config i) = i \<and> map fst (nc_peers (config i)) = vs \<and>
        runtime_open ext False (config i) [] = Some (Inr (sys_runtimes sys i)))"

inductive system_reachable :: "Externals \<Rightarrow> (NodeId \<Rightarrow> NodeConfig) \<Rightarrow> NodeId list \<Rightarrow> System \<Rightarrow> bool"
  for ext config vs where
  sys_start: "system_start ext config vs sys \<Longrightarrow> system_reachable ext config vs sys"
| sys_step: "system_reachable ext config vs sys \<Longrightarrow> system_step ext config vs sys sys' \<Longrightarrow>
    system_reachable ext config vs sys'"

section \<open>The simulation relation\<close>

definition boot_state :: "NodeId list \<Rightarrow> Persistent" where
  "boot_state vs = persistent_default\<lparr>p_bootstrap_config := config_simple vs\<rparr>"

text \<open>A step that node \<open>i\<close> can take.\<close>

definition can_move :: "Cluster \<Rightarrow> NodeId \<Rightarrow> RaftNode \<Rightarrow> Effects \<Rightarrow> bool" where
  "can_move s i n e \<longleftrightarrow>
     node_tick (cl_nodes s i) = Some (n, e) \<and> node_term (cl_nodes s i) \<noteq> u64_max \<or>
     (\<exists>m \<in> cl_network s. msg_to m = i \<and> node_step (cl_nodes s i) m = Some (n, e) \<and>
        node_term (cl_nodes s i) \<noteq> u64_max \<and> msg_term m \<noteq> u64_max) \<or>
     (\<exists>cmd x. node_propose (cl_nodes s i) cmd = Some (n, Inr (x, e)) \<and>
        last_index (core_log (node_core (cl_nodes s i))) \<noteq> u64_max)"

lemma can_move_step: "can_move s i n e \<Longrightarrow> cluster_step s (settle i n e s)"
  unfolding can_move_def by (elim disjE bexE exE conjE) (auto intro: cluster_step.intros)

text \<open>What a runtime has to do with its node in the abstract cluster. Of a failed runtime only the
  disk counts: a restart finds the abstract disk, or the outcome of a step still to be taken.\<close>

definition disk_ok :: "Cluster \<Rightarrow> NodeId \<Rightarrow> Persistent \<Rightarrow> bool" where
  "disk_ok s i d \<longleftrightarrow> d = cl_disk s i \<or> (\<exists>n e. can_move s i n e \<and> eff_persist e \<and> d = node_persistent n)"

definition represents :: "Externals \<Rightarrow> NodeConfig \<Rightarrow> NodeId list \<Rightarrow> Cluster \<Rightarrow> NodeId \<Rightarrow> RaftRuntime \<Rightarrow> bool" where
  "represents ext config vs s i rt \<longleftrightarrow>
     rt_config rt = config \<and> set (rt_outbox rt) \<subseteq> cl_network s \<and>
     (if rt_failed rt
      then restart_finds (ext_crc ext) (ext_dec_delta ext) (boot_state vs) (rt_store rt) {d. disk_ok s i d}
      else cl_nodes s i = rt_node rt \<and> cl_disk s i = st_durable (rt_store rt) \<and>
        (\<exists>recs. store_inv (ext_crc ext) (ext_dec_delta ext) (boot_state vs) (rt_store rt) recs))"

definition simulates ::
    "Externals \<Rightarrow> (NodeId \<Rightarrow> NodeConfig) \<Rightarrow> NodeId list \<Rightarrow> (NodeId \<Rightarrow> Config) \<Rightarrow> Cluster \<Rightarrow> System \<Rightarrow> bool" where
  "simulates ext config vs cfg s sys \<longleftrightarrow> reachable cfg vs s \<and>
     (\<forall>i \<in> set vs. cfg i = nc_consensus (config i) \<and> nc_node_id (config i) = i \<and>
        map fst (nc_peers (config i)) = vs \<and>
        represents ext (config i) vs s i (sys_runtimes sys i)) \<and>
     (\<forall>(sig, body) \<in> sys_posts sys. \<exists>m \<in> cl_network s. ext_dec_message ext body = Some m)"

text \<open>Steps that concern node \<open>i\<close> only.\<close>

definition moves_only :: "NodeId \<Rightarrow> Cluster \<Rightarrow> Cluster \<Rightarrow> bool" where
  "moves_only i s s' \<longleftrightarrow> cl_network s \<subseteq> cl_network s' \<and>
     (\<forall>j. j \<noteq> i \<longrightarrow> cl_nodes s' j = cl_nodes s j \<and> cl_disk s' j = cl_disk s j)"

lemma moves_only_refl: "moves_only i s s"
  by (simp add: moves_only_def)

lemma moves_only_settle: "moves_only i s (settle i n e s)"
  by (simp add: moves_only_def)

lemma moves_only_trans: "moves_only i s s' \<Longrightarrow> moves_only i s' s'' \<Longrightarrow> moves_only i s s''"
  by (auto simp: moves_only_def)

lemma can_move_mono:
  assumes "can_move s i n e" "cl_nodes s' i = cl_nodes s i" "cl_network s \<subseteq> cl_network s'"
  shows "can_move s' i n e"
  using assms(1) subsetD [OF assms(3)] unfolding can_move_def assms(2) by blast

lemma disk_ok_mono:
  "disk_ok s i d \<Longrightarrow> cl_nodes s' i = cl_nodes s i \<Longrightarrow> cl_disk s' i = cl_disk s i \<Longrightarrow>
     cl_network s \<subseteq> cl_network s' \<Longrightarrow> disk_ok s' i d"
  unfolding disk_ok_def using can_move_mono by metis

lemma restart_finds_mono:
  assumes "restart_finds crc dec boot store D" "D \<subseteq> D'"
  shows "restart_finds crc dec boot store D'"
  using assms unfolding restart_finds_def by blast

lemma represents_other:
  assumes "represents ext config vs s j rt" "moves_only i s s'" "j \<noteq> i"
  shows "represents ext config vs s' j rt"
proof -
  have same: "cl_nodes s' j = cl_nodes s j" "cl_disk s' j = cl_disk s j" "cl_network s \<subseteq> cl_network s'"
    using assms(2,3) by (auto simp: moves_only_def)
  then have "{d. disk_ok s j d} \<subseteq> {d. disk_ok s' j d}" using disk_ok_mono by blast
  then show ?thesis
    using assms(1) same restart_finds_mono [of _ _ _ _ "{d. disk_ok s j d}"]
    by (simp add: represents_def) (meson subset_trans)
qed

section \<open>Handling effects\<close>

lemma advances_reachable:
  assumes "reachable cfg vs s"
  shows "\<exists>s'. reachable cfg vs s' \<and> moves_only i s s' \<and> cl_disk s' = cl_disk s \<and>
    cl_nodes s' i = fold (\<lambda>x n. node_advance n x) xs (cl_nodes s i)"
  using assms
proof (induction xs arbitrary: s)
  case Nil
  then show ?case using moves_only_refl by auto
next
  case (Cons x xs)
  let ?s = "settle i (node_advance (cl_nodes s i) x) eff_none s"
  have "reachable cfg vs ?s" using Cons.prems cluster_step.advance by (rule reachable.step)
  from Cons.IH [OF this] obtain s' where s': "reachable cfg vs s'" "moves_only i ?s s'"
    "cl_disk s' = cl_disk ?s" "cl_nodes s' i = fold (\<lambda>x n. node_advance n x) xs (cl_nodes ?s i)" by blast
  moreover have "cl_disk ?s = cl_disk s" by (simp add: settle_def)
  ultimately show ?case using moves_only_trans [OF moves_only_settle] by (intro exI [of _ s']) auto
qed

text \<open>The outcome of an operation for node \<open>i\<close>: the abstract cluster has moved at \<open>i\<close>, if at all, and
  the runtime represents its node again, up to the part that clients see.\<close>

definition settled_at ::
    "Externals \<Rightarrow> NodeConfig \<Rightarrow> (NodeId \<Rightarrow> Config) \<Rightarrow> NodeId list \<Rightarrow> Cluster \<Rightarrow> NodeId \<Rightarrow> RaftRuntime \<Rightarrow> bool" where
  "settled_at ext config cfg vs s i rt \<longleftrightarrow>
     (\<exists>s'. reachable cfg vs s' \<and> moves_only i s s' \<and> represents ext config vs s' i rt)"

lemma settled_same: "reachable cfg vs s \<Longrightarrow> represents ext config vs s i rt \<Longrightarrow> settled_at ext config cfg vs s i rt"
  using moves_only_refl by (auto simp: settled_at_def)

lemma represents_cong:
  assumes "represents ext config vs s i rt" "rt_config rt' = rt_config rt" "rt_outbox rt' = rt_outbox rt"
    "rt_failed rt' = rt_failed rt" "rt_store rt' = rt_store rt" "rt_node rt' = rt_node rt"
  shows "represents ext config vs s i rt'"
  using assms by (simp add: represents_def)

lemma represents_healthyD:
  assumes "represents ext config vs s i rt" "\<not> rt_failed rt"
  shows "cl_nodes s i = rt_node rt" "cl_disk s i = st_durable (rt_store rt)" "rt_config rt = config"
    "set (rt_outbox rt) \<subseteq> cl_network s"
    "\<exists>recs. store_inv (ext_crc ext) (ext_dec_delta ext) (boot_state vs) (rt_store rt) recs"
  using assms by (simp_all add: represents_def)

lemma represents_fail:
  assumes "represents ext config vs s i rt" "rt' = rt\<lparr>rt_failed := True\<rparr>"
  shows "represents ext config vs s i rt'"
proof (cases "rt_failed rt")
  case True
  then show ?thesis using assms by (simp add: represents_def)
next
  case False
  note h = represents_healthyD [OF assms(1) False]
  from h(5) have "restart_finds (ext_crc ext) (ext_dec_delta ext) (boot_state vs) (rt_store rt) {cl_disk s i}"
    unfolding h(2) using restart_finds_inv by blast
  then have "restart_finds (ext_crc ext) (ext_dec_delta ext) (boot_state vs) (rt_store rt) {d. disk_ok s i d}"
    by (rule restart_finds_mono) (simp add: disk_ok_def)
  then show ?thesis using assms h by (simp add: represents_def)
qed

text \<open>The store after a save, in the terms of the abstract disk.\<close>

lemma failed_save_finds:
  assumes inv: "store_inv crc dec boot store recs" and serde: "faithful enc dec"
    and succ: "succeeds (st_durable store) (node_persistent n)"
    and save: "store_save crc enc faults sync_fails (node_persistent n) store = Some (Inl err, store')"
    and move: "can_move s i n e" "eff_persist e" and disk: "cl_disk s i = st_durable store"
  shows "restart_finds crc dec boot store' {d. disk_ok s i d}"
proof -
  from inv serde succ have "restart_finds crc dec boot store' {st_durable store, node_persistent n}"
    using save by (cases rule: store_save_cases [where faults = faults and sync_fails = sync_fails]) auto
  then show ?thesis
    by (rule restart_finds_mono) (use move disk in \<open>auto simp: disk_ok_def\<close>)
qed

lemma done_save_inv:
  assumes inv: "store_inv crc dec boot store recs" and serde: "faithful enc dec"
    and succ: "succeeds (st_durable store) (node_persistent n)" and disk: "cl_disk s i = st_durable store"
    and save: "if eff_persist e
      then store_save crc enc faults sync_fails (node_persistent n) store = Some (Inr (), store')
      else store' = store"
  shows "cl_disk (settle i n e s) i = st_durable store' \<and> (\<exists>recs. store_inv crc dec boot store' recs)"
proof (cases "eff_persist e")
  case True
  from inv serde succ show ?thesis
    using save True by (cases rule: store_save_cases [where faults = faults and sync_fails = sync_fails]) auto
next
  case False
  then show ?thesis using save inv disk by auto
qed

lemma handle_effects_simulated:
  assumes law: "lawful ext" and reach: "reachable cfg vs s"
    and rep: "represents ext config vs s i rt" and healthy: "\<not> rt_failed rt"
    and move: "can_move s i n e"
    and start: "rt_node rt0 = n" "rt_store rt0 = rt_store rt" "rt_config rt0 = rt_config rt"
      "rt_outbox rt0 = rt_outbox rt" "rt_failed rt0 = rt_failed rt"
    and handle: "handle_effects ext env e rt0 = Some (r, rt1)"
    and bound: "last_index (core_log (node_core (rt_node rt1))) \<noteq> u64_max"
  shows "settled_at ext config cfg vs s i (rt1\<lparr>rt_failed := isl r\<rparr>)"
proof -
  note h = represents_healthyD [OF rep healthy]
  let ?crc = "ext_crc ext" and ?dec = "ext_dec_delta ext" and ?s = "settle i n e s"
  obtain recs where inv: "store_inv ?crc ?dec (boot_state vs) (rt_store rt) recs" using h(5) by blast
  have step: "cluster_step s ?s" using can_move_step [OF move] .
  have disk: "st_durable (rt_store rt) = node_persistent (cl_nodes s i)"
    using reachable_disk [OF reach] h(2) by simp
  have succ: "succeeds (st_durable (rt_store rt)) (node_persistent n)"
    if "node_persistent (rt_node rt1) = node_persistent n"
    using cluster_step_succeeds [OF reach step, of i] bound that disk
    by (simp add: node_persistent_def core_log_def)
  have serde: "faithful (ext_enc_delta ext) ?dec" using law by (simp add: lawful_def)
  from handle show ?thesis
  proof (cases rule: handle_effects_cases)
    case (unsaved err store)
    have "succeeds (st_durable (rt_store rt)) (node_persistent n)" using unsaved(3) start(1) by (intro succ) simp
    from failed_save_finds [OF inv serde this _ move unsaved(1)] unsaved(4) start(1,2) h(2)
    have "restart_finds ?crc ?dec (boot_state vs) store {d. disk_ok s i d}" by simp
    then have "represents ext config vs s i (rt1\<lparr>rt_failed := isl r\<rparr>)"
      using unsaved(2,3) start h(3,4) by (simp add: represents_def)
    then show ?thesis using reach by (intro settled_same)
  next
    case (settled store sent)
    have pers: "node_persistent (rt_node rt1) = node_persistent n"
      using applies_persistent [OF settled(3)] start(1) by simp
    have reach1: "reachable cfg vs ?s" using reach step by (rule reachable.step)
    from settled(3) obtain xs where xs: "rt_node rt1 = fold (\<lambda>x n. node_advance n x) xs n"
      using start(1) by (auto simp: applies_def)
    from advances_reachable [OF reach1, of i xs] obtain s' where s': "reachable cfg vs s'" "moves_only i ?s s'"
      "cl_disk s' = cl_disk ?s" "cl_nodes s' i = rt_node rt1" using xs by auto
    note store = done_save_inv [OF inv serde succ [OF pers] h(2) settled(1) [unfolded start(1,2)]]
    have "set (rt_outbox rt1) \<subseteq> cl_network s'"
      using settled(2,3) h(4) start(4) s'(2) by (auto simp: applies_def moves_only_def)
    then have "represents ext config vs s' i (rt1\<lparr>rt_failed := False\<rparr>)"
      using settled(3) s'(3,4) store start(3) h(3) by (auto simp: represents_def applies_def)
    then have "represents ext config vs s' i (rt1\<lparr>rt_failed := isl r\<rparr>)"
      by (cases "isl r") (auto intro: represents_fail)
    then show ?thesis
      using s'(1) moves_only_trans [OF moves_only_settle s'(2)] by (auto simp: settled_at_def)
  qed
qed

lemma settled_cong:
  assumes "settled_at ext config cfg vs s i rt" "rt_config rt' = rt_config rt" "rt_outbox rt' = rt_outbox rt"
    "rt_failed rt' = rt_failed rt" "rt_store rt' = rt_store rt" "rt_node rt' = rt_node rt"
  shows "settled_at ext config cfg vs s i rt'"
  using assms represents_cong unfolding settled_at_def by blast

lemma handle_effects_failed:
  "handle_effects ext env e rt = Some (r, rt') \<Longrightarrow> rt_failed rt' = rt_failed rt"
  by (erule handle_effects_cases) (auto simp: applies_def)

lemma settle_effects_simulated:
  assumes "lawful ext" "reachable cfg vs s" "represents ext config vs s i rt" "\<not> rt_failed rt"
    and "can_move s i n e" "settle_effects ext env (n, e) rt = Some (r, rt')" "in_bounds rt'"
  shows "settled_at ext config cfg vs s i rt'"
proof -
  obtain r1 rt1 where handle: "handle_effects ext env e (rt\<lparr>rt_node := n\<rparr>) = Some (r1, rt1)"
    and out: "(r, rt') = (case r1 of Inl e \<Rightarrow> (Inl e, rt1\<lparr>rt_failed := True\<rparr>) | Inr _ \<Rightarrow> (Inr (), rt1))"
    using settle_effectsD [OF assms(6)] by auto
  have bound: "last_index (core_log (node_core (rt_node rt1))) \<noteq> u64_max"
    using assms(7) out by (cases r1) (auto simp: in_bounds_def)
  from handle_effects_simulated [OF assms(1-5) _ _ _ _ _ handle bound]
  have "settled_at ext config cfg vs s i (rt1\<lparr>rt_failed := isl r1\<rparr>)" by simp
  then show ?thesis
    by (rule settled_cong) (use out handle_effects_failed [OF handle] assms(4) in \<open>auto split: sum.splits\<close>)
qed

lemma tick_simulated:
  assumes "lawful ext" "reachable cfg vs s" "represents ext config vs s i rt"
    and "tick_once ext env rt = Some (r, rt')" "in_bounds rt" "in_bounds rt'"
  shows "settled_at ext config cfg vs s i rt'"
proof (cases "rt_failed rt")
  case True
  then show ?thesis using assms settled_same by (simp add: tick_once_def ensure_healthy_def)
next
  case False
  then obtain n e where tick: "node_tick (rt_node rt) = Some (n, e)"
      "settle_effects ext env (n, e) rt = Some (r, rt')"
    using assms(4) by (auto simp: tick_once_def ensure_healthy_def locked_tick_def Option.bind_eq_Some_conv)
  then have "can_move s i n e"
    using assms(5) represents_healthyD(1) [OF assms(3) False] by (simp add: can_move_def in_bounds_def)
  then show ?thesis using tick(2) assms(6) by (rule settle_effects_simulated [OF assms(1-3) False])
qed

lemma receive_simulated:
  assumes "lawful ext" "reachable cfg vs s" "represents ext config vs s i rt" "nc_node_id config = i"
    and "receive_raft ext env (Some sig) body rt = Some (status, rt')" "in_bounds rt" "in_bounds rt'"
    and "\<exists>m \<in> cl_network s. ext_dec_message ext body = Some m \<and> msg_term m \<noteq> u64_max"
  shows "settled_at ext config cfg vs s i rt'"
  using assms(5)
proof (cases rule: receive_raft_cases)
  case refused
  then show ?thesis using assms(2,3) settled_same by simp
next
  case (stepped sig' m r)
  show ?thesis
  proof (cases "rt_failed rt")
    case True
    then show ?thesis
      using stepped(5) assms(2,3) settled_same by (simp add: runtime_step_def ensure_healthy_def)
  next
    case False
    then obtain n e where step: "node_step (rt_node rt) m = Some (n, e)"
        "settle_effects ext env (n, e) rt = Some (r, rt')"
      using stepped(5) by (auto simp: runtime_step_def ensure_healthy_def locked_step_def Option.bind_eq_Some_conv)
    have "msg_to m = i"
      using stepped(4) assms(4) represents_healthyD(3) [OF assms(3) False]
      by (auto simp: validate_message_def Let_def split: if_splits)
    then have "can_move s i n e"
      using step(1) assms(6,8) stepped(3) represents_healthyD(1) [OF assms(3) False]
      by (auto simp: can_move_def in_bounds_def)
    then show ?thesis using step(2) assms(7) by (rule settle_effects_simulated [OF assms(1-3) False])
  qed
qed

lemma propose_simulated:
  assumes "lawful ext" "reachable cfg vs s" "represents ext config vs s i rt"
    and "propose_start ext env command rt = Some (r, rt')" "in_bounds rt" "in_bounds rt'"
  shows "settled_at ext config cfg vs s i rt'"
  using assms(4)
proof (cases rule: propose_start_cases)
  case (refused e next_id)
  then show ?thesis using represents_cong [OF assms(3)] by (intro settled_same [OF assms(2)]) auto
next
  case (started bytes next_id n index effects r1 rt1)
  have "can_move s i n effects"
    using started(4) assms(5) represents_healthyD(1) [OF assms(3) started(3)]
    by (auto simp: can_move_def in_bounds_def)
  moreover have bound: "last_index (core_log (node_core (rt_node rt1))) \<noteq> u64_max"
    using assms(6) started(6) by (cases r1) (auto simp: in_bounds_def)
  ultimately have "settled_at ext config cfg vs s i (rt1\<lparr>rt_failed := isl r1\<rparr>)"
    by (intro handle_effects_simulated [OF assms(1-3) started(3) _ _ _ _ _ _ started(5)]) simp_all
  then show ?thesis
    by (rule settled_cong)
      (use started(3,6) handle_effects_failed [OF started(5)] in \<open>auto split: sum.splits\<close>)
qed

lemma remove_simulated:
  "reachable cfg vs s \<Longrightarrow> represents ext config vs s i rt \<Longrightarrow>
     settled_at ext config cfg vs s i (remove_pending index ident rt)"
  by (intro settled_same) (auto intro: represents_cong)

section \<open>Starting and restarting\<close>

lemma node_new_boot:
  assumes "node_new cfg vs = Some n"
  shows "node_persistent n = boot_state vs" "node_restore cfg (boot_state vs) = Some n"
proof -
  have core: "core_new cfg vs = core_restore cfg (boot_state vs)"
    by (simp add: core_new_def core_restore_def boot_state_def)
  then show restore: "node_restore cfg (boot_state vs) = Some n"
    using assms by (simp add: node_new_def node_restore_def)
  show "node_persistent n = boot_state vs"
    using node_restore_SomeD(1) [OF restore] by (simp add: node_persistent_def)
qed

lemma restart_simulated:
  assumes "reachable cfg vs s" "represents ext config vs s i rt"
    and "cfg i = nc_consensus config" "map fst (nc_peers config) = vs"
    and "runtime_open ext False config (snd (st_wal (rt_store rt))) = Some (Inr rt')"
  shows "settled_at ext config cfg vs s i rt'"
proof -
  let ?crc = "ext_crc ext" and ?dec = "ext_dec_delta ext"
  have "restart_finds ?crc ?dec (boot_state vs) (rt_store rt) {d. disk_ok s i d}"
    using represents_fail [OF assms(2) refl] by (simp add: represents_def)
  then obtain store recs where store: "store_open ?crc ?dec False (snd (st_wal (rt_store rt))) (boot_state vs) = Inr store"
    "disk_ok s i (st_durable store)" "store_inv ?crc ?dec (boot_state vs) store recs"
    by (auto simp: restart_finds_def)
  obtain n where n: "node_restore (cfg i) (st_durable store) = Some n"
    "rt_config rt' = config" "rt_node rt' = n" "rt_store rt' = store" "\<not> rt_failed rt'" "rt_outbox rt' = []"
  proof (rule runtime_openD [OF assms(5)])
    fix start store1 n
    assume new: "node_new (nc_consensus config) (map fst (nc_peers config)) = Some start"
      and opened: "store_open ?crc ?dec False (snd (st_wal (rt_store rt))) (node_persistent start) = Inr store1"
      and restore: "node_restore (nc_consensus config) (st_durable store1) = Some n"
      and rt': "rt' = \<lparr>rt_config = config, rt_node = n, rt_store = store1, rt_state = kv_new,
       rt_waiters = Map.empty, rt_next_proposal_id = 1,
       rt_transport = transport_new (nc_node_id config) (nc_raft_key config) (nc_peers config),
       rt_failed = False, rt_outbox = [], rt_answers = []\<rparr>"
    have "store1 = store"
      using opened store(1) node_new_boot(1) [OF new] assms(4) by simp
    then show thesis using that restore rt' assms(3) by simp
  qed
  have config: "core_config (node_core (cl_nodes s' i)) = cfg i" if "reachable cfg vs s'" for s'
    using reachable_inv [OF that] by (simp add: cluster_inv_def node_inv_def Let_def)
  obtain s1 where s1: "reachable cfg vs s1" "moves_only i s s1" "cl_disk s1 i = st_durable store"
  proof (cases "st_durable store = cl_disk s i")
    case True
    then show thesis using that [OF assms(1) moves_only_refl] by simp
  next
    case False
    then obtain n0 e where "can_move s i n0 e" "eff_persist e" "st_durable store = node_persistent n0"
      using store(2) by (auto simp: disk_ok_def)
    then show thesis
      using that [OF reachable.step [OF assms(1) can_move_step] moves_only_settle] by simp
  qed
  have "cluster_step s1 (settle i n eff_none s1)"
    using n(1) s1(3) by (intro cluster_step.restart) (simp add: config [OF s1(1)])
  then have "reachable cfg vs (settle i n eff_none s1)" using s1(1) by (rule reachable.step [rotated])
  moreover have "represents ext config vs (settle i n eff_none s1) i rt'"
    using n(2-) s1(3) store(3) by (auto simp: represents_def)
  ultimately show ?thesis
    using moves_only_trans [OF s1(2) moves_only_settle] by (auto simp: settled_at_def)
qed

section \<open>The simulation\<close>

lemma simulates_put:
  assumes sim: "simulates ext config vs cfg s sys" and law: "lawful ext" and i: "i \<in> set vs"
    and settled: "settled_at ext (config i) cfg vs s i rt'"
  shows "\<exists>s'. simulates ext config vs cfg s' (put_runtime ext i rt' sys)"
proof -
  from settled obtain s' where s': "reachable cfg vs s'" "moves_only i s s'" "represents ext (config i) vs s' i rt'"
    by (auto simp: settled_at_def)
  have net: "cl_network s \<subseteq> cl_network s'" using s'(2) by (simp add: moves_only_def)
  have "represents ext (config j) vs s' j (sys_runtimes (put_runtime ext i rt' sys) j)" if "j \<in> set vs" for j
    using that sim s' represents_other [OF _ s'(2), of ext "config j" vs j]
    by (auto simp: put_runtime_def simulates_def)
  moreover have "\<exists>m \<in> cl_network s'. ext_dec_message ext body = Some m"
    if "(sig, body) \<in> sys_posts (put_runtime ext i rt' sys)" for sig body
  proof (cases "(sig, body) \<in> sys_posts sys")
    case True
    then show ?thesis using sim net by (fastforce simp: simulates_def)
  next
    case False
    with that obtain m where m: "m \<in> set (rt_outbox rt')" "ext_enc_message ext m = Some body"
      by (auto simp: put_runtime_def posts_def post_raft_message_def Option.bind_eq_Some_conv split: if_splits)
    then have "m \<in> cl_network s'" using s'(3) by (auto simp: represents_def)
    then show ?thesis using m(2) law by (auto simp: lawful_def)
  qed
  ultimately have "simulates ext config vs cfg s' (put_runtime ext i rt' sys)"
    using sim s'(1) by (auto simp: simulates_def)
  then show ?thesis ..
qed

lemma simulates_step:
  assumes law: "lawful ext" and sim: "simulates ext config vs cfg s sys"
    and step: "system_step ext config vs sys sys'"
  shows "\<exists>s'. simulates ext config vs cfg s' sys'"
proof -
  have reach: "reachable cfg vs s" using sim by (simp add: simulates_def)
  have member: "cfg i = nc_consensus (config i)" "nc_node_id (config i) = i" "map fst (nc_peers (config i)) = vs"
    "represents ext (config i) vs s i (sys_runtimes sys i)" if "i \<in> set vs" for i
    using sim that by (simp_all add: simulates_def)
  note put = simulates_put [OF sim law]
  from step show ?thesis
  proof cases
    case (sys_tick i rt env r rt')
    then show ?thesis using put tick_simulated [OF law reach member(4)] by blast
  next
    case (sys_receive i rt sig body env status rt')
    moreover from sys_receive obtain m where "m \<in> cl_network s" "ext_dec_message ext body = Some m"
      using sim by (fastforce simp: simulates_def)
    ultimately show ?thesis using put receive_simulated [OF law reach member(4,2)] by blast
  next
    case (sys_propose i rt env command answer rt')
    then show ?thesis using put propose_simulated [OF law reach member(4)] by blast
  next
    case (sys_finish i rt ticket result rt')
    then have "rt' = remove_pending (fst ticket) (snd ticket) (sys_runtimes sys i)"
      by (auto simp: propose_finish_def split_beta)
    then show ?thesis using put sys_finish(1,2) remove_simulated [OF reach member(4)] by blast
  next
    case (sys_cancel i rt ticket rt')
    then show ?thesis using put remove_simulated [OF reach member(4)] by (auto simp: propose_cancel_def)
  next
    case (sys_restart i rt rt')
    then show ?thesis using put restart_simulated [OF reach member(4,1,3)] by blast
  qed
qed

lemma raft_config_new: "node_new (raft_config i) vs \<noteq> None"
proof -
  have "timeouts_ok (core_config (core_new (raft_config i) vs))"
    by (simp add: timeouts_ok_def core_new_def raft_config_def with_parallel_disk_write_def config_new_def)
  then obtain f c where "follower_new (core_new (raft_config i) vs) None = Some (f, c)"
    using follower_new_total(1) by fastforce
  then show ?thesis by (simp add: node_new_def)
qed

lemma simulates_start:
  assumes "system_start ext config vs sys"
  shows "\<exists>cfg s. simulates ext config vs cfg s sys"
proof -
  define cfg where "cfg i = (if i \<in> set vs then nc_consensus (config i) else raft_config i)" for i
  define s where "s = \<lparr>cl_nodes = (\<lambda>i. the (node_new (cfg i) vs)),
    cl_disk = (\<lambda>i. node_persistent (the (node_new (cfg i) vs))), cl_network = {}, cl_ballots = {},
    cl_elected = {}, cl_ledger = (\<lambda>_. [])\<rparr>"
  have member: "nc_node_id (config i) = i" "map fst (nc_peers (config i)) = vs"
      "runtime_open ext False (config i) [] = Some (Inr (sys_runtimes sys i))" if "i \<in> set vs" for i
    using assms that by (simp_all add: system_start_def)
  have opened: "cfg_id (cfg i) = i \<and> node_new (cfg i) vs = Some (rt_node (sys_runtimes sys i)) \<and>
      represents ext (config i) vs s i (sys_runtimes sys i)" if i: "i \<in> set vs" for i
  proof (rule runtime_openD [OF member(3) [OF i]])
    fix start store n
    let ?rt = "\<lparr>rt_config = config i, rt_node = n, rt_store = store, rt_state = kv_new,
       rt_waiters = Map.empty, rt_next_proposal_id = 1,
       rt_transport = transport_new (nc_node_id (config i)) (nc_raft_key (config i)) (nc_peers (config i)),
       rt_failed = False, rt_outbox = [], rt_answers = []\<rparr>"
    assume valid: "validate_config (config i) = Inr ()"
      and new: "node_new (nc_consensus (config i)) (map fst (nc_peers (config i))) = Some start"
      and fresh: "store_open (ext_crc ext) (ext_dec_delta ext) False [] (node_persistent start) = Inr store"
      and restore: "node_restore (nc_consensus (config i)) (st_durable store) = Some n"
      and rt: "sys_runtimes sys i = ?rt"
    have new': "node_new (cfg i) vs = Some start" using new member(2) [OF i] i by (simp add: cfg_def)
    note boot = node_new_boot [OF new']
    have store: "store_inv (ext_crc ext) (ext_dec_delta ext) (boot_state vs) store []" "st_durable store = boot_state vs"
      using store_open_fresh [OF fresh] boot(1) by auto
    then have "n = start" using restore boot(2) i by (simp add: cfg_def)
    then show ?thesis
      using new' valid member(1) [OF i] i store boot(1) rt
      by (auto simp: validate_config_iff cfg_def represents_def s_def)
  qed
  have "node_new (cfg i) vs = Some (cl_nodes s i)" for i
    using opened [of i] raft_config_new [of i vs] by (cases "i \<in> set vs") (auto simp: s_def cfg_def)
  moreover have "cfg_id (cfg i) = i" for i
    using opened [of i] by (cases "i \<in> set vs")
      (simp_all add: cfg_def raft_config_def with_parallel_disk_write_def config_new_def)
  ultimately have "initial cfg vs s" by (simp add: initial_def) (simp add: s_def)
  then have "simulates ext config vs cfg s sys"
    using opened member(1,2) assms
    by (auto simp: simulates_def system_start_def cfg_def intro: reachable.start)
  then show ?thesis by blast
qed

lemma system_simulated:
  assumes "lawful ext" "system_reachable ext config vs sys"
  shows "\<exists>cfg s. simulates ext config vs cfg s sys"
  using assms(2)
proof (induction rule: system_reachable.induct)
  case (sys_start sys)
  then show ?case by (rule simulates_start)
next
  case (sys_step sys sys')
  then show ?case using simulates_step [OF assms(1)] by blast
qed

section \<open>Schedules of the running cluster\<close>

text \<open>A schedule names the steps of a run: the clock of a member, the delivery of the message at a
  position of a member's outbox, and a proposal. The runtimes are kept as a table, so that a run can be
  evaluated.\<close>

datatype SysAct = ActTick NodeId Env | ActDeliver NodeId nat Env | ActPropose NodeId KvCommand Env

type_synonym Runtimes = "(NodeId \<times> RaftRuntime) list"

definition act_store :: "NodeId \<Rightarrow> RaftRuntime \<Rightarrow> 'r \<times> RaftRuntime \<Rightarrow> Runtimes \<Rightarrow> Runtimes option" where
  "act_store i rt answer rts =
     (if in_bounds rt \<and> in_bounds (snd answer) then Some (AList.update i (snd answer) rts) else None)"

definition act_deliver :: "Externals \<Rightarrow> Env \<Rightarrow> RaftRuntime \<Rightarrow> Message \<Rightarrow> Runtimes \<Rightarrow> Runtimes option" where
  "act_deliver ext env sender m rts =
     Option.bind (post_raft_message ext (tr_key (rt_transport sender)) m) (\<lambda>(sig, body).
       if ext_dec_message ext body = Some m \<and> msg_term m \<noteq> u64_max
       then Option.bind (map_of rts (msg_to m)) (\<lambda>rt.
         Option.bind (receive_raft ext env (Some sig) body rt) (\<lambda>answer. act_store (msg_to m) rt answer rts))
       else None)"

fun system_act :: "Externals \<Rightarrow> SysAct \<Rightarrow> Runtimes \<Rightarrow> Runtimes option" where
  "system_act ext (ActTick i env) rts =
     Option.bind (map_of rts i) (\<lambda>rt.
       Option.bind (tick_once ext env rt) (\<lambda>answer. act_store i rt answer rts))"
| "system_act ext (ActDeliver i k env) rts =
     Option.bind (map_of rts i) (\<lambda>sender.
       if k < length (rt_outbox sender) then act_deliver ext env sender (rt_outbox sender ! k) rts else None)"
| "system_act ext (ActPropose i command env) rts =
     Option.bind (map_of rts i) (\<lambda>rt.
       Option.bind (propose_start ext env command rt) (\<lambda>answer. act_store i rt answer rts))"

definition system_boot :: "Externals \<Rightarrow> (NodeId \<Rightarrow> NodeConfig) \<Rightarrow> NodeId list \<Rightarrow> Runtimes" where
  "system_boot ext config vs =
     List.map_filter (\<lambda>i. case runtime_open ext False (config i) [] of
       Some (Inr rt) \<Rightarrow> Some (i, rt) | _ \<Rightarrow> None) vs"

definition staged :: "Externals \<Rightarrow> (NodeId \<Rightarrow> NodeConfig) \<Rightarrow> NodeId list \<Rightarrow> Runtimes \<Rightarrow> bool" where
  "staged ext config vs rts \<longleftrightarrow> (\<exists>sys. system_reachable ext config vs sys \<and>
     (\<forall>i rt. map_of rts i = Some rt \<longrightarrow>
        i \<in> set vs \<and> sys_runtimes sys i = rt \<and> posts ext rt \<subseteq> sys_posts sys))"

lemma staged_put:
  assumes "system_reachable ext config vs sys" "system_step ext config vs sys (put_runtime ext i rt' sys)"
    and "\<forall>j rt. map_of rts j = Some rt \<longrightarrow>
      j \<in> set vs \<and> sys_runtimes sys j = rt \<and> posts ext rt \<subseteq> sys_posts sys"
    and "i \<in> set vs"
  shows "staged ext config vs (AList.update i rt' rts)"
  unfolding staged_def
  using assms(3,4) system_reachable.sys_step [OF assms(1,2)]
  by (intro exI [of _ "put_runtime ext i rt' sys"]) (auto simp: put_runtime_def AList.update_conv')

lemma act_storeD:
  assumes "act_store i rt answer rts = Some rts'"
  shows "in_bounds rt" "in_bounds (snd answer)" "rts' = AList.update i (snd answer) rts"
  using assms by (simp_all add: act_store_def split: if_splits)

lemma staged_act:
  assumes "staged ext config vs rts" "system_act ext a rts = Some rts'"
  shows "staged ext config vs rts'"
proof -
  from assms(1) obtain sys where reach: "system_reachable ext config vs sys"
    and shown: "\<forall>i rt. map_of rts i = Some rt \<longrightarrow>
      i \<in> set vs \<and> sys_runtimes sys i = rt \<and> posts ext rt \<subseteq> sys_posts sys"
    by (auto simp: staged_def)
  note put = staged_put [OF reach _ shown]
  show ?thesis
  proof (cases a)
    case (ActTick i env)
    with assms(2) obtain rt answer where rt: "map_of rts i = Some rt"
      and answer: "tick_once ext env rt = Some answer" "act_store i rt answer rts = Some rts'"
      by (auto simp: Option.bind_eq_Some_conv)
    show ?thesis
      unfolding act_storeD(3) [OF answer(2)]
      using shown rt answer(1) act_storeD(1,2) [OF answer(2)]
      by (intro put system_step.sys_tick [where rt = rt and r = "fst answer"]) auto
  next
    case (ActPropose i command env)
    with assms(2) obtain rt answer where rt: "map_of rts i = Some rt"
      and answer: "propose_start ext env command rt = Some answer" "act_store i rt answer rts = Some rts'"
      by (auto simp: Option.bind_eq_Some_conv)
    show ?thesis
      unfolding act_storeD(3) [OF answer(2)]
      using shown rt answer(1) act_storeD(1,2) [OF answer(2)]
      by (intro put system_step.sys_propose [where rt = rt and answer = "fst answer"]) auto
  next
    case (ActDeliver i k env)
    then obtain sender where sender: "map_of rts i = Some sender" "k < length (rt_outbox sender)"
        "act_deliver ext env sender (rt_outbox sender ! k) rts = Some rts'"
      using assms(2) by (auto simp: Option.bind_eq_Some_conv split: if_splits)
    let ?m = "rt_outbox sender ! k"
    from sender(3) obtain sig body rt answer where
      post: "post_raft_message ext (tr_key (rt_transport sender)) ?m = Some (sig, body)"
        "ext_dec_message ext body = Some ?m" "msg_term ?m \<noteq> u64_max"
      and rt: "map_of rts (msg_to ?m) = Some rt"
      and answer: "receive_raft ext env (Some sig) body rt = Some answer"
        "act_store (msg_to ?m) rt answer rts = Some rts'"
      by (auto simp: act_deliver_def Option.bind_eq_Some_conv split: if_splits)
    have "(sig, body) \<in> posts ext sender" using sender(2) post(1) by (auto simp: posts_def)
    with shown sender(1) have "(sig, body) \<in> sys_posts sys" by blast
    then show ?thesis
      unfolding act_storeD(3) [OF answer(2)]
      using shown rt answer(1) post(2,3) act_storeD(1,2) [OF answer(2)]
      by (intro put system_step.sys_receive [where rt = rt and status = "fst answer"]) auto
  qed
qed

lemma staged_run:
  assumes "staged ext config vs rts" "fold_opt (system_act ext) as rts = Some rts'"
  shows "staged ext config vs rts'"
  using assms by (induction as arbitrary: rts) (auto simp: Option.bind_eq_Some_conv intro: staged_act)

lemma staged_boot:
  assumes "\<And>i. i \<in> set vs \<Longrightarrow> nc_node_id (config i) = i \<and> map fst (nc_peers (config i)) = vs"
    and "map fst (system_boot ext config vs) = vs"
  shows "staged ext config vs (system_boot ext config vs)"
proof -
  let ?boot = "system_boot ext config vs"
  define sys where "sys = \<lparr>sys_runtimes = (\<lambda>i. the (map_of ?boot i)), sys_posts = {}\<rparr>"
  have opened: "runtime_open ext False (config i) [] = Some (Inr rt)" if "map_of ?boot i = Some rt" for i rt
    using map_of_SomeD [OF that]
    by (auto simp: system_boot_def map_filter_def split: option.splits sum.splits)
  have defined: "\<exists>rt. map_of ?boot i = Some rt" if "i \<in> set vs" for i
    using that assms(2) by (metis map_of_eq_None_iff not_None_eq set_map)
  have "system_start ext config vs sys"
    using assms(1) opened defined by (fastforce simp: system_start_def sys_def)
  moreover have "rt_outbox rt = []" if "map_of ?boot i = Some rt" for i rt
    using opened [OF that] by (elim runtime_openD) simp
  moreover have "i \<in> set vs" if "map_of ?boot i = Some rt" for i rt
    using map_of_SomeD [OF that] assms(2) by (metis fst_conv image_eqI set_map)
  ultimately show ?thesis
    unfolding staged_def
    by (intro exI [of _ sys]) (auto simp: sys_def posts_def intro: system_reachable.sys_start)
qed

text \<open>Two members: the first is elected, and replicates a command to the second.\<close>

definition duo_config :: "NodeId \<Rightarrow> NodeConfig" where
  "duo_config i = sample_node_config\<lparr>nc_node_id := i,
     nc_raft_addr := sample_addr (if i = NodeId 1 then 91 else 92),
     nc_peers := [(NodeId 1, sample_addr 91), (NodeId 2, sample_addr 92)],
     nc_consensus := with_prevote (with_election_timeout (raft_config i) 1 2) False\<rparr>"

definition duo_delta :: "u64 \<Rightarrow> Entry list \<Rightarrow> PersistentDelta" where
  "duo_delta i es = \<lparr>pd_term = 1, pd_voted_for = Some (NodeId 1),
     pd_bootstrap_config = config_simple [NodeId 1, NodeId 2], pd_truncate_after = i, pd_entries = es\<rparr>"

definition duo_message :: "u64 \<Rightarrow> u64 \<Rightarrow> Payload \<Rightarrow> Message" where
  "duo_message i j p = \<lparr>msg_from = NodeId i, msg_to = NodeId j, msg_term = 1, msg_payload = p\<rparr>"

definition duo_externals :: Externals where
  "duo_externals = sample_externals
     [(duo_delta 0 [], [1]), (duo_delta 0 [sample_entry1], [2]),
      (duo_delta 1 [sample_entry1\<lparr>entry_index := 2\<rparr>], [3])]
     [(RegisterSession, [1])]
     [(duo_message 1 2 (VoteRequest \<lparr>vreq_last_log_index = 0, vreq_last_log_term = 0\<rparr>), [1]),
      (duo_message 2 1 (VoteResponse \<lparr>vresp_granted = True\<rparr>), [2]),
      (duo_message 1 2 (AppendRequest \<lparr>areq_prev_log_index = 0, areq_prev_log_term = 0,
         areq_entries = [sample_entry1], areq_leader_commit = 0\<rparr>), [3])]"

definition duo_run :: "SysAct list \<Rightarrow> Runtimes option" where
  "duo_run as = fold_opt (system_act duo_externals) as
     (system_boot duo_externals duo_config [NodeId 1, NodeId 2])"

definition duo_replicates :: "SysAct list" where
  "duo_replicates = [ActTick (NodeId 1) calm, ActDeliver (NodeId 1) 0 calm, ActDeliver (NodeId 2) 0 calm,
     ActPropose (NodeId 1) RegisterSession calm, ActDeliver (NodeId 1) 2 calm]"

text \<open>The save of a second command fails: its frame is written and the \<open>fsync\<close> reports an error.\<close>

definition duo_fails :: "SysAct list" where
  "duo_fails = duo_replicates @ [ActPropose (NodeId 1) RegisterSession (calm\<lparr>env_sync_fails := True\<rparr>)]"

lemma duo_lawful: "lawful duo_externals"
  unfolding duo_externals_def by (rule sample_externals_lawful) simp_all

lemma duo_reached:
  assumes "duo_run as = Some [(NodeId 1, rt1), (NodeId 2, rt2)]"
  obtains sys where "system_reachable duo_externals duo_config [NodeId 1, NodeId 2] sys"
    "sys_runtimes sys (NodeId 1) = rt1" "sys_runtimes sys (NodeId 2) = rt2"
proof -
  have "map fst (system_boot duo_externals duo_config [NodeId 1, NodeId 2]) = [NodeId 1, NodeId 2]"
    by code_simp
  then have "staged duo_externals duo_config [NodeId 1, NodeId 2]
      (system_boot duo_externals duo_config [NodeId 1, NodeId 2])"
    by (intro staged_boot) (auto simp: duo_config_def)
  from staged_run [OF this assms [unfolded duo_run_def]] show thesis
    using that by (auto simp: staged_def)
qed

text \<open>
  C7: The runtimes implement the abstract cluster. For every state that a cluster of runtimes can reach,
  with logs written to disk byte by byte, torn writes, failing \<open>fsync\<close>, dropped, delayed and repeated
  requests, cancelled tasks and restarts, there is a reachable state of the abstract cluster in which
  every runtime that has not failed has the same node, the durable state of its store is the disk, and
  every message it has released has been sent.
\<close>

theorem runtimes_refine_cluster:
  assumes "lawful ext" "system_reachable ext config vs sys"
  shows "\<exists>cfg s. reachable cfg vs s \<and> (\<forall>i \<in> set vs. cfg i = nc_consensus (config i) \<and>
    set (rt_outbox (sys_runtimes sys i)) \<subseteq> cl_network s \<and>
    (\<not> rt_failed (sys_runtimes sys i) \<longrightarrow> cl_nodes s i = rt_node (sys_runtimes sys i) \<and>
       cl_disk s i = st_durable (rt_store (sys_runtimes sys i))))"
proof -
  from system_simulated [OF assms] obtain cfg s where "simulates ext config vs cfg s sys" by blast
  then show ?thesis by (intro exI [of _ cfg] exI [of _ s]) (auto simp: simulates_def represents_def)
qed

theorem runtimes_refine_cluster_witness:
  "\<exists>sys cfg s. system_reachable duo_externals duo_config [NodeId 1, NodeId 2] sys \<and>
     reachable cfg [NodeId 1, NodeId 2] s \<and> node_is_leader (cl_nodes s (NodeId 1)) \<and>
     entries (p_log (cl_disk s (NodeId 2))) = [sample_entry1]"
proof -
  have "map_option (map (\<lambda>(i, rt). (i, rt_failed rt, node_is_leader (rt_node rt),
      entries (p_log (st_durable (rt_store rt)))))) (duo_run duo_replicates) =
    Some [(NodeId 1, False, True, [sample_entry1]), (NodeId 2, False, False, [sample_entry1])]"
    by code_simp
  then obtain rt1 rt2 where run: "duo_run duo_replicates = Some [(NodeId 1, rt1), (NodeId 2, rt2)]"
    and rts: "\<not> rt_failed rt1" "node_is_leader (rt_node rt1)" "\<not> rt_failed rt2"
      "entries (p_log (st_durable (rt_store rt2))) = [sample_entry1]"
    by (auto simp: map_eq_Cons_conv)
  from duo_reached [OF run] obtain sys where
    sys: "system_reachable duo_externals duo_config [NodeId 1, NodeId 2] sys"
      "sys_runtimes sys (NodeId 1) = rt1" "sys_runtimes sys (NodeId 2) = rt2"
    by blast
  from runtimes_refine_cluster [OF duo_lawful sys(1)] sys(2,3) rts obtain cfg s where
    "reachable cfg [NodeId 1, NodeId 2] s" "node_is_leader (cl_nodes s (NodeId 1))"
    "entries (p_log (cl_disk s (NodeId 2))) = [sample_entry1]"
    by auto
  then show ?thesis
    using sys(1) by - (rule exI [of _ sys], rule exI [of _ cfg], rule exI [of _ s], simp)
qed

lemma node_restore_total:
  assumes "node_restore cfg p \<noteq> None"
  shows "node_restore cfg p' \<noteq> None"
  using assms
  by (auto simp: node_restore_def follower_new_def core_restore_def random_election_timeout_def rand_def Let_def
      split: if_splits prod.splits option.splits)

lemma member_boots:
  assumes "system_reachable ext config vs sys" "i \<in> set vs"
  shows "validate_config (config i) = Inr () \<and> map fst (nc_peers (config i)) = vs \<and>
    node_new (nc_consensus (config i)) vs \<noteq> None"
  using assms
proof (induction rule: system_reachable.induct)
  case (sys_start sys)
  then have "map fst (nc_peers (config i)) = vs" "runtime_open ext False (config i) [] = Some (Inr (sys_runtimes sys i))"
    by (simp_all add: system_start_def)
  then show ?case by (elim runtime_openD) auto
qed

text \<open>
  C9: Restarts. In every state that a cluster of runtimes can reach, also after failed saves and torn
  writes, the directory of every member can be opened again: it is never found corrupt. Of a runtime
  that has not failed the restart finds the very term, vote, log and configuration it had.
\<close>

theorem every_runtime_reopens:
  assumes "lawful ext" "system_reachable ext config vs sys" "i \<in> set vs"
  shows "\<exists>rt'. runtime_open ext False (config i) (snd (st_wal (rt_store (sys_runtimes sys i)))) = Some (Inr rt') \<and>
    (\<not> rt_failed (sys_runtimes sys i) \<longrightarrow>
       node_persistent (rt_node rt') = node_persistent (rt_node (sys_runtimes sys i)))"
proof -
  let ?rt = "sys_runtimes sys i" and ?crc = "ext_crc ext" and ?dec = "ext_dec_delta ext"
  from system_simulated [OF assms(1,2)] obtain cfg s where sim: "simulates ext config vs cfg s sys" by blast
  then have rep: "represents ext (config i) vs s i ?rt" and reach: "reachable cfg vs s"
    using assms(3) by (simp_all add: simulates_def)
  note boots = member_boots [OF assms(2,3)]
  then obtain start where start: "node_new (nc_consensus (config i)) (map fst (nc_peers (config i))) = Some start" by auto
  note boot = node_new_boot [OF start]
  define D where "D = (if rt_failed ?rt then {d. disk_ok s i d} else {st_durable (rt_store ?rt)})"
  have "restart_finds ?crc ?dec (boot_state vs) (rt_store ?rt) D"
    using rep restart_finds_inv by (cases "rt_failed ?rt") (auto simp: represents_def D_def)
  then obtain store where store: "store_open ?crc ?dec False (snd (st_wal (rt_store ?rt))) (boot_state vs) = Inr store"
    "st_durable store \<in> D" by (auto simp: restart_finds_def)
  from boot(2) obtain n where n: "node_restore (nc_consensus (config i)) (st_durable store) = Some n"
    using node_restore_total [of "nc_consensus (config i)" "boot_state vs" "st_durable store"] boots by auto
  have "node_persistent n = node_persistent (rt_node ?rt)" if "\<not> rt_failed ?rt"
    using node_restore_SomeD(1) [OF n] store(2) that reachable_disk [OF reach, of i]
      represents_healthyD(1,2) [OF rep that] by (simp add: D_def node_persistent_def)
  then show ?thesis
    using start boot(1) boots store(1) n by (auto simp: runtime_open_def)
qed

theorem every_runtime_reopens_witness:
  "\<exists>sys rt1 rt2. system_reachable duo_externals duo_config [NodeId 1, NodeId 2] sys \<and>
     rt_failed (sys_runtimes sys (NodeId 1)) \<and> \<not> rt_failed (sys_runtimes sys (NodeId 2)) \<and>
     runtime_open duo_externals False (duo_config (NodeId 1))
       (snd (st_wal (rt_store (sys_runtimes sys (NodeId 1))))) = Some (Inr rt1) \<and>
     runtime_open duo_externals False (duo_config (NodeId 2))
       (snd (st_wal (rt_store (sys_runtimes sys (NodeId 2))))) = Some (Inr rt2) \<and>
     entries (core_log (node_core (rt_node rt2))) = [sample_entry1]"
proof -
  have "map_option (map (\<lambda>(i, rt). (i, rt_failed rt, entries (core_log (node_core (rt_node rt))))))
      (duo_run duo_fails) =
    Some [(NodeId 1, True, [sample_entry1, sample_entry1\<lparr>entry_index := 2\<rparr>]),
      (NodeId 2, False, [sample_entry1])]"
    by code_simp
  then obtain rt1 rt2 where run: "duo_run duo_fails = Some [(NodeId 1, rt1), (NodeId 2, rt2)]"
    and rts: "rt_failed rt1" "\<not> rt_failed rt2" "entries (core_log (node_core (rt_node rt2))) = [sample_entry1]"
    by (auto simp: map_eq_Cons_conv)
  from duo_reached [OF run] obtain sys where
    sys: "system_reachable duo_externals duo_config [NodeId 1, NodeId 2] sys"
      "sys_runtimes sys (NodeId 1) = rt1" "sys_runtimes sys (NodeId 2) = rt2"
    by blast
  note reopens = every_runtime_reopens [OF duo_lawful sys(1)]
  from reopens [of "NodeId 1"] reopens [of "NodeId 2"] show ?thesis
    using sys rts by (auto simp: node_persistent_def core_log_def intro!: exI [of _ sys])
qed

text \<open>
  C8: Safety of the running cluster. Two runtimes that have not failed and lead in the same term are
  the same, and where their logs have an entry of the same term at an index they agree on it and on all
  entries before it.
\<close>

theorem running_cluster_is_safe:
  assumes "lawful ext" "system_reachable ext config vs sys" "i \<in> set vs" "j \<in> set vs"
    and "\<not> rt_failed (sys_runtimes sys i)" "\<not> rt_failed (sys_runtimes sys j)"
    and "n = rt_node (sys_runtimes sys i)" "m = rt_node (sys_runtimes sys j)"
  shows "(node_is_leader n \<and> node_is_leader m \<and> node_term n = node_term m \<longrightarrow> i = j) \<and>
    (log_get (core_log (node_core n)) k = Some x \<and> log_get (core_log (node_core m)) k = Some y \<and>
     entry_term x = entry_term y \<and> k' \<le> k \<longrightarrow>
     log_get (core_log (node_core n)) k' = log_get (core_log (node_core m)) k')"
proof -
  from system_simulated [OF assms(1,2)] obtain cfg s where sim: "simulates ext config vs cfg s sys" by blast
  then have reach: "reachable cfg vs s" by (simp add: simulates_def)
  have nodes: "cl_nodes s i = n" "cl_nodes s j = m"
    using sim assms(3-8) represents_healthyD(1) by (auto simp: simulates_def)
  have "i = j" if "node_is_leader n" "node_is_leader m" "node_term n = node_term m"
    using leader_elected [OF reach, of i] leader_elected [OF reach, of j] that nodes
    by (intro elected_unique [OF reach, of "node_term n"]) auto
  moreover have "log_get (core_log (node_core n)) k' = log_get (core_log (node_core m)) k'"
    if "log_get (core_log (node_core n)) k = Some x" "log_get (core_log (node_core m)) k = Some y"
      "entry_term x = entry_term y" "k' \<le> k"
    using logs_match [OF reach, of i k x j y k'] that nodes by simp
  ultimately show ?thesis by blast
qed

theorem running_cluster_is_safe_witness:
  "\<exists>sys n m. system_reachable duo_externals duo_config [NodeId 1, NodeId 2] sys \<and>
     n = rt_node (sys_runtimes sys (NodeId 1)) \<and> m = rt_node (sys_runtimes sys (NodeId 2)) \<and>
     node_is_leader n \<and> node_term n = node_term m \<and> \<not> node_is_leader m \<and>
     log_get (core_log (node_core n)) 1 = Some sample_entry1 \<and>
     log_get (core_log (node_core m)) 1 = Some sample_entry1"
proof -
  have "map_option (map (\<lambda>(i, rt). (i, rt_failed rt, node_term (rt_node rt),
      log_get (core_log (node_core (rt_node rt))) 1))) (duo_run duo_replicates) =
    Some [(NodeId 1, False, 1, Some sample_entry1), (NodeId 2, False, 1, Some sample_entry1)]"
    "map_option (map (\<lambda>(i, rt). node_is_leader (rt_node rt))) (duo_run duo_replicates) = Some [True, False]"
    by code_simp+
  then obtain rt1 rt2 where run: "duo_run duo_replicates = Some [(NodeId 1, rt1), (NodeId 2, rt2)]"
    and rts: "\<not> rt_failed rt1" "node_is_leader (rt_node rt1)" "\<not> rt_failed rt2"
      "node_term (rt_node rt1) = 1" "node_term (rt_node rt2) = 1"
      "log_get (core_log (node_core (rt_node rt1))) 1 = Some sample_entry1"
      "log_get (core_log (node_core (rt_node rt2))) 1 = Some sample_entry1"
    by (auto simp: map_eq_Cons_conv)
  from duo_reached [OF run] obtain sys where
    sys: "system_reachable duo_externals duo_config [NodeId 1, NodeId 2] sys"
      "sys_runtimes sys (NodeId 1) = rt1" "sys_runtimes sys (NodeId 2) = rt2"
    by blast
  from running_cluster_is_safe [OF duo_lawful sys(1), of "NodeId 1" "NodeId 2" "rt_node rt1" "rt_node rt2"]
    sys rts show ?thesis
    by (intro exI [of _ sys] exI [of _ "rt_node rt1"] exI [of _ "rt_node rt2"]) auto
qed

end
