(* ===== verification/Spec2Isabelle.thy ===== *)
theory Spec2Isabelle
  imports Raft_Trace Raft_Progress Client_Session Read_Coordinator Node_Cluster
begin

text \<open>
  Cloud9 is a replicated key-value store. A node reads a configuration, opens a write-ahead log, drives a
  Raft automaton with ticks, messages of its peers and proposals of its clients, saves what the automaton
  asks it to save, then sends messages and applies committed commands to the key-value state machine. This
  development models these parts, from the bytes of the log on disk to the cluster, and states what makes
  them correct. Paths below are relative to \<open>src/\<close>.

  \<^bold>\<open>Conventions.\<close> A struct is a record, an enum a datatype. A \<open>u64\<close> is a word of 64 bits: sums wrap where
  the source does not check them, as in its release build. A panic (an index out of range, a remainder by
  zero) or a loop without end is the value \<open>None\<close> of an \<open>option\<close>; a \<open>Result\<close> is a sum with the error on the
  left. A \<open>BTreeMap\<close> or \<open>HashMap\<close> is a partial map, or a list sorted by key where its order is used; a
  \<open>BTreeSet\<close> is a set whose iteration is the sorted list. Methods that mutate return the new state.

  \<^bold>\<open>The Raft automaton\<close>, crate \<open>consensus/cloud9-raft\<close>.
  \<^item> \<open>Raft_Types\<close> models \<open>lib.rs\<close>, \<open>Membership\<close> models \<open>raft/membership.rs\<close>: configurations, quorums, the
    validation and application of changes. Any two quorums of a configuration meet (the locale
    \<open>quorum_system\<close>), and those before and after an accepted change meet.
  \<^item> \<open>Raft_Log\<close> models \<open>raft/log.rs\<close>: entries after a snapshot boundary. Every operation keeps the indices
    contiguous, and the log is a map that appending updates and truncation restricts.
  \<^item> \<open>Raft_Event\<close> models \<open>raft/event.rs\<close> and the step results of \<open>raft/mod.rs\<close>; \<open>Raft_Core\<close> models
    \<open>raft/core.rs\<close> and has the contract of a role, the locale \<open>raft_role\<close>: how term, vote and log may
    change in a step, and when the persist flag is raised.
  \<^item> \<open>Raft_Follower\<close>, \<open>Raft_Candidate\<close> (with the pre-candidate) and \<open>Raft_Leader\<close> model the role files, one
    definition per handler, and interpret \<open>raft_role\<close> on their step functions. They show what each handler
    does: which votes are granted, what an append request merges, which index is committed, when a read
    is confirmed.
  \<^item> \<open>Raft_Node\<close> models \<open>raft/mod.rs\<close>: \<open>RaftNode\<close>, the dispatch of events to the roles and the changes of role.
    Terms never decrease, votes are kept within a term, and a change of persistent state is flagged, but for
    one: a request that contradicts the snapshot of a follower clears its log unflagged.
  \<^item> \<open>Raft_Progress\<close> shows that every event is answered. The commit loop of \<open>maybe_commit\<close> is a
    \<open>partial_function\<close>; it returns because each round consumes one pending change of configuration.

  \<^bold>\<open>The abstract cluster.\<close> \<open>Raft_Fixed\<close> gathers what holds without membership changes and compaction, which
  is how the node drives the automaton. In \<open>Raft_Cluster\<close> nodes take steps in any order, over a network that
  keeps every message ever sent and may deliver it at any time, repeatedly or never, and a node may restart
  from its disk at any time. Ghost components record votes, elections and the log of the leader of each
  term. The invariants give election safety; \<open>Raft_Matching\<close> gives log matching and that leaders only append.
  \<open>Raft_Trace\<close> carries out schedules, which gives the runs of the witnesses and of
  \<open>committed_logs_can_diverge\<close>: State Machine Safety does \<^emph>\<open>not\<close> hold, because a follower reports the end of
  its whole log as matched.

  \<^bold>\<open>The key-value service\<close>, crate \<open>cloud9-node\<close>. \<open>Kv_State\<close> models \<open>command.rs\<close> and the reads of \<open>service.rs\<close>,
  \<open>Kv_Service\<close> the other handlers of \<open>service.rs\<close>. Retried mutations change nothing, entity tags identify
  writes, a read after a write returns it, and the handlers answer as the state machine does.
  \<open>Exactly_Once\<close> has the contract of a service that recognises repeated requests and its extension by the
  cached answer, interpreted on \<open>Kv_State\<close> and on \<open>Client_Session\<close>, the tracker of \<open>consensus/cloud9-raft-io/src/session.rs\<close>. \<open>Read_Coordinator\<close> models
  \<open>read_index.rs\<close> of the same crate.

  \<^bold>\<open>Durability.\<close> \<open>Wal_Format\<close> models the records of \<open>cloud9-wal\<close> (\<open>record.rs\<close>, \<open>error.rs\<close>, \<open>format.rs\<close>),
  \<open>Wal_Log\<close> its segments and the log (\<open>segment.rs\<close>, \<open>wal.rs\<close>) over a directory of byte strings. A fault of a
  write leaves any prefix of its bytes, and a sync may fail. Acknowledged records survive a crash at any
  point. The contract \<open>record_log\<close> is what \<open>Raft_Store\<close>, the model of
  \<open>cloud9-node/src/store.rs\<close>, relies on: it recovers the last state saved, or the one whose save failed.

  \<^bold>\<open>The node\<close>, crate \<open>cloud9-node\<close>. \<open>Raft_Auth\<close> models \<open>auth.rs\<close>; \<open>Node_Config\<close> models \<open>config.rs\<close>, the parsing
  of \<open>cloud9/src/main.rs\<close> and \<open>validate_config\<close> of \<open>runtime.rs\<close>; \<open>Node_Runtime\<close> models the rest of \<open>runtime.rs\<close>
  and \<open>transport.rs\<close>. An operation that holds the lock of the machine is one definition. The environment
  of an operation (\<open>Env\<close>) chooses the faults of the disk, the permits of the transport, and after how
  many turns the apply loop is cancelled: the number is fuel only in form, since every number of turns
  is a behaviour and \<open>apply_loop_takes_committed\<close> says what each does. Nothing becomes visible before it is
  durable, except through an operation that passed the health check before the runtime failed
  (\<open>unsynced_entry_acknowledged\<close>). \<open>Node_History\<close> shows that a client that is answered has had its
  command applied.

  \<^bold>\<open>The running cluster.\<close> \<open>Node_Cluster\<close> puts runtimes with their disks together and shows by simulation that
  they implement the abstract cluster, so that its safety carries over, and that every member can be
  opened again in every reachable state.

  \<^bold>\<open>Parameters.\<close> The checksum, the serialisation of deltas, commands and messages, the message
  authentication code, the TOML parser and the resolution of host names are not part of the repository.
  They are arguments of the definitions, collected in \<open>Externals\<close> for the runtime. The hypotheses on them
  (\<open>lawful\<close>, \<open>faithful\<close>) are that what is decoded is what was encoded and that a code has 32 bytes. No
  hypothesis on the checksum is needed.

  \<^bold>\<open>Bounds.\<close> The steps of a cluster are taken while terms and log indices are below the greatest \<open>u64\<close>, where
  the unchecked increments of the source would wrap; this needs more than \<open>10 ^ 19\<close> elections or entries.
  The theorems on single nodes state the room they need, or hold at the wrap-around as well.

  \<^bold>\<open>Not modelled.\<close> The HTTP exchange over TCP with its time limits, and the tasks and locks of the runtime of
  the language: the order of operations and the fate of messages are arbitrary instead. \<open>launch\<close> and \<open>kv_app\<close>
  of \<open>service.rs\<close>, the command line and logging of \<open>main.rs\<close>: input and output only. The storage and transport
  traits of \<open>cloud9-raft-io\<close>: declarations without implementation, which the node does not use. The code
  that the build generates from \<open>kv.proto\<close>; the wrappers of \<open>cloud9-core\<close>. The directory of the log is
  written by one process, whose lock file is a flag; metadata, permissions and the sync of the directory
  are not represented. Bytes that are written stay in the files, so a successful sync has no effect: that
  an operating system may lose what was not synced is not represented. The cluster theorems are for fixed membership without snapshots, since the runtime
  offers neither; changes of configuration and snapshots are covered for single nodes.
\<close>

section \<open>Safety of the cluster\<close>

text \<open>C1: election safety. At most one node is ever elected in a term: two nodes that have at
  any time led the same term are the same node, whatever messages are lost, delayed, reordered
  or repeated and whichever nodes restart from disk.\<close>

theorem election_safety:
  assumes "reachable cfg vs s" "(t, i) \<in> cl_elected s" "(t, j) \<in> cl_elected s"
  shows "i = j"
  using assms by (rule elected_unique)

theorem election_safety_witness:
  "\<exists>s. reachable cfg3 voters3 s \<and> node_is_leader (cl_nodes s (NodeId 2)) \<and>
     {j. (1, j) \<in> cl_elected s} = {NodeId 2}"
proof -
  have "map_option (\<lambda>n. (node_is_leader n, node_term n)) (node_in (take 3 divergence) (NodeId 2)) =
      Some (True, 1)"
    by code_simp
  then obtain n where n: "node_in (take 3 divergence) (NodeId 2) = Some n" "node_is_leader n" "node_term n = 1"
    by auto
  then obtain s where s: "reachable cfg3 voters3 s" "cl_nodes s (NodeId 2) = n"
    using observed [of "take 3 divergence" "NodeId 2"] by (metis option.discI)
  with n have "(1, NodeId 2) \<in> cl_elected s" using leader_elected [OF s(1), of "NodeId 2"] by simp
  with s n show ?thesis using election_safety [OF s(1)] by blast
qed

text \<open>C2: log matching. When the logs of two nodes hold entries of the same term at the same
  index, they agree on that entry and on every entry before it.\<close>

theorem log_matching:
  assumes "reachable cfg vs s"
    and "log_get (core_log (node_core (cl_nodes s i))) k = Some x"
    and "log_get (core_log (node_core (cl_nodes s j))) k = Some y"
    and "entry_term x = entry_term y" "k' \<le> k"
  shows "log_get (core_log (node_core (cl_nodes s i))) k' =
    log_get (core_log (node_core (cl_nodes s j))) k'"
  using assms by (rule logs_match)

theorem log_matching_witness:
  "\<exists>s x. reachable cfg3 voters3 s \<and>
     log_get (core_log (node_core (cl_nodes s (NodeId 2)))) 2 = Some x \<and>
     log_get (core_log (node_core (cl_nodes s (NodeId 3)))) 2 = Some x \<and>
     log_get (core_log (node_core (cl_nodes s (NodeId 2)))) 1 =
     log_get (core_log (node_core (cl_nodes s (NodeId 3)))) 1"
proof -
  have "map_option (\<lambda>n. log_get (core_log (node_core n)) 2) (node_in divergence (NodeId 2)) =
      map_option (\<lambda>n. log_get (core_log (node_core n)) 2) (node_in divergence (NodeId 3)) \<and>
      Option.bind (node_in divergence (NodeId 3)) (\<lambda>n. log_get (core_log (node_core n)) 2) \<noteq> None"
    by code_simp
  then obtain n2 n3 x where n: "node_in divergence (NodeId 2) = Some n2"
    "node_in divergence (NodeId 3) = Some n3"
    "log_get (core_log (node_core n2)) 2 = Some x" "log_get (core_log (node_core n3)) 2 = Some x"
    by (cases "node_in divergence (NodeId 2)"; cases "node_in divergence (NodeId 3)") auto
  then obtain s where s: "reachable cfg3 voters3 s" "cl_nodes s (NodeId 2) = n2"
    "cl_nodes s (NodeId 3) = n3"
    using observed [of divergence "NodeId 2"] by (metis option.discI)
  have "(1 :: u64) \<le> 2" by simp
  with s n show ?thesis using log_matching [OF s(1), of "NodeId 2" 2 x "NodeId 3" x 1] by auto
qed

text \<open>C3: leader append-only. While a node leads a term its log only grows: no step of the
  cluster overwrites or removes an entry of it.\<close>

theorem leader_append_only:
  assumes "reachable cfg vs s" "cluster_step s s'"
    and "node_is_leader (cl_nodes s i)" "node_is_leader (cl_nodes s' i)"
    and "node_term (cl_nodes s i) = node_term (cl_nodes s' i)"
  shows "prefix (entries (core_log (node_core (cl_nodes s i))))
    (entries (core_log (node_core (cl_nodes s' i))))"
  using ledger_append_only [OF assms(1,2), of "node_term (cl_nodes s' i)"]
    leader_ledger [OF assms(1,3)] leader_ledger [OF reachable.step [OF assms(1,2)] assms(4)] assms(5)
  by simp

theorem leader_append_only_witness:
  "\<exists>s s'. reachable cfg3 voters3 s \<and> cluster_step s s' \<and>
     length (entries (core_log (node_core (cl_nodes s (NodeId 2))))) = 1 \<and>
     length (entries (core_log (node_core (cl_nodes s' (NodeId 2))))) = 2 \<and>
     prefix (entries (core_log (node_core (cl_nodes s (NodeId 2)))))
       (entries (core_log (node_core (cl_nodes s' (NodeId 2)))))"
proof -
  let ?obs = "\<lambda>n. (node_is_leader n, node_term n, length (entries (core_log (node_core n))))"
  let ?go = "take 19 divergence" and ?last = "APropose (NodeId 2) (Command [5])"
  have "map_option ?obs (node_in ?go (NodeId 2)) = Some (True, 3, 1)"
    "map_option ?obs (node_in (?go @ [?last]) (NodeId 2)) = Some (True, 3, 2)"
    by code_simp+
  then obtain n n' where n: "node_in ?go (NodeId 2) = Some n" "node_in (?go @ [?last]) (NodeId 2) = Some n'"
    "?obs n = (True, 3, 1)" "?obs n' = (True, 3, 2)"
    by auto
  then obtain s s' where s: "reachable cfg3 voters3 s" "cluster_step s s'"
    "cl_nodes s (NodeId 2) = n" "cl_nodes s' (NodeId 2) = n'"
    using observed_step [of ?go ?last "NodeId 2"] by (metis option.discI)
  with n have "prefix (node_entries s (NodeId 2)) (node_entries s' (NodeId 2))"
    by (intro leader_append_only) auto
  with n s show ?thesis by (intro exI [of _ s] exI [of _ s']) auto
qed

text \<open>Crash recovery. At every moment a restart from disk brings back exactly the term, the
  vote and the log that the node had, as a follower.\<close>

theorem restart_loses_nothing:
  assumes "reachable cfg vs s"
    and "node_restore (core_config (node_core (cl_nodes s i))) (cl_disk s i) = Some n"
  shows "node_persistent n = node_persistent (cl_nodes s i) \<and> role_is_follower (node_role n)"
  using node_restore_SomeD [OF assms(2)] reachable_disk [OF assms(1)]
  by (simp add: node_persistent_def)

theorem restart_loses_nothing_witness:
  "\<exists>s n. reachable cfg3 voters3 s \<and>
     node_restore (core_config (node_core (cl_nodes s (NodeId 2)))) (cl_disk s (NodeId 2)) = Some n \<and>
     p_voted_for (node_persistent (cl_nodes s (NodeId 2))) = Some (NodeId 2) \<and>
     p_voted_for (node_persistent n) = Some (NodeId 2)"
proof -
  let ?obs = "\<lambda>n. (p_voted_for (node_persistent n),
    node_restore (core_config (node_core n)) (node_persistent n) \<noteq> None)"
  have "map_option ?obs (node_in (take 4 divergence) (NodeId 2)) = Some (Some (NodeId 2), True)"
    by code_simp
  then obtain n where n: "node_in (take 4 divergence) (NodeId 2) = Some n"
    "?obs n = (Some (NodeId 2), True)"
    by auto
  then obtain s where s: "reachable cfg3 voters3 s" "cl_nodes s (NodeId 2) = n"
    using observed [of "take 4 divergence" "NodeId 2"] by (metis option.discI)
  from n(2) obtain n' where
    "node_restore (core_config (node_core (cl_nodes s (NodeId 2)))) (cl_disk s (NodeId 2)) = Some n'"
    using reachable_disk [OF s(1)] s(2) by auto
  with n s show ?thesis using restart_loses_nothing [OF s(1), of "NodeId 2" n'] by auto
qed

text \<open>C4: no panics in a cluster. In every reachable state every node processes every event to the
  end, whatever the event carries, provided its range of election timeouts is not empty.\<close>

theorem cluster_answers_every_event:
  assumes "reachable cfg vs s" "timeouts_ok (cfg i)"
  shows "\<exists>n e. step_event (cl_nodes s i) ev = Some (n, e)"
proof -
  have "plain_log (core_log (node_core (cl_nodes s i)))" "core_config (node_core (cl_nodes s i)) = cfg i"
    using reachable_inv [OF assms(1)] by (simp_all add: cluster_inv_def node_inv_def Let_def)
  then have "node_ready (cl_nodes s i)"
    using assms(2) by (simp add: node_ready_def commits_def plain_logD(1) maybe_commit_plain)
  then show ?thesis using step_event_total [of "cl_nodes s i" ev] by auto
qed

theorem cluster_answers_every_event_witness:
  "\<exists>s n e. reachable cfg3 voters3 s \<and> node_is_leader (cl_nodes s (NodeId 2)) \<and>
     step_event (cl_nodes s (NodeId 2)) Tick = Some (n, e)"
proof -
  have "map_option node_is_leader (node_in (take 3 divergence) (NodeId 2)) = Some True"
    "timeouts_ok (cfg3 (NodeId 2))"
    by code_simp+
  then obtain n where n: "node_in (take 3 divergence) (NodeId 2) = Some n" "node_is_leader n"
    "timeouts_ok (cfg3 (NodeId 2))"
    by auto
  then obtain s where s: "reachable cfg3 voters3 s" "cl_nodes s (NodeId 2) = n"
    using observed [of "take 3 divergence" "NodeId 2"] by (metis option.discI)
  with n cluster_answers_every_event [OF s(1) n(3), of Tick] show ?thesis by blast
qed

text \<open>C5: state machine safety does not hold. In a cluster of three, without a configuration
  change, a snapshot or a restart, two nodes commit different commands at index 1: a follower
  answers a heartbeat with its last index even when the entries up to it are not the leader's,
  and the leader counts that index as replicated.\<close>

theorem committed_logs_can_diverge:
  "\<exists>s. reachable cfg3 voters3 s \<and>
     node_committed (cl_nodes s (NodeId 1)) =
       [\<lparr>ce_index = 1, ce_term = 2, ce_command = Command [9]\<rparr>] \<and>
     node_committed (cl_nodes s (NodeId 2)) =
       [\<lparr>ce_index = 1, ce_term = 1, ce_command = Command [7]\<rparr>,
        \<lparr>ce_index = 2, ce_term = 3, ce_command = Command [5]\<rparr>]"
proof -
  have "map_option node_committed (node_in divergence (NodeId 1)) =
      Some [\<lparr>ce_index = 1, ce_term = 2, ce_command = Command [9]\<rparr>]"
    "map_option node_committed (node_in divergence (NodeId 2)) =
      Some [\<lparr>ce_index = 1, ce_term = 1, ce_command = Command [7]\<rparr>,
       \<lparr>ce_index = 2, ce_term = 3, ce_command = Command [5]\<rparr>]"
    by code_simp+
  then show ?thesis
    using observed [of divergence "NodeId 1"] by (auto simp: map_option_eq_Some) metis
qed

end
